(* ===== verification/Prelude.thy ===== *)
theory Prelude
  imports Main "HOL-Library.Word"
begin

text \<open>
  Shared vocabulary of the development: the machine integer types of the target (a 32-bit
  little-endian ARM Cortex-M), the flat byte-addressed memory the C code reads and writes
  through pointers, and the generic lemmas on words, byte runs and lists that the component
  theories use. Pointers are 32-bit words and pointer arithmetic wraps at 32 bits, as the
  address arithmetic of the target does; where C leaves such a wrap undefined, the theorems
  of the components carry an explicit hypothesis that it does not occur.
\<close>

unbundle bit_operations_syntax

named_theorems mem_simps \<open>rewriting of memory reads over memory writes\<close>
named_theorems byte_simps \<open>bytes of machine words\<close>

type_synonym u8 = "8 word"
type_synonym u16 = "16 word"
type_synonym u32 = "32 word"
type_synonym u64 = "64 word"
type_synonym addr = "32 word"
type_synonym mem = "addr \<Rightarrow> u8"

section \<open>Bytes of words\<close>

lemma byte_eqI:
  fixes a b :: u8
  assumes "bit a 0 = bit b 0" "bit a 1 = bit b 1" "bit a 2 = bit b 2" "bit a 3 = bit b 3"
    "bit a 4 = bit b 4" "bit a 5 = bit b 5" "bit a 6 = bit b 6" "bit a 7 = bit b 7"
  shows "a = b"
proof (rule bit_word_eqI)
  fix n assume "n < LENGTH(8)"
  then have "n \<in> {0,1,2,3,4,5,6,7}" by auto
  then show "bit a n = bit b n" using assms by auto
qed

text \<open>The bytes of a word, most significant first (network order).\<close>

definition be16 :: "'a::len word \<Rightarrow> u8 list" where
  "be16 x = [ucast (drop_bit 8 x), ucast x]"

definition be32 :: "'a::len word \<Rightarrow> u8 list" where
  "be32 x = [ucast (drop_bit 24 x), ucast (drop_bit 16 x), ucast (drop_bit 8 x), ucast x]"

definition be64 :: "'a::len word \<Rightarrow> u8 list" where
  "be64 x = [ucast (drop_bit 56 x), ucast (drop_bit 48 x), ucast (drop_bit 40 x),
             ucast (drop_bit 32 x), ucast (drop_bit 24 x), ucast (drop_bit 16 x),
             ucast (drop_bit 8 x), ucast x]"

lemma length_be [simp]: "length (be16 x) = 2" "length (be32 x) = 4" "length (be64 x) = 8"
  by (simp_all add: be16_def be32_def be64_def)

lemma bit_byte_beyond [simp]: "8 \<le> n \<Longrightarrow> \<not> bit (b :: u8) n"
  by (simp add: bit_word.rep_eq bit_imp_le_length)

lemma byte_bitD:
  fixes a b :: "'a::len word"
  assumes "(ucast (drop_bit k a) :: u8) = ucast (drop_bit k b)" "k \<le> n" "n < k + 8"
  shows "bit a n = bit b n"
proof -
  have "bit (ucast (drop_bit k a) :: u8) (n - k) = bit (ucast (drop_bit k b) :: u8) (n - k)"
    using assms(1) by simp
  then show ?thesis using assms(2,3) by (simp add: bit_simps less_diff_conv2)
qed

lemma be16_inject: "be16 a = be16 b \<Longrightarrow> a = (b :: u16)"
proof (rule bit_word_eqI)
  fix n assume "be16 a = be16 b" "n < LENGTH(16)"
  then have "n < 8 \<or> 8 \<le> n \<and> n < 16" by auto
  with \<open>be16 a = be16 b\<close> show "bit a n = bit b n"
    using byte_bitD [of 0 a b n] byte_bitD [of 8 a b n] by (auto simp: be16_def)
qed

lemma be32_inject: "be32 a = be32 b \<Longrightarrow> a = (b :: u32)"
proof (rule bit_word_eqI)
  fix n assume "be32 a = be32 b" "n < LENGTH(32)"
  then have "n < 8 \<or> 8 \<le> n \<and> n < 16 \<or> 16 \<le> n \<and> n < 24 \<or> 24 \<le> n \<and> n < 32" by auto
  with \<open>be32 a = be32 b\<close> show "bit a n = bit b n"
    using byte_bitD [of 0 a b n] byte_bitD [of 8 a b n] byte_bitD [of 16 a b n]
      byte_bitD [of 24 a b n] by (auto simp: be32_def)
qed

lemma be64_inject: "be64 a = be64 b \<Longrightarrow> a = (b :: u64)"
proof (rule bit_word_eqI)
  fix n assume "be64 a = be64 b" "n < LENGTH(64)"
  then have "n < 8 \<or> 8 \<le> n \<and> n < 16 \<or> 16 \<le> n \<and> n < 24 \<or> 24 \<le> n \<and> n < 32 \<or>
    32 \<le> n \<and> n < 40 \<or> 40 \<le> n \<and> n < 48 \<or> 48 \<le> n \<and> n < 56 \<or> 56 \<le> n \<and> n < 64" by auto
  with \<open>be64 a = be64 b\<close> show "bit a n = bit b n"
    using byte_bitD [of 0 a b n] byte_bitD [of 8 a b n] byte_bitD [of 16 a b n]
      byte_bitD [of 24 a b n] byte_bitD [of 32 a b n] byte_bitD [of 40 a b n]
      byte_bitD [of 48 a b n] byte_bitD [of 56 a b n] by (auto simp: be64_def)
qed

section \<open>Signed reading\<close>

lemma sint_cases:
  fixes w :: "'a::len word"
  shows "sint w = (if uint w < 2 ^ (LENGTH('a) - 1) then uint w else uint w - 2 ^ LENGTH('a))"
proof -
  obtain n where n: "LENGTH('a) = Suc n" by (cases "LENGTH('a)") simp_all
  have u: "0 \<le> uint w" "uint w < 2 * 2 ^ n" using uint_lt2p [of w] n by simp_all
  have s: "sint w = (uint w + 2 ^ n) mod (2 * 2 ^ n) - 2 ^ n"
    by (simp add: sint_uint signed_take_bit_eq_take_bit_shift take_bit_eq_mod n)
  show ?thesis
  proof (cases "uint w < 2 ^ n")
    case True
    then show ?thesis using u s n by simp
  next
    case False
    then have "(uint w + 2 ^ n) mod (2 * 2 ^ n) = (uint w - 2 ^ n) mod (2 * 2 ^ n)"
      by (metis (no_types, lifting) diff_add_cancel add.assoc mod_add_self2 mult_2)
    also have "\<dots> = uint w - 2 ^ n" using u False by simp
    finally show ?thesis using False s n by simp
  qed
qed

section \<open>Casts\<close>

lemma unat_ucast_up:
  fixes w :: "'a::len word"
  assumes "LENGTH('a) \<le> LENGTH('b)"
  shows "unat (ucast w :: 'b::len word) = unat w"
proof -
  have "unat w < 2 ^ LENGTH('a)" by (rule unsigned_less)
  also have "\<dots> \<le> 2 ^ LENGTH('b)" using assms by (rule power_increasing) simp
  finally show ?thesis by (simp add: unsigned_ucast_eq unsigned_take_bit_eq take_bit_nat_eq_self)
qed

lemma unat_ucast_small:
  fixes w :: "'a::len word"
  assumes "unat w < 2 ^ LENGTH('b)"
  shows "unat (ucast w :: 'b::len word) = unat w"
  using assms by (simp add: unsigned_ucast_eq unsigned_take_bit_eq take_bit_nat_eq_self)

section \<open>Memory\<close>

text \<open>
  \<open>mem_write m p bs\<close> stores the bytes \<open>bs\<close> at the addresses \<open>p\<close>, \<open>p + 1\<close>, \dots and
  \<open>bytes_at m p n\<close> reads \<open>n\<close> bytes from \<open>p\<close> on.
\<close>

definition mem_write :: "mem \<Rightarrow> addr \<Rightarrow> u8 list \<Rightarrow> mem" where
  "mem_write m p bs = (\<lambda>a. if unat (a - p) < length bs then bs ! unat (a - p) else m a)"

definition bytes_at :: "mem \<Rightarrow> addr \<Rightarrow> nat \<Rightarrow> u8 list" where
  "bytes_at m p n = map (\<lambda>i. m (p + of_nat i)) [0..<n]"

text \<open>The C library's \<open>memcpy\<close>, on regions that do not overlap.\<close>

definition memcpy :: "mem \<Rightarrow> addr \<Rightarrow> addr \<Rightarrow> nat \<Rightarrow> mem" where
  "memcpy m d s n = mem_write m d (bytes_at m s n)"

text \<open>
  Stores and loads of 16, 32 and 64 bits through a pointer, little-endian as the target:
  \<open>*(uint16_t* )p = x\<close> and so on.
\<close>

definition store16 :: "mem \<Rightarrow> addr \<Rightarrow> u16 \<Rightarrow> mem" where
  "store16 m p x = m(p := ucast x, p + 1 := ucast (drop_bit 8 x))"

definition store32 :: "mem \<Rightarrow> addr \<Rightarrow> u32 \<Rightarrow> mem" where
  "store32 m p x = m(p := ucast x, p + 1 := ucast (drop_bit 8 x),
     p + 2 := ucast (drop_bit 16 x), p + 3 := ucast (drop_bit 24 x))"

definition store64 :: "mem \<Rightarrow> addr \<Rightarrow> u64 \<Rightarrow> mem" where
  "store64 m p x = m(p := ucast x, p + 1 := ucast (drop_bit 8 x),
     p + 2 := ucast (drop_bit 16 x), p + 3 := ucast (drop_bit 24 x),
     p + 4 := ucast (drop_bit 32 x), p + 5 := ucast (drop_bit 40 x),
     p + 6 := ucast (drop_bit 48 x), p + 7 := ucast (drop_bit 56 x))"

definition load16 :: "mem \<Rightarrow> addr \<Rightarrow> u16" where
  "load16 m p = ucast (m p) OR push_bit 8 (ucast (m (p + 1)))"

definition load32 :: "mem \<Rightarrow> addr \<Rightarrow> u32" where
  "load32 m p = ucast (m p) OR push_bit 8 (ucast (m (p + 1))) OR
     push_bit 16 (ucast (m (p + 2))) OR push_bit 24 (ucast (m (p + 3)))"

definition load64 :: "mem \<Rightarrow> addr \<Rightarrow> u64" where
  "load64 m p = ucast (m p) OR push_bit 8 (ucast (m (p + 1))) OR
     push_bit 16 (ucast (m (p + 2))) OR push_bit 24 (ucast (m (p + 3))) OR
     push_bit 32 (ucast (m (p + 4))) OR push_bit 40 (ucast (m (p + 5))) OR
     push_bit 48 (ucast (m (p + 6))) OR push_bit 56 (ucast (m (p + 7)))"

lemma length_bytes_at [simp]: "length (bytes_at m p n) = n"
  by (simp add: bytes_at_def)

lemma bytes_at_nth [simp]: "i < n \<Longrightarrow> bytes_at m p n ! i = m (p + of_nat i)"
  by (simp add: bytes_at_def)

lemma bytes_at_0 [simp]: "bytes_at m p 0 = []"
  by (simp add: bytes_at_def)

lemma bytes_at_Suc: "bytes_at m p (Suc n) = m p # bytes_at m (p + 1) n"
  by (simp add: bytes_at_def upt_conv_Cons map_Suc_upt [symmetric] add.assoc
      del: upt_Suc map_Suc_upt)

lemma bytes_at_small:
  "bytes_at m p 2 = [m p, m (p + 1)]"
  "bytes_at m p 4 = [m p, m (p + 1), m (p + 2), m (p + 3)]"
  "bytes_at m p 8 = [m p, m (p + 1), m (p + 2), m (p + 3), m (p + 4), m (p + 5), m (p + 6), m (p + 7)]"
  by (simp_all add: bytes_at_def upt_rec)

lemma bytes_at_add: "bytes_at m p (k + n) = bytes_at m p k @ bytes_at m (p + of_nat k) n"
  by (induction k arbitrary: p) (simp_all add: bytes_at_Suc add.assoc)

lemma unat_diff_add_of_nat:
  fixes p :: addr
  assumes "i < 2 ^ 32"
  shows "unat (p + of_nat i - p) = i"
  using assms by (simp add: unat_of_nat)

lemma mem_write_Nil [simp]: "mem_write m p [] = m"
  by (simp add: mem_write_def)

lemma mem_write_single: "mem_write m p [b] = m(p := b)"
  by (auto simp: mem_write_def fun_eq_iff unat_eq_zero)

lemma mem_write_outside [mem_simps]:
  "length bs \<le> unat (a - p) \<Longrightarrow> mem_write m p bs a = m a"
  by (simp add: mem_write_def)

lemma mem_write_inside [mem_simps]:
  "i < length bs \<Longrightarrow> length bs \<le> 2 ^ 32 \<Longrightarrow> mem_write m p bs (p + of_nat i) = bs ! i"
  by (simp add: mem_write_def unat_of_nat)

lemma bytes_at_mem_write [mem_simps]:
  "length bs \<le> 2 ^ 32 \<Longrightarrow> bytes_at (mem_write m p bs) p (length bs) = bs"
  by (rule nth_equalityI) (simp_all add: mem_write_inside)

lemma unat_shifted_diff:
  fixes a p :: addr
  assumes "k \<le> unat (a - p)"
  shows "unat (a - (p + of_nat k)) = unat (a - p) - k"
proof -
  have "k < 2 ^ 32" using assms unsigned_less [of "a - p", where ?'a = nat] by simp
  then have k: "unat (of_nat k :: addr) = k" by (simp add: unat_of_nat)
  have "a - (p + of_nat k) = (a - p) - of_nat k" by simp
  also have "unat \<dots> = unat (a - p) - k"
    using assms k by (subst unat_sub) (simp_all add: word_le_nat_alt)
  finally show ?thesis .
qed

lemma unat_shifted_diff_wrap:
  fixes a p :: addr
  assumes "unat (a - p) < k" "k \<le> 2 ^ 32"
  shows "unat (a - (p + of_nat k)) = 2 ^ 32 + unat (a - p) - k"
proof (cases "k = 2 ^ 32")
  case True
  then have z: "(of_nat k :: addr) = 0" by simp
  show ?thesis unfolding z using True by simp
next
  case False
  with assms have k: "unat (of_nat k :: addr) = k" by (simp add: unat_of_nat)
  have "a - (p + of_nat k) = (a - p) - of_nat k" by simp
  also have "unat \<dots> = 2 ^ 32 + unat (a - p) - k"
    using assms k by (simp add: unat_sub_if')
  finally show ?thesis .
qed

lemma mem_write_append:
  assumes "length xs + length ys \<le> 2 ^ 32"
  shows "mem_write (mem_write m p xs) (p + of_nat (length xs)) ys = mem_write m p (xs @ ys)"
proof
  fix a
  show "mem_write (mem_write m p xs) (p + of_nat (length xs)) ys a = mem_write m p (xs @ ys) a"
  proof (cases "unat (a - p) < length xs")
    case True
    then have "unat (a - (p + of_nat (length xs))) = 2 ^ 32 + unat (a - p) - length xs"
      using assms by (intro unat_shifted_diff_wrap) auto
    then have "\<not> unat (a - (p + of_nat (length xs))) < length ys"
      using True assms by linarith
    then show ?thesis using True by (simp add: mem_write_def nth_append)
  next
    case False
    then have "unat (a - (p + of_nat (length xs))) = unat (a - p) - length xs"
      by (intro unat_shifted_diff) simp
    then show ?thesis using False
      by (auto simp: mem_write_def nth_append)
  qed
qed

lemma mem_write_Cons:
  assumes "length ys < 2 ^ 32"
  shows "mem_write m p (x # ys) = mem_write (m(p := x)) (p + 1) ys"
  using mem_write_append [of "[x]" ys m p] assms by (simp add: mem_write_single)

lemma bytes_at_disjoint:
  assumes "\<And>i. i < n \<Longrightarrow> length bs \<le> unat (q + of_nat i - p)"
  shows "bytes_at (mem_write m p bs) q n = bytes_at m q n"
  using assms by (intro nth_equalityI) (simp_all add: mem_write_outside)

lemma bytes_at_append_split:
  assumes "bytes_at m p (length (xs @ ys)) = xs @ ys"
  shows "bytes_at m p (length xs) = xs" "bytes_at m (p + of_nat (length xs)) (length ys) = ys"
  using assms by (simp_all add: bytes_at_add)

lemma bytes_at_ConsD:
  assumes "bytes_at m p (length (x # ys)) = x # ys"
  shows "m p = x" "bytes_at m (p + 1) (length ys) = ys"
  using assms by (simp_all add: bytes_at_Suc)

end
