(* ===== verification/CWPack.thy ===== *)
theory CWPack
  imports Prelude
begin

text \<open>
  The MessagePack codec CWPack (\<^verbatim>\<open>src/src/cwpack\<close>): byte-order macros, the packing context and
  the packing routines. The context is the C struct, extended with the memory its pointers
  point into; the overflow handler the caller may install (a function pointer of the struct,
  absent in this program) is the parameter \<open>hpo\<close> of every routine that can call it. A float
  or double argument is its IEEE bit pattern, as the routines only reinterpret it.
\<close>

section \<open>Byte order (cwpack\_defines.h, little-endian build)\<close>

definition cw_store16 :: "mem \<Rightarrow> addr \<Rightarrow> 'a::len word \<Rightarrow> mem" where
  "cw_store16 m p d = store16 m p (ucast ((drop_bit 8 d AND 0xff) OR push_bit 8 d))"

definition cw_store32 :: "mem \<Rightarrow> addr \<Rightarrow> 'a::len word \<Rightarrow> mem" where
  "cw_store32 m p d = (let x = ucast d :: u32 in
     store32 m p (drop_bit 24 x OR drop_bit 8 (x AND 0x00ff0000) OR
                  push_bit 8 (x AND 0x0000ff00) OR push_bit 24 x))"

definition cw_store64 :: "mem \<Rightarrow> addr \<Rightarrow> u64 \<Rightarrow> mem" where
  "cw_store64 m p x = store64 m p
     (((drop_bit 40 x OR push_bit 24 x) AND 0x0000ff000000ff00) OR
      ((drop_bit 24 x OR push_bit 40 x) AND 0x00ff000000ff0000) OR
      drop_bit 8 (x AND 0x000000ff00000000) OR
      push_bit 8 (x AND 0x00000000ff000000) OR
      drop_bit 56 x OR push_bit 56 x)"

definition cw_load16 :: "mem \<Rightarrow> addr \<Rightarrow> u16" where
  "cw_load16 m p = (let t = load16 m p in push_bit 8 t OR drop_bit 8 t)"

definition cw_load32 :: "mem \<Rightarrow> addr \<Rightarrow> u32" where
  "cw_load32 m p = (let t = load32 m p in
     push_bit 24 t OR push_bit 8 (t AND 0xff00) OR drop_bit 8 (t AND 0xff0000) OR drop_bit 24 t)"

definition cw_load64 :: "mem \<Rightarrow> addr \<Rightarrow> u64" where
  "cw_load64 m p = (let t = load64 m p in
     ((drop_bit 40 t OR push_bit 24 t) AND 0x0000ff000000ff00) OR
     ((drop_bit 24 t OR push_bit 40 t) AND 0x00ff000000ff0000) OR
     drop_bit 8 (t AND 0x000000ff00000000) OR
     push_bit 8 (t AND 0x00000000ff000000) OR
     drop_bit 56 t OR push_bit 56 t)"

text \<open>The variants of the same macros for an undetermined byte order.\<close>

definition cw_store16_any :: "mem \<Rightarrow> addr \<Rightarrow> 'a::len word \<Rightarrow> mem" where
  "cw_store16_any m p d = m(p := ucast (drop_bit 8 d), p + 1 := ucast d)"

definition cw_store32_any :: "mem \<Rightarrow> addr \<Rightarrow> 'a::len word \<Rightarrow> mem" where
  "cw_store32_any m p d = m(p := ucast (drop_bit 24 d), p + 1 := ucast (drop_bit 16 d),
     p + 2 := ucast (drop_bit 8 d), p + 3 := ucast d)"

definition cw_store64_any :: "mem \<Rightarrow> addr \<Rightarrow> u64 \<Rightarrow> mem" where
  "cw_store64_any m p z = m(p := ucast (drop_bit 56 z), p + 1 := ucast (drop_bit 48 z),
     p + 2 := ucast (drop_bit 40 z), p + 3 := ucast (drop_bit 32 z),
     p + 4 := ucast (drop_bit 24 z), p + 5 := ucast (drop_bit 16 z),
     p + 6 := ucast (drop_bit 8 z), p + 7 := ucast z)"

definition cw_load16_any :: "mem \<Rightarrow> addr \<Rightarrow> u16" where
  "cw_load16_any m p = push_bit 8 (ucast (m p)) OR ucast (m (p + 1))"

definition cw_load32_any :: "mem \<Rightarrow> addr \<Rightarrow> u32" where
  "cw_load32_any m p = push_bit 24 (ucast (m p)) OR push_bit 16 (ucast (m (p + 1))) OR
     push_bit 8 (ucast (m (p + 2))) OR ucast (m (p + 3))"

definition cw_load64_any :: "mem \<Rightarrow> addr \<Rightarrow> u64" where
  "cw_load64_any m p = push_bit 56 (ucast (m p)) OR push_bit 48 (ucast (m (p + 1))) OR
     push_bit 40 (ucast (m (p + 2))) OR push_bit 32 (ucast (m (p + 3))) OR
     push_bit 24 (ucast (m (p + 4))) OR push_bit 16 (ucast (m (p + 5))) OR
     push_bit 8 (ucast (m (p + 6))) OR ucast (m (p + 7))"

section \<open>Return codes and the packing context\<close>

definition CWP_RC_OK :: int where "CWP_RC_OK = 0"
definition CWP_RC_END_OF_INPUT :: int where "CWP_RC_END_OF_INPUT = -1"
definition CWP_RC_BUFFER_OVERFLOW :: int where "CWP_RC_BUFFER_OVERFLOW = -2"
definition CWP_RC_BUFFER_UNDERFLOW :: int where "CWP_RC_BUFFER_UNDERFLOW = -3"
definition CWP_RC_MALFORMED_INPUT :: int where "CWP_RC_MALFORMED_INPUT = -4"
definition CWP_RC_WRONG_BYTE_ORDER :: int where "CWP_RC_WRONG_BYTE_ORDER = -5"
definition CWP_RC_ILLEGAL_CALL :: int where "CWP_RC_ILLEGAL_CALL = -7"

lemmas rc_defs = CWP_RC_OK_def CWP_RC_END_OF_INPUT_def CWP_RC_BUFFER_OVERFLOW_def
  CWP_RC_BUFFER_UNDERFLOW_def CWP_RC_MALFORMED_INPUT_def CWP_RC_WRONG_BYTE_ORDER_def
  CWP_RC_ILLEGAL_CALL_def

record cw_pack_context =
  pc_start :: addr
  pc_current :: addr
  pc_end :: addr
  be_compatible :: bool
  return_code :: int
  err_no :: int

record pack_state = cw_pack_context +
  pmem :: mem

type_synonym pack_overflow_handler = "pack_state \<Rightarrow> u32 \<Rightarrow> int \<times> pack_state"

definition test_byte_order :: int where
  "test_byte_order =
     (if load32 (\<lambda>a. [0x31, 0x32, 0x33, 0x34, 0] ! unat a) 0 \<noteq> 0x34333231
      then CWP_RC_WRONG_BYTE_ORDER else CWP_RC_OK)"

definition cw_pack_context_init :: "mem \<Rightarrow> addr \<Rightarrow> u32 \<Rightarrow> int \<times> pack_state" where
  "cw_pack_context_init m data len =
     (test_byte_order,
      \<lparr>pc_start = data, pc_current = data, pc_end = data + len, be_compatible = False,
       return_code = test_byte_order, err_no = 0, pmem = m\<rparr>)"

definition cw_pack_set_compatibility :: "bool \<Rightarrow> pack_state \<Rightarrow> pack_state" where
  "cw_pack_set_compatibility b s = s\<lparr>be_compatible := b\<rparr>"

text \<open>
  \<open>cw_pack_reserve_space\<close>: \<open>Inl\<close> is the macro's early return, \<open>Inr\<close> carries the pointer
  to the reserved bytes.
\<close>

definition cw_pack_reserve_space ::
  "pack_overflow_handler option \<Rightarrow> u32 \<Rightarrow> pack_state \<Rightarrow> pack_state + (addr \<times> pack_state)" where
  "cw_pack_reserve_space hpo n s =
     (let p = pc_current s; nyp = p + n in
      if nyp > pc_end s then
        (case hpo of
           None \<Rightarrow> Inl (s\<lparr>return_code := CWP_RC_BUFFER_OVERFLOW\<rparr>)
         | Some h \<Rightarrow>
             (let (rc, s') = h s n in
              if rc \<noteq> 0 then Inl (s'\<lparr>return_code := rc\<rparr>)
              else Inr (pc_current s', s'\<lparr>pc_current := pc_current s' + n\<rparr>)))
      else Inr (p, s\<lparr>pc_current := nyp\<rparr>))"

text \<open>
  Every packing routine reserves space and, on success, writes through the returned pointer;
  \<open>with_space\<close> is that shape.
\<close>

definition with_space ::
  "pack_overflow_handler option \<Rightarrow> u32 \<Rightarrow> (addr \<Rightarrow> mem \<Rightarrow> mem) \<Rightarrow> pack_state \<Rightarrow> pack_state" where
  "with_space hpo n wr s =
     (case cw_pack_reserve_space hpo n s of
        Inl s' \<Rightarrow> s'
      | Inr (p, s') \<Rightarrow> s'\<lparr>pmem := wr p (pmem s')\<rparr>)"

definition tryMove0 :: "pack_overflow_handler option \<Rightarrow> u8 \<Rightarrow> pack_state \<Rightarrow> pack_state" where
  "tryMove0 hpo t = with_space hpo 1 (\<lambda>p m. m(p := t))"

definition tryMove1 :: "pack_overflow_handler option \<Rightarrow> u8 \<Rightarrow> u8 \<Rightarrow> pack_state \<Rightarrow> pack_state" where
  "tryMove1 hpo t d = with_space hpo 2 (\<lambda>p m. m(p := t, p + 1 := d))"

definition tryMove2 ::
  "pack_overflow_handler option \<Rightarrow> u8 \<Rightarrow> 'a::len word \<Rightarrow> pack_state \<Rightarrow> pack_state" where
  "tryMove2 hpo t d = with_space hpo 3 (\<lambda>p m. cw_store16 (m(p := t)) (p + 1) d)"

definition tryMove4 ::
  "pack_overflow_handler option \<Rightarrow> u8 \<Rightarrow> 'a::len word \<Rightarrow> pack_state \<Rightarrow> pack_state" where
  "tryMove4 hpo t d = with_space hpo 5 (\<lambda>p m. cw_store32 (m(p := t)) (p + 1) d)"

definition tryMove8 :: "pack_overflow_handler option \<Rightarrow> u8 \<Rightarrow> u64 \<Rightarrow> pack_state \<Rightarrow> pack_state" where
  "tryMove8 hpo t d = with_space hpo 9 (\<lambda>p m. cw_store64 (m(p := t)) (p + 1) d)"

section \<open>Packing routines (cwpack.c)\<close>

definition cw_pack_unsigned :: "pack_overflow_handler option \<Rightarrow> u64 \<Rightarrow> pack_state \<Rightarrow> pack_state" where
  "cw_pack_unsigned hpo i s =
     (if return_code s \<noteq> 0 then s
      else if i < 128 then tryMove0 hpo (ucast i) s
      else if i < 256 then tryMove1 hpo 0xcc (ucast i) s
      else if i < 0x10000 then tryMove2 hpo 0xcd i s
      else if i < 0x100000000 then tryMove4 hpo 0xce i s
      else tryMove8 hpo 0xcf i s)"

definition cw_pack_signed :: "pack_overflow_handler option \<Rightarrow> u64 \<Rightarrow> pack_state \<Rightarrow> pack_state" where
  "cw_pack_signed hpo i s =
     (if return_code s \<noteq> 0 then s
      else if sint i > 127 then
        (if sint i < 256 then tryMove1 hpo 0xcc (ucast i) s
         else if sint i < 0x10000 then tryMove2 hpo 0xcd i s
         else if sint i < 0x100000000 then tryMove4 hpo 0xce i s
         else tryMove8 hpo 0xcf i s)
      else if sint i \<ge> -32 then tryMove0 hpo (ucast i) s
      else if sint i \<ge> -128 then tryMove1 hpo 0xd0 (ucast i) s
      else if sint i \<ge> -32768 then tryMove2 hpo 0xd1 i s
      else if sint i \<ge> -2147483648 then tryMove4 hpo 0xd2 i s
      else tryMove8 hpo 0xd3 i s)"

definition cw_pack_float :: "pack_overflow_handler option \<Rightarrow> u32 \<Rightarrow> pack_state \<Rightarrow> pack_state" where
  "cw_pack_float hpo f s = (if return_code s \<noteq> 0 then s else tryMove4 hpo 0xca f s)"

definition cw_pack_double :: "pack_overflow_handler option \<Rightarrow> u64 \<Rightarrow> pack_state \<Rightarrow> pack_state" where
  "cw_pack_double hpo d s = (if return_code s \<noteq> 0 then s else tryMove8 hpo 0xcb d s)"

definition cw_pack_nil :: "pack_overflow_handler option \<Rightarrow> pack_state \<Rightarrow> pack_state" where
  "cw_pack_nil hpo s = (if return_code s \<noteq> 0 then s else tryMove0 hpo 0xc0 s)"

definition cw_pack_true :: "pack_overflow_handler option \<Rightarrow> pack_state \<Rightarrow> pack_state" where
  "cw_pack_true hpo s = (if return_code s \<noteq> 0 then s else tryMove0 hpo 0xc3 s)"

definition cw_pack_false :: "pack_overflow_handler option \<Rightarrow> pack_state \<Rightarrow> pack_state" where
  "cw_pack_false hpo s = (if return_code s \<noteq> 0 then s else tryMove0 hpo 0xc2 s)"

definition cw_pack_boolean :: "pack_overflow_handler option \<Rightarrow> bool \<Rightarrow> pack_state \<Rightarrow> pack_state" where
  "cw_pack_boolean hpo b s =
     (if return_code s \<noteq> 0 then s else tryMove0 hpo (if b then 0xc3 else 0xc2) s)"

definition cw_pack_array_size :: "pack_overflow_handler option \<Rightarrow> u32 \<Rightarrow> pack_state \<Rightarrow> pack_state" where
  "cw_pack_array_size hpo n s =
     (if return_code s \<noteq> 0 then s
      else if n < 16 then tryMove0 hpo (ucast (0x90 OR n)) s
      else if n < 65536 then tryMove2 hpo 0xdc n s
      else tryMove4 hpo 0xdd n s)"

definition cw_pack_map_size :: "pack_overflow_handler option \<Rightarrow> u32 \<Rightarrow> pack_state \<Rightarrow> pack_state" where
  "cw_pack_map_size hpo n s =
     (if return_code s \<noteq> 0 then s
      else if n < 16 then tryMove0 hpo (ucast (0x80 OR n)) s
      else if n < 65536 then tryMove2 hpo 0xde n s
      else tryMove4 hpo 0xdf n s)"

definition cw_pack_str ::
  "pack_overflow_handler option \<Rightarrow> addr \<Rightarrow> u32 \<Rightarrow> pack_state \<Rightarrow> pack_state" where
  "cw_pack_str hpo v l s =
     (if return_code s \<noteq> 0 then s
      else if l < 32 then
        with_space hpo (l + 1) (\<lambda>p m. memcpy (m(p := ucast (0xa0 + l))) (p + 1) v (unat l)) s
      else if l < 256 \<and> \<not> be_compatible s then
        with_space hpo (l + 2) (\<lambda>p m. memcpy (m(p := 0xd9, p + 1 := ucast l)) (p + 2) v (unat l)) s
      else if l < 65536 then
        with_space hpo (l + 3)
          (\<lambda>p m. memcpy (cw_store16 (m(p := 0xda)) (p + 1) l) (p + 3) v (unat l)) s
      else
        with_space hpo (l + 5)
          (\<lambda>p m. memcpy (cw_store32 (m(p := 0xdb)) (p + 1) l) (p + 5) v (unat l)) s)"

definition cw_pack_bin ::
  "pack_overflow_handler option \<Rightarrow> addr \<Rightarrow> u32 \<Rightarrow> pack_state \<Rightarrow> pack_state" where
  "cw_pack_bin hpo v l s =
     (if return_code s \<noteq> 0 then s
      else if be_compatible s then cw_pack_str hpo v l s
      else if l < 256 then
        with_space hpo (l + 2) (\<lambda>p m. memcpy (m(p := 0xc4, p + 1 := ucast l)) (p + 2) v (unat l)) s
      else if l < 65536 then
        with_space hpo (l + 3)
          (\<lambda>p m. memcpy (cw_store16 (m(p := 0xc5)) (p + 1) l) (p + 3) v (unat l)) s
      else
        with_space hpo (l + 5)
          (\<lambda>p m. memcpy (cw_store32 (m(p := 0xc6)) (p + 1) l) (p + 5) v (unat l)) s)"

definition cw_pack_ext ::
  "pack_overflow_handler option \<Rightarrow> u8 \<Rightarrow> addr \<Rightarrow> u32 \<Rightarrow> pack_state \<Rightarrow> pack_state" where
  "cw_pack_ext hpo ty v l s =
     (if return_code s \<noteq> 0 then s
      else if be_compatible s then s\<lparr>return_code := CWP_RC_ILLEGAL_CALL\<rparr>
      else if l = 1 then
        with_space hpo 3 (\<lambda>p m. let m' = m(p := 0xd4, p + 1 := ty) in m'(p + 2 := m' v)) s
      else if l = 2 then
        with_space hpo 4 (\<lambda>p m. memcpy (m(p := 0xd5, p + 1 := ty)) (p + 2) v (unat l)) s
      else if l = 4 then
        with_space hpo 6 (\<lambda>p m. memcpy (m(p := 0xd6, p + 1 := ty)) (p + 2) v (unat l)) s
      else if l = 8 then
        with_space hpo 10 (\<lambda>p m. memcpy (m(p := 0xd7, p + 1 := ty)) (p + 2) v (unat l)) s
      else if l = 16 then
        with_space hpo 18 (\<lambda>p m. memcpy (m(p := 0xd8, p + 1 := ty)) (p + 2) v (unat l)) s
      else if l < 256 then
        with_space hpo (l + 3)
          (\<lambda>p m. memcpy (m(p := 0xc7, p + 1 := ucast l, p + 2 := ty)) (p + 3) v (unat l)) s
      else if l < 65536 then
        with_space hpo (l + 4)
          (\<lambda>p m. memcpy ((cw_store16 (m(p := 0xc8)) (p + 1) l)(p + 3 := ty)) (p + 4) v (unat l)) s
      else
        with_space hpo (l + 6)
          (\<lambda>p m. memcpy ((cw_store32 (m(p := 0xc9)) (p + 1) l)(p + 5 := ty)) (p + 6) v (unat l)) s)"

definition cw_pack_insert ::
  "pack_overflow_handler option \<Rightarrow> addr \<Rightarrow> u32 \<Rightarrow> pack_state \<Rightarrow> pack_state" where
  "cw_pack_insert hpo v l = with_space hpo l (\<lambda>p m. memcpy m p v (unat l))"

section \<open>The byte-order macros agree\<close>

lemma le_swap16 [byte_simps]:
  fixes d :: "'a::len word"
  assumes "16 \<le> LENGTH('a)"
  shows "ucast (ucast ((drop_bit 8 d AND 0xff) OR push_bit 8 d) :: u16) = (ucast (drop_bit 8 d) :: u8)"
    and "ucast (drop_bit 8 (ucast ((drop_bit 8 d AND 0xff) OR push_bit 8 d) :: u16)) = (ucast d :: u8)"
  using assms by (auto intro!: byte_eqI simp: bit_simps)

text \<open>On a 16-bit, 32-bit and 64-bit run, the little-endian store writes network order.\<close>

lemma cw_store16_write:
  fixes d :: "'a::len word"
  assumes "16 \<le> LENGTH('a)"
  shows "cw_store16 m p d = mem_write m p (be16 d)"
  using assms
  by (simp add: cw_store16_def store16_def be16_def mem_write_Cons byte_simps)

lemma cw_store32_write:
  fixes d :: "'a::len word"
  assumes "32 \<le> LENGTH('a)"
  shows "cw_store32 m p d = mem_write m p (be32 d)"
proof -
  let ?x = "ucast d :: u32"
  let ?s = "drop_bit 24 ?x OR drop_bit 8 (?x AND 0x00ff0000) OR push_bit 8 (?x AND 0x0000ff00) OR
    push_bit 24 ?x"
  have "ucast ?s = (ucast (drop_bit 24 d) :: u8)"
    and "ucast (drop_bit 8 ?s) = (ucast (drop_bit 16 d) :: u8)"
    and "ucast (drop_bit 16 ?s) = (ucast (drop_bit 8 d) :: u8)"
    and "ucast (drop_bit 24 ?s) = (ucast d :: u8)"
    using assms by (auto intro!: byte_eqI simp: bit_simps)
  then show ?thesis
    by (simp add: cw_store32_def Let_def store32_def be32_def mem_write_Cons add.assoc)
qed

lemma cw_store64_write: "cw_store64 m p x = mem_write m p (be64 x)"
proof -
  let ?s = "((drop_bit 40 x OR push_bit 24 x) AND 0x0000ff000000ff00) OR
      ((drop_bit 24 x OR push_bit 40 x) AND 0x00ff000000ff0000) OR
      drop_bit 8 (x AND 0x000000ff00000000) OR
      push_bit 8 (x AND 0x00000000ff000000) OR
      drop_bit 56 x OR push_bit 56 x"
  have "ucast ?s = (ucast (drop_bit 56 x) :: u8)"
    and "ucast (drop_bit 8 ?s) = (ucast (drop_bit 48 x) :: u8)"
    and "ucast (drop_bit 16 ?s) = (ucast (drop_bit 40 x) :: u8)"
    and "ucast (drop_bit 24 ?s) = (ucast (drop_bit 32 x) :: u8)"
    and "ucast (drop_bit 32 ?s) = (ucast (drop_bit 24 x) :: u8)"
    and "ucast (drop_bit 40 ?s) = (ucast (drop_bit 16 x) :: u8)"
    and "ucast (drop_bit 48 ?s) = (ucast (drop_bit 8 x) :: u8)"
    and "ucast (drop_bit 56 ?s) = (ucast x :: u8)"
    by (rule byte_eqI; simp add: bit_simps)+
  then show ?thesis
    by (simp add: cw_store64_def store64_def be64_def mem_write_Cons add.assoc)
qed

lemmas cw_store_write = cw_store16_write cw_store32_write cw_store64_write

lemma cw_store_any_write:
  "cw_store16_any m p d = mem_write m p (be16 d)"
  "cw_store32_any m p d = mem_write m p (be32 d)"
  "cw_store64_any m p z = mem_write m p (be64 z)"
  by (simp_all add: cw_store16_any_def cw_store32_any_def cw_store64_any_def be16_def be32_def
      be64_def mem_write_Cons add.assoc)

text \<open>A load returns the word whose network-order bytes are in memory.\<close>

lemma be16_load: "be16 (cw_load16 m p) = bytes_at m p 2"
  unfolding be16_def cw_load16_def load16_def Let_def bytes_at_small list.inject
  by (intro conjI byte_eqI refl; simp add: bit_simps)

lemma be32_load: "be32 (cw_load32 m p) = bytes_at m p 4"
  unfolding be32_def cw_load32_def load32_def Let_def bytes_at_small list.inject
  by (intro conjI byte_eqI refl; simp add: bit_simps)

lemma be64_load: "be64 (cw_load64 m p) = bytes_at m p 8"
  unfolding be64_def cw_load64_def load64_def Let_def bytes_at_small list.inject
  by (intro conjI byte_eqI refl; simp add: bit_simps)

lemmas be_load = be16_load be32_load be64_load

lemma be_load_any:
  "be16 (cw_load16_any m p) = bytes_at m p 2"
  "be32 (cw_load32_any m p) = bytes_at m p 4"
  "be64 (cw_load64_any m p) = bytes_at m p 8"
  unfolding be16_def be32_def be64_def cw_load16_any_def cw_load32_any_def cw_load64_any_def
    bytes_at_small list.inject
  by (intro conjI byte_eqI refl; simp add: bit_simps)+

lemma cw_load_eqI:
  "bytes_at m p 2 = be16 a \<Longrightarrow> cw_load16 m p = a"
  "bytes_at m p 4 = be32 b \<Longrightarrow> cw_load32 m p = b"
  "bytes_at m p 8 = be64 c \<Longrightarrow> cw_load64 m p = c"
  by (rule be16_inject be32_inject be64_inject, simp add: be_load)+

end
