(* ===== verification/CWUnpack.thy ===== *)
theory CWUnpack
  imports CWPack
begin

text \<open>
  The unpacking half of CWPack (\<^verbatim>\<open>src/src/cwpack/cwpack.c\<close>, \<open>cw_unpack_next\<close> and
  \<open>cw_skip_items\<close>, with the macros of cwpack\_defines.h they expand). The C union \<open>as\<close> of an
  item is modelled with its layout on the target: eight bytes, kept as two 32-bit halves, so
  that a member read after another one was written has the value the overlay gives. The
  underflow handler is the parameter \<open>huu\<close>.
\<close>

section \<open>Items and the unpacking context\<close>

definition CWP_ITEM_NIL :: int where "CWP_ITEM_NIL = 300"
definition CWP_ITEM_BOOLEAN :: int where "CWP_ITEM_BOOLEAN = 301"
definition CWP_ITEM_POSITIVE_INTEGER :: int where "CWP_ITEM_POSITIVE_INTEGER = 302"
definition CWP_ITEM_NEGATIVE_INTEGER :: int where "CWP_ITEM_NEGATIVE_INTEGER = 303"
definition CWP_ITEM_FLOAT :: int where "CWP_ITEM_FLOAT = 304"
definition CWP_ITEM_DOUBLE :: int where "CWP_ITEM_DOUBLE = 305"
definition CWP_ITEM_STR :: int where "CWP_ITEM_STR = 306"
definition CWP_ITEM_BIN :: int where "CWP_ITEM_BIN = 307"
definition CWP_ITEM_ARRAY :: int where "CWP_ITEM_ARRAY = 308"
definition CWP_ITEM_MAP :: int where "CWP_ITEM_MAP = 309"
definition CWP_ITEM_EXT :: int where "CWP_ITEM_EXT = 310"
definition CWP_NOT_AN_ITEM :: int where "CWP_NOT_AN_ITEM = 999"

lemmas item_defs = CWP_ITEM_NIL_def CWP_ITEM_BOOLEAN_def CWP_ITEM_POSITIVE_INTEGER_def
  CWP_ITEM_NEGATIVE_INTEGER_def CWP_ITEM_FLOAT_def CWP_ITEM_DOUBLE_def CWP_ITEM_STR_def
  CWP_ITEM_BIN_def CWP_ITEM_ARRAY_def CWP_ITEM_MAP_def CWP_ITEM_EXT_def CWP_NOT_AN_ITEM_def

text \<open>
  The union: \<open>boolean\<close> is byte 0, \<open>real\<close> and \<open>array.size\<close>, \<open>map.size\<close> and the blob pointer
  \<open>start\<close> are the low half, the blob \<open>length\<close> is the high half, \<open>u64\<close>, \<open>i64\<close> and
  \<open>long_real\<close> are the whole.
\<close>

record as_union =
  as_lo :: u32
  as_hi :: u32

definition as_u64 :: "as_union \<Rightarrow> u64" where
  "as_u64 a = push_bit 32 (ucast (as_hi a)) OR ucast (as_lo a)"

definition as_boolean :: "as_union \<Rightarrow> bool" where
  "as_boolean a \<longleftrightarrow> as_lo a AND 0xff \<noteq> 0"

definition set_u64 :: "u64 \<Rightarrow> as_union \<Rightarrow> as_union" where
  "set_u64 v a = \<lparr>as_lo = ucast v, as_hi = ucast (drop_bit 32 v)\<rparr>"

definition set_boolean :: "bool \<Rightarrow> as_union \<Rightarrow> as_union" where
  "set_boolean b a = a\<lparr>as_lo := (as_lo a AND 0xffffff00) OR (if b then 1 else 0)\<rparr>"

definition set_size :: "u32 \<Rightarrow> as_union \<Rightarrow> as_union" where
  "set_size v a = a\<lparr>as_lo := v\<rparr>"

definition set_length :: "u32 \<Rightarrow> as_union \<Rightarrow> as_union" where
  "set_length v a = a\<lparr>as_hi := v\<rparr>"

record cw_unpack_context =
  it_type :: int
  it_as :: as_union
  uc_start :: addr
  uc_current :: addr
  uc_end :: addr
  uc_return_code :: int
  uc_err_no :: int

record unpack_state = cw_unpack_context +
  umem :: mem

type_synonym unpack_underflow_handler = "unpack_state \<Rightarrow> u32 \<Rightarrow> int \<times> unpack_state"

text \<open>The initialiser leaves \<open>item\<close> as it finds it on the stack: \<open>ty\<close> and \<open>a\<close>.\<close>

definition cw_unpack_context_init ::
  "int \<Rightarrow> as_union \<Rightarrow> mem \<Rightarrow> addr \<Rightarrow> u32 \<Rightarrow> int \<times> unpack_state" where
  "cw_unpack_context_init ty a m data len =
     (test_byte_order,
      \<lparr>it_type = ty, it_as = a, uc_start = data, uc_current = data, uc_end = data + len,
       uc_return_code = test_byte_order, uc_err_no = 0, umem = m\<rparr>)"

definition UNPACK_ERROR :: "int \<Rightarrow> unpack_state \<Rightarrow> unpack_state" where
  "UNPACK_ERROR e s = s\<lparr>it_type := CWP_NOT_AN_ITEM, uc_return_code := e\<rparr>"

text \<open>
  The macro argument \<open>more\<close> is an expression that is evaluated again after the handler ran, so
  it is a function of the context.
\<close>

definition cw_unpack_assert_space ::
  "unpack_underflow_handler option \<Rightarrow> int \<Rightarrow> (unpack_state \<Rightarrow> u32) \<Rightarrow> unpack_state \<Rightarrow>
   unpack_state + (addr \<times> unpack_state)" where
  "cw_unpack_assert_space huu buffer_end_return_code n s =
     (let p = uc_current s; nyp = p + n s in
      if nyp > uc_end s then
        (case huu of
           None \<Rightarrow> Inl (UNPACK_ERROR buffer_end_return_code s)
         | Some h \<Rightarrow>
             (let (rc, s') = h s (n s) in
              if rc \<noteq> CWP_RC_OK then
                (if rc \<noteq> CWP_RC_END_OF_INPUT then Inl (UNPACK_ERROR rc s')
                 else Inl (UNPACK_ERROR buffer_end_return_code s'))
              else Inr (uc_current s', s'\<lparr>uc_current := uc_current s' + n s'\<rparr>)))
      else Inr (p, s\<lparr>uc_current := nyp\<rparr>))"

text \<open>Continue with the pointer to \<open>n\<close> readable bytes, or return early.\<close>

definition with_bytes ::
  "unpack_underflow_handler option \<Rightarrow> int \<Rightarrow> (unpack_state \<Rightarrow> u32) \<Rightarrow>
   (addr \<Rightarrow> unpack_state \<Rightarrow> unpack_state) \<Rightarrow> unpack_state \<Rightarrow> unpack_state" where
  "with_bytes huu rc n k s =
     (case cw_unpack_assert_space huu rc n s of Inl s' \<Rightarrow> s' | Inr (p, s') \<Rightarrow> k p s')"

definition cw_unpack_assert_blob ::
  "unpack_underflow_handler option \<Rightarrow> unpack_state \<Rightarrow> unpack_state" where
  "cw_unpack_assert_blob huu s =
     with_bytes huu CWP_RC_BUFFER_UNDERFLOW (\<lambda>s. as_hi (it_as s))
       (\<lambda>p s. s\<lparr>it_as := (it_as s)\<lparr>as_lo := p\<rparr>\<rparr>) s"

definition getDDItem :: "int \<Rightarrow> (as_union \<Rightarrow> as_union) \<Rightarrow> unpack_state \<Rightarrow> unpack_state" where
  "getDDItem typ f s = s\<lparr>it_type := typ, it_as := f (it_as s)\<rparr>"

text \<open>\<open>k\<close> is the code that follows the macro in its \<open>case\<close>.\<close>

definition getDDItem1 ::
  "unpack_underflow_handler option \<Rightarrow> int \<Rightarrow> (u8 \<Rightarrow> as_union \<Rightarrow> as_union) \<Rightarrow>
   (unpack_state \<Rightarrow> unpack_state) \<Rightarrow> unpack_state \<Rightarrow> unpack_state" where
  "getDDItem1 huu typ f k s =
     with_bytes huu CWP_RC_BUFFER_UNDERFLOW (\<lambda>_. 1)
       (\<lambda>p s. k (s\<lparr>it_as := f (umem s p) (it_as s)\<rparr>)) (s\<lparr>it_type := typ\<rparr>)"

definition getDDItem2 ::
  "unpack_underflow_handler option \<Rightarrow> int \<Rightarrow> (u16 \<Rightarrow> as_union \<Rightarrow> as_union) \<Rightarrow>
   (unpack_state \<Rightarrow> unpack_state) \<Rightarrow> unpack_state \<Rightarrow> unpack_state" where
  "getDDItem2 huu typ f k s =
     with_bytes huu CWP_RC_BUFFER_UNDERFLOW (\<lambda>_. 2)
       (\<lambda>p s. k (s\<lparr>it_as := f (cw_load16 (umem s) p) (it_as s)\<rparr>)) (s\<lparr>it_type := typ\<rparr>)"

definition getDDItem4 ::
  "unpack_underflow_handler option \<Rightarrow> int \<Rightarrow> (u32 \<Rightarrow> as_union \<Rightarrow> as_union) \<Rightarrow>
   (unpack_state \<Rightarrow> unpack_state) \<Rightarrow> unpack_state \<Rightarrow> unpack_state" where
  "getDDItem4 huu typ f k s =
     with_bytes huu CWP_RC_BUFFER_UNDERFLOW (\<lambda>_. 4)
       (\<lambda>p s. k (s\<lparr>it_as := f (cw_load32 (umem s) p) (it_as s)\<rparr>)) (s\<lparr>it_type := typ\<rparr>)"

definition getDDItem8 ::
  "unpack_underflow_handler option \<Rightarrow> int \<Rightarrow> (unpack_state \<Rightarrow> unpack_state) \<Rightarrow>
   unpack_state \<Rightarrow> unpack_state" where
  "getDDItem8 huu typ k s =
     with_bytes huu CWP_RC_BUFFER_UNDERFLOW (\<lambda>_. 8)
       (\<lambda>p s. k (s\<lparr>it_as := set_u64 (cw_load64 (umem s) p) (it_as s)\<rparr>)) (s\<lparr>it_type := typ\<rparr>)"

text \<open>The extension type byte, read as \<open>int8_t\<close> into \<open>item.type\<close>.\<close>

definition get_ext_type ::
  "unpack_underflow_handler option \<Rightarrow> (unpack_state \<Rightarrow> unpack_state) \<Rightarrow> unpack_state \<Rightarrow> unpack_state" where
  "get_ext_type huu k s =
     with_bytes huu CWP_RC_BUFFER_UNDERFLOW (\<lambda>_. 1) (\<lambda>p s. k (s\<lparr>it_type := sint (umem s p)\<rparr>)) s"

definition getDDItemFix ::
  "unpack_underflow_handler option \<Rightarrow> u32 \<Rightarrow> unpack_state \<Rightarrow> unpack_state" where
  "getDDItemFix huu len s =
     get_ext_type huu
       (\<lambda>s. cw_unpack_assert_blob huu (s\<lparr>it_as := set_length len (it_as s)\<rparr>)) s"

text \<open>A signed integer that turns out not negative is reported as positive.\<close>

definition fix_sign :: "unpack_state \<Rightarrow> unpack_state" where
  "fix_sign s = (if sint (as_u64 (it_as s)) \<ge> 0
                 then s\<lparr>it_type := CWP_ITEM_POSITIVE_INTEGER\<rparr> else s)"

section \<open>Unpacking one item\<close>

definition cw_unpack_switch ::
  "unpack_underflow_handler option \<Rightarrow> u8 \<Rightarrow> unpack_state \<Rightarrow> unpack_state" where
  "cw_unpack_switch huu c s =
    (if c \<le> 0x7f then getDDItem CWP_ITEM_POSITIVE_INTEGER (set_u64 (ucast c)) s
     else if c \<le> 0x8f then getDDItem CWP_ITEM_MAP (set_size (ucast c AND 0x0f)) s
     else if c \<le> 0x9f then getDDItem CWP_ITEM_ARRAY (set_size (ucast c AND 0x0f)) s
     else if c \<le> 0xbf then
       cw_unpack_assert_blob huu (getDDItem CWP_ITEM_STR (set_length (ucast c AND 0x1f)) s)
     else if c = 0xc0 then s\<lparr>it_type := CWP_ITEM_NIL\<rparr>
     else if c = 0xc2 then getDDItem CWP_ITEM_BOOLEAN (set_boolean False) s
     else if c = 0xc3 then getDDItem CWP_ITEM_BOOLEAN (set_boolean True) s
     else if c = 0xc4 then
       getDDItem1 huu CWP_ITEM_BIN (\<lambda>v. set_length (ucast v)) (cw_unpack_assert_blob huu) s
     else if c = 0xc5 then
       getDDItem2 huu CWP_ITEM_BIN (\<lambda>v. set_length (ucast v)) (cw_unpack_assert_blob huu) s
     else if c = 0xc6 then
       getDDItem4 huu CWP_ITEM_BIN set_length (cw_unpack_assert_blob huu) s
     else if c = 0xc7 then
       getDDItem1 huu CWP_ITEM_EXT (\<lambda>v. set_length (ucast v))
         (get_ext_type huu (cw_unpack_assert_blob huu)) s
     else if c = 0xc8 then
       getDDItem2 huu CWP_ITEM_EXT (\<lambda>v. set_length (ucast v))
         (get_ext_type huu (cw_unpack_assert_blob huu)) s
     else if c = 0xc9 then
       getDDItem4 huu CWP_ITEM_EXT set_length (get_ext_type huu (cw_unpack_assert_blob huu)) s
     else if c = 0xca then getDDItem4 huu CWP_ITEM_FLOAT set_size (\<lambda>s. s) s
     else if c = 0xcb then getDDItem8 huu CWP_ITEM_DOUBLE (\<lambda>s. s) s
     else if c = 0xcc then
       getDDItem1 huu CWP_ITEM_POSITIVE_INTEGER (\<lambda>v. set_u64 (ucast v)) (\<lambda>s. s) s
     else if c = 0xcd then
       getDDItem2 huu CWP_ITEM_POSITIVE_INTEGER (\<lambda>v. set_u64 (ucast v)) (\<lambda>s. s) s
     else if c = 0xce then
       getDDItem4 huu CWP_ITEM_POSITIVE_INTEGER (\<lambda>v. set_u64 (ucast v)) (\<lambda>s. s) s
     else if c = 0xcf then getDDItem8 huu CWP_ITEM_POSITIVE_INTEGER (\<lambda>s. s) s
     else if c = 0xd0 then
       getDDItem1 huu CWP_ITEM_NEGATIVE_INTEGER (\<lambda>v. set_u64 (scast v)) fix_sign s
     else if c = 0xd1 then
       getDDItem2 huu CWP_ITEM_NEGATIVE_INTEGER (\<lambda>v. set_u64 (scast v)) fix_sign s
     else if c = 0xd2 then
       getDDItem4 huu CWP_ITEM_NEGATIVE_INTEGER (\<lambda>v. set_u64 (scast v)) fix_sign s
     else if c = 0xd3 then getDDItem8 huu CWP_ITEM_NEGATIVE_INTEGER fix_sign s
     else if c = 0xd4 then getDDItemFix huu 1 s
     else if c = 0xd5 then getDDItemFix huu 2 s
     else if c = 0xd6 then getDDItemFix huu 4 s
     else if c = 0xd7 then getDDItemFix huu 8 s
     else if c = 0xd8 then getDDItemFix huu 16 s
     else if c = 0xd9 then
       getDDItem1 huu CWP_ITEM_STR (\<lambda>v. set_length (ucast v)) (cw_unpack_assert_blob huu) s
     else if c = 0xda then
       getDDItem2 huu CWP_ITEM_STR (\<lambda>v. set_length (ucast v)) (cw_unpack_assert_blob huu) s
     else if c = 0xdb then
       getDDItem4 huu CWP_ITEM_STR set_length (cw_unpack_assert_blob huu) s
     else if c = 0xdc then getDDItem2 huu CWP_ITEM_ARRAY (\<lambda>v. set_size (ucast v)) (\<lambda>s. s) s
     else if c = 0xdd then getDDItem4 huu CWP_ITEM_ARRAY set_size (\<lambda>s. s) s
     else if c = 0xde then getDDItem2 huu CWP_ITEM_MAP (\<lambda>v. set_size (ucast v)) (\<lambda>s. s) s
     else if c = 0xdf then getDDItem4 huu CWP_ITEM_MAP set_size (\<lambda>s. s) s
     else if c \<ge> 0xe0 then getDDItem CWP_ITEM_NEGATIVE_INTEGER (set_u64 (scast c)) s
     else UNPACK_ERROR CWP_RC_MALFORMED_INPUT s)"

definition cw_unpack_next ::
  "unpack_underflow_handler option \<Rightarrow> unpack_state \<Rightarrow> unpack_state" where
  "cw_unpack_next huu s =
     (if uc_return_code s \<noteq> 0 then s
      else with_bytes huu CWP_RC_END_OF_INPUT (\<lambda>_. 1) (\<lambda>p s. cw_unpack_switch huu (umem s p) s) s)"

section \<open>Skipping items\<close>

text \<open>
  One round of the loop of \<open>cw_skip_items\<close> after the tag byte \<open>c\<close>: \<open>Inl\<close> is an early return,
  \<open>Inr (d, s)\<close> the \<open>break\<close>, with \<open>d\<close> added to \<open>item_count\<close>.
\<close>

definition cw_skip_bytes ::
  "unpack_underflow_handler option \<Rightarrow> u32 \<Rightarrow> unpack_state \<Rightarrow> unpack_state + (u32 \<times> unpack_state)" where
  "cw_skip_bytes huu n s =
     (case cw_unpack_assert_space huu CWP_RC_BUFFER_UNDERFLOW (\<lambda>_. n) s of
        Inl s' \<Rightarrow> Inl s' | Inr (p, s') \<Rightarrow> Inr (0, s'))"

text \<open>Read a count or length of \<open>n\<close> bytes with \<open>ld\<close> and go on with \<open>k\<close>.\<close>

definition skip_load ::
  "unpack_underflow_handler option \<Rightarrow> u32 \<Rightarrow> (mem \<Rightarrow> addr \<Rightarrow> u32) \<Rightarrow>
   (u32 \<Rightarrow> unpack_state \<Rightarrow> unpack_state + (u32 \<times> unpack_state)) \<Rightarrow>
   unpack_state \<Rightarrow> unpack_state + (u32 \<times> unpack_state)" where
  "skip_load huu n ld k s =
     (case cw_unpack_assert_space huu CWP_RC_BUFFER_UNDERFLOW (\<lambda>_. n) s of
        Inl s' \<Rightarrow> Inl s' | Inr (p, s') \<Rightarrow> k (ld (umem s') p) s')"

abbreviation (input) ld8 :: "mem \<Rightarrow> addr \<Rightarrow> u32" where "ld8 m p \<equiv> ucast (m p)"
abbreviation (input) ld16 :: "mem \<Rightarrow> addr \<Rightarrow> u32" where "ld16 m p \<equiv> ucast (cw_load16 m p)"

definition cw_skip_switch ::
  "unpack_underflow_handler option \<Rightarrow> u8 \<Rightarrow> unpack_state \<Rightarrow> unpack_state + (u32 \<times> unpack_state)" where
  "cw_skip_switch huu c s =
    (if c \<le> 0x7f \<or> c \<ge> 0xe0 \<or> c = 0xc0 \<or> c = 0xc2 \<or> c = 0xc3 then Inr (0, s)
     else if c = 0xcc \<or> c = 0xd0 then cw_skip_bytes huu 1 s
     else if c = 0xcd \<or> c = 0xd1 \<or> c = 0xd4 then cw_skip_bytes huu 2 s
     else if c = 0xd5 then cw_skip_bytes huu 3 s
     else if c = 0xca \<or> c = 0xce \<or> c = 0xd2 then cw_skip_bytes huu 4 s
     else if c = 0xd6 then cw_skip_bytes huu 5 s
     else if c = 0xcb \<or> c = 0xcf \<or> c = 0xd3 then cw_skip_bytes huu 8 s
     else if c = 0xd7 then cw_skip_bytes huu 9 s
     else if c = 0xd8 then cw_skip_bytes huu 17 s
     else if c \<ge> 0xa0 \<and> c \<le> 0xbf then cw_skip_bytes huu (ucast c AND 0x1f) s
     else if c = 0xd9 \<or> c = 0xc4 then skip_load huu 1 ld8 (cw_skip_bytes huu) s
     else if c = 0xda \<or> c = 0xc5 then skip_load huu 2 ld16 (cw_skip_bytes huu) s
     else if c = 0xdb \<or> c = 0xc6 then skip_load huu 4 cw_load32 (cw_skip_bytes huu) s
     else if c \<ge> 0x80 \<and> c \<le> 0x8f then Inr (2 * (ucast c AND 15), s)
     else if c \<ge> 0x90 \<and> c \<le> 0x9f then Inr (ucast c AND 15, s)
     else if c = 0xdc then skip_load huu 2 ld16 (\<lambda>v s. Inr (v, s)) s
     else if c = 0xde then skip_load huu 2 ld16 (\<lambda>v s. Inr (2 * v, s)) s
     else if c = 0xdd then skip_load huu 4 cw_load32 (\<lambda>v s. Inr (v, s)) s
     else if c = 0xdf then skip_load huu 4 cw_load32 (\<lambda>v s. Inr (2 * v, s)) s
     else if c = 0xc7 then skip_load huu 1 ld8 (\<lambda>v. cw_skip_bytes huu (v + 1)) s
     else if c = 0xc8 then skip_load huu 2 ld16 (\<lambda>v. cw_skip_bytes huu (v + 1)) s
     else if c = 0xc9 then skip_load huu 4 cw_load32 (\<lambda>v. cw_skip_bytes huu (v + 1)) s
     else Inl (UNPACK_ERROR CWP_RC_MALFORMED_INPUT s))"

text \<open>
  The loop \<open>while (item_count-- > 0)\<close>. \<open>item_count\<close> is a 32-bit \<open>long\<close>; it is a signed word
  that grows by the element count of every container. The loop may run for ever when the
  address arithmetic wraps or a handler rewinds, so it is written with fuel: \<open>None\<close> is "has not
  returned within this many rounds".
\<close>

fun cw_skip_loop ::
  "unpack_underflow_handler option \<Rightarrow> nat \<Rightarrow> u32 \<Rightarrow> unpack_state \<Rightarrow> unpack_state option" where
  "cw_skip_loop huu 0 item_count s = None"
| "cw_skip_loop huu (Suc fuel) item_count s =
     (if \<not> sint item_count > 0 then Some s
      else
        (case cw_unpack_assert_space huu CWP_RC_END_OF_INPUT (\<lambda>_. 1) s of
           Inl s' \<Rightarrow> Some s'
         | Inr (p, s') \<Rightarrow>
             (case cw_skip_switch huu (umem s' p) s' of
                Inl s'' \<Rightarrow> Some s''
              | Inr (d, s'') \<Rightarrow> cw_skip_loop huu fuel (item_count - 1 + d) s'')))"

definition cw_skip_items ::
  "unpack_underflow_handler option \<Rightarrow> nat \<Rightarrow> u32 \<Rightarrow> unpack_state \<Rightarrow> unpack_state option" where
  "cw_skip_items huu fuel item_count s =
     (if uc_return_code s \<noteq> 0 then Some s else cw_skip_loop huu fuel item_count s)"

end
