(* ===== verification/CWFormat.thy ===== *)
theory CWFormat
  imports CWUnpack
begin

text \<open>
  The MessagePack wire format as an abstract specification of CWPack: items, their encoding as
  bytes, and the refinement of the packing routines to "append the encoding of the item or
  fail without writing". The encoding is the shortest one of the format; \<open>old\<close> is the
  context's \<open>be_compatible\<close> flag, which rules out the formats of the 2013 revision.
\<close>

datatype mp_item =
    MNil | MBool bool | MPos u64 | MNeg u64 | MFloat u32 | MDouble u64
  | MStr "u8 list" | MBin "u8 list" | MExt u8 "u8 list" | MArray u32 | MMap u32

definition enc_str :: "bool \<Rightarrow> u8 list \<Rightarrow> u8 list" where
  "enc_str old bs = (let l = length bs; w = of_nat l :: u32 in
     if l < 32 then ucast (0xa0 + w) # bs
     else if l < 256 \<and> \<not> old then [0xd9, ucast w] @ bs
     else if l < 65536 then (0xda # be16 w) @ bs
     else (0xdb # be32 w) @ bs)"

definition enc_bin :: "u8 list \<Rightarrow> u8 list" where
  "enc_bin bs = (let l = length bs; w = of_nat l :: u32 in
     if l < 256 then [0xc4, ucast w] @ bs
     else if l < 65536 then (0xc5 # be16 w) @ bs
     else (0xc6 # be32 w) @ bs)"

definition enc_ext :: "u8 \<Rightarrow> u8 list \<Rightarrow> u8 list" where
  "enc_ext t bs = (let l = length bs; w = of_nat l :: u32 in
     if l = 1 then [0xd4, t] @ bs
     else if l = 2 then [0xd5, t] @ bs
     else if l = 4 then [0xd6, t] @ bs
     else if l = 8 then [0xd7, t] @ bs
     else if l = 16 then [0xd8, t] @ bs
     else if l < 256 then [0xc7, ucast w, t] @ bs
     else if l < 65536 then (0xc8 # be16 w @ [t]) @ bs
     else (0xc9 # be32 w @ [t]) @ bs)"

definition enc_pos :: "u64 \<Rightarrow> u8 list" where
  "enc_pos i =
     (if i < 128 then [ucast i]
      else if i < 256 then [0xcc, ucast i]
      else if i < 0x10000 then 0xcd # be16 i
      else if i < 0x100000000 then 0xce # be32 i
      else 0xcf # be64 i)"

definition enc_neg :: "u64 \<Rightarrow> u8 list" where
  "enc_neg i =
     (if sint i \<ge> -32 then [ucast i]
      else if sint i \<ge> -128 then [0xd0, ucast i]
      else if sint i \<ge> -32768 then 0xd1 # be16 i
      else if sint i \<ge> -2147483648 then 0xd2 # be32 i
      else 0xd3 # be64 i)"

definition enc_array :: "u32 \<Rightarrow> u8 list" where
  "enc_array n = (if n < 16 then [ucast (0x90 OR n)]
                  else if n < 65536 then 0xdc # be16 n else 0xdd # be32 n)"

definition enc_map :: "u32 \<Rightarrow> u8 list" where
  "enc_map n = (if n < 16 then [ucast (0x80 OR n)]
                else if n < 65536 then 0xde # be16 n else 0xdf # be32 n)"

fun encode :: "bool \<Rightarrow> mp_item \<Rightarrow> u8 list" where
  "encode old MNil = [0xc0]"
| "encode old (MBool b) = [if b then 0xc3 else 0xc2]"
| "encode old (MPos i) = enc_pos i"
| "encode old (MNeg i) = enc_neg i"
| "encode old (MFloat f) = 0xca # be32 f"
| "encode old (MDouble d) = 0xcb # be64 d"
| "encode old (MStr bs) = enc_str old bs"
| "encode old (MBin bs) = (if old then enc_str old bs else enc_bin bs)"
| "encode old (MExt t bs) = enc_ext t bs"
| "encode old (MArray n) = enc_array n"
| "encode old (MMap n) = enc_map n"

section \<open>The abstract packer\<close>

definition emit :: "u8 list \<Rightarrow> pack_state \<Rightarrow> pack_state" where
  "emit bs s = s\<lparr>pc_current := pc_current s + of_nat (length bs),
                 pmem := mem_write (pmem s) (pc_current s) bs\<rparr>"

definition pack_bytes :: "u8 list \<Rightarrow> pack_state \<Rightarrow> pack_state" where
  "pack_bytes bs s =
     (if return_code s \<noteq> 0 then s
      else if unat (pc_current s) + length bs \<le> unat (pc_end s) then emit bs s
      else s\<lparr>return_code := CWP_RC_BUFFER_OVERFLOW\<rparr>)"

text \<open>The address of the first byte after \<open>n\<close> more bytes is representable.\<close>

definition no_wrap :: "nat \<Rightarrow> pack_state \<Rightarrow> bool" where
  "no_wrap n s \<longleftrightarrow> unat (pc_current s) + n < 2 ^ 32"

text \<open>A source region of \<open>l\<close> bytes at \<open>v\<close> lies outside the \<open>n\<close> bytes at \<open>p\<close>.\<close>

definition apart :: "addr \<Rightarrow> nat \<Rightarrow> addr \<Rightarrow> nat \<Rightarrow> bool" where
  "apart v l p n \<longleftrightarrow> (\<forall>i < l. n \<le> unat (v + of_nat i - p))"

section \<open>Refinement of the packing routines\<close>

lemma with_space_refines:
  assumes "return_code s = 0" "unat n = length bs" "no_wrap (length bs) s"
    "wr (pc_current s) (pmem s) = mem_write (pmem s) (pc_current s) bs"
  shows "with_space None n wr s = pack_bytes bs s"
proof -
  have n: "n = of_nat (length bs)" using assms(2) by (simp flip: assms(2))
  have "unat (pc_current s + n) = unat (pc_current s) + length bs"
    using assms(2,3) by (simp add: no_wrap_def unat_word_ariths)
  then have "(pc_current s + n > pc_end s) =
      (\<not> unat (pc_current s) + length bs \<le> unat (pc_end s))"
    by (simp add: word_less_nat_alt not_le)
  then show ?thesis
    using assms(1,4) n
    by (simp add: with_space_def cw_pack_reserve_space_def pack_bytes_def emit_def Let_def)
qed

lemma tryMove_refines:
  fixes d :: "'a::len word"
  assumes "return_code s = 0"
  shows "no_wrap 1 s \<Longrightarrow> tryMove0 None t s = pack_bytes [t] s"
    and "no_wrap 2 s \<Longrightarrow> tryMove1 None t u s = pack_bytes [t, u] s"
    and "no_wrap 3 s \<Longrightarrow> 16 \<le> LENGTH('a) \<Longrightarrow> tryMove2 None t d s = pack_bytes (t # be16 d) s"
    and "no_wrap 5 s \<Longrightarrow> 32 \<le> LENGTH('a) \<Longrightarrow> tryMove4 None t d s = pack_bytes (t # be32 d) s"
    and "no_wrap 9 s \<Longrightarrow> tryMove8 None t e s = pack_bytes (t # be64 e) s"
  unfolding tryMove0_def tryMove1_def tryMove2_def tryMove4_def tryMove8_def
  by (rule with_space_refines; simp add: assms no_wrap_def cw_store_write mem_write_Cons)+

lemma cw_pack_unsigned_refines:
  "no_wrap (length (enc_pos i)) s \<Longrightarrow> cw_pack_unsigned None i s = pack_bytes (enc_pos i) s"
  by (auto simp: cw_pack_unsigned_def enc_pos_def tryMove_refines no_wrap_def pack_bytes_def)

lemma pack_bytes_error [simp]: "return_code s \<noteq> 0 \<Longrightarrow> pack_bytes bs s = s"
  by (simp add: pack_bytes_def)

lemma neg_numeral_le_uint: "- numeral k \<le> uint w"
  using uint_ge_0 [of w] by (meson neg_numeral_le_zero order_trans)

lemma cw_pack_signed_refines:
  assumes "no_wrap (length (if sint i \<ge> 0 then enc_pos i else enc_neg i)) s"
  shows "cw_pack_signed None i s = pack_bytes (if sint i \<ge> 0 then enc_pos i else enc_neg i) s"
proof (cases "return_code s = 0")
  case True
  show ?thesis
  proof (cases "sint i \<ge> 0")
    case i: True
    then have si: "sint i = uint i" using uint_lt2p [of i] by (simp add: sint_cases split: if_splits)
    show ?thesis using True assms i si
      by (simp add: cw_pack_signed_def enc_pos_def tryMove_refines no_wrap_def word_less_def
          neg_numeral_le_uint split: if_split_asm)
  next
    case False
    then show ?thesis using True assms
      by (simp add: cw_pack_signed_def enc_neg_def tryMove_refines no_wrap_def split: if_split_asm)
  qed
qed (simp add: cw_pack_signed_def)

lemma cw_pack_simple_refines:
  "no_wrap 5 s \<Longrightarrow> cw_pack_float None f s = pack_bytes (0xca # be32 f) s"
  "no_wrap 9 s \<Longrightarrow> cw_pack_double None d s = pack_bytes (0xcb # be64 d) s"
  "no_wrap 1 s \<Longrightarrow> cw_pack_nil None s = pack_bytes [0xc0] s"
  "no_wrap 1 s \<Longrightarrow> cw_pack_true None s = pack_bytes [0xc3] s"
  "no_wrap 1 s \<Longrightarrow> cw_pack_false None s = pack_bytes [0xc2] s"
  "no_wrap 1 s \<Longrightarrow> cw_pack_boolean None b s = pack_bytes [if b then 0xc3 else 0xc2] s"
  "no_wrap (length (enc_array n)) s \<Longrightarrow> cw_pack_array_size None n s = pack_bytes (enc_array n) s"
  "no_wrap (length (enc_map n)) s \<Longrightarrow> cw_pack_map_size None n s = pack_bytes (enc_map n) s"
  by (auto simp: cw_pack_float_def cw_pack_double_def cw_pack_nil_def cw_pack_true_def
      cw_pack_false_def cw_pack_boolean_def cw_pack_array_size_def cw_pack_map_size_def
      enc_array_def enc_map_def tryMove_refines)

text \<open>Blobs: the header is written first, then the bytes are copied behind it.\<close>

lemma memcpy_header:
  assumes "bytes_at m v l = bs" "apart v l p (length h)" "length h + l \<le> 2 ^ 32"
  shows "memcpy (mem_write m p h) (p + of_nat (length h)) v l = mem_write m p (h @ bs)"
proof -
  have "bytes_at (mem_write m p h) v l = bs"
    using assms(1,2) by (simp add: bytes_at_disjoint apart_def)
  moreover have "length bs = l" using assms(1) by auto
  ultimately show ?thesis using assms(3) by (simp add: memcpy_def mem_write_append)
qed

lemma apart_mono: "apart v l p n \<Longrightarrow> k \<le> n \<Longrightarrow> apart v l p k"
  by (auto simp: apart_def intro: order_trans)

lemma with_space_blob:
  assumes "return_code s = 0" "bytes_at (pmem s) v (unat l) = bs"
    "apart v (unat l) (pc_current s) (length (h @ bs))" "no_wrap (length (h @ bs)) s"
    "k = of_nat (length h)"
    "\<And>p m. wr p m = memcpy (mem_write m p h) (p + k) v (unat l)"
  shows "with_space None (l + k) wr s = pack_bytes (h @ bs) s"
proof (rule with_space_refines)
  have bs: "length bs = unat l" using assms(2) by auto
  have len: "length h + unat l < 2 ^ 32" using assms(4) bs by (simp add: no_wrap_def)
  show "unat (l + k) = length (h @ bs)"
    using bs len by (simp add: assms(5) unat_word_ariths unat_of_nat)
  show "wr (pc_current s) (pmem s) = mem_write (pmem s) (pc_current s) (h @ bs)"
    using assms(2,3) len by (simp add: assms(5,6) memcpy_header apart_mono)
qed (use assms in simp_all)

lemma cw_pack_str_refines:
  assumes "bytes_at (pmem s) v (unat l) = bs" "no_wrap (length (enc_str (be_compatible s) bs)) s"
    "apart v (unat l) (pc_current s) (length (enc_str (be_compatible s) bs))"
  shows "cw_pack_str None v l s = pack_bytes (enc_str (be_compatible s) bs) s"
proof (cases "return_code s = 0")
  case True
  have bs: "length bs = unat l" using assms(1) by auto
  then have l: "(of_nat (length bs) :: u32) = l" by simp
  note ws = with_space_blob [OF True assms(1)]
  show ?thesis
    using assms(2,3) True bs l
    by (auto simp: cw_pack_str_def enc_str_def Let_def word_less_nat_alt mem_write_Cons cw_store_write
       intro!: ws [where h = "[ucast (0xa0 + l)]", simplified]
         ws [where h = "[0xd9, ucast l]", simplified]
         ws [where h = "0xda # be16 l", simplified] ws [where h = "0xdb # be32 l", simplified])
qed (simp add: cw_pack_str_def)

lemma cw_pack_bin_refines:
  assumes "bytes_at (pmem s) v (unat l) = bs"
    "no_wrap (length (encode (be_compatible s) (MBin bs))) s"
    "apart v (unat l) (pc_current s) (length (encode (be_compatible s) (MBin bs)))"
  shows "cw_pack_bin None v l s = pack_bytes (encode (be_compatible s) (MBin bs)) s"
proof (cases "return_code s = 0 \<and> \<not> be_compatible s")
  case True
  have bs: "length bs = unat l" using assms(1) by auto
  then have l: "(of_nat (length bs) :: u32) = l" by simp
  note ws = with_space_blob [OF conjunct1 [OF True] assms(1)]
  show ?thesis
    using assms(2,3) True bs l
    by (auto simp: cw_pack_bin_def enc_bin_def Let_def word_less_nat_alt mem_write_Cons cw_store_write
       intro!: ws [where h = "[0xc4, ucast l]", simplified]
         ws [where h = "0xc5 # be16 l", simplified] ws [where h = "0xc6 # be32 l", simplified])
qed (use assms in \<open>auto simp: cw_pack_bin_def cw_pack_str_refines\<close>)

lemma cw_pack_ext_refines:
  assumes "bytes_at (pmem s) v (unat l) = bs" "no_wrap (length (enc_ext t bs)) s"
    "apart v (unat l) (pc_current s) (length (enc_ext t bs))" "\<not> be_compatible s"
  shows "cw_pack_ext None t v l s = pack_bytes (enc_ext t bs) s"
proof (cases "return_code s = 0")
  case True
  have bs: "length bs = unat l" using assms(1) by auto
  then have l: "(of_nat (length bs) :: u32) = l" by simp
  note ws = with_space_blob [OF True assms(1)]
  have num: "(l = 1) = (unat l = 1)" "(l = 2) = (unat l = 2)" "(l = 4) = (unat l = 4)"
    "(l = 8) = (unat l = 8)" "(l = 16) = (unat l = 16)"
    by (simp_all add: word_unat_eq_iff)
  have comm: "numeral k + p = p + numeral k" for k and p :: addr by (rule add.commute)
  show ?thesis
  proof (cases "l \<in> {1, 2, 4, 8, 16}")
    case fixext: True
    have e: "enc_ext t bs = [if l = 1 then 0xd4 else if l = 2 then 0xd5 else if l = 4 then 0xd6
        else if l = 8 then 0xd7 else 0xd8, t] @ bs"
      using fixext bs by (auto simp: enc_ext_def Let_def)
    have "cw_pack_ext None t v l s = with_space None (l + 2)
        (\<lambda>p m. memcpy (mem_write m p [if l = 1 then 0xd4 else if l = 2 then 0xd5
           else if l = 4 then 0xd6 else if l = 8 then 0xd7 else 0xd8, t]) (p + 2) v (unat l)) s"
      using fixext True assms(4)
      by (auto simp: cw_pack_ext_def mem_write_Cons memcpy_def bytes_at_Suc Let_def)
    also have "\<dots> = pack_bytes (enc_ext t bs) s"
      unfolding e by (rule ws) (use assms(2,3) e in simp_all)
    finally show ?thesis .
  next
    case False
    then show ?thesis
      using assms(2,3,4) True bs l
      by (auto simp: cw_pack_ext_def enc_ext_def Let_def num word_less_nat_alt mem_write_Cons
          cw_store_write mem_write_append [symmetric] mem_write_single comm
        intro!: ws [where h = "[0xc7, ucast l, t]", simplified]
          ws [where h = "0xc8 # be16 l @ [t]", simplified]
          ws [where h = "0xc9 # be32 l @ [t]", simplified])
  qed
qed (simp add: cw_pack_ext_def)

end
