(* ===== verification/CWRoundTrip.thy ===== *)
theory CWRoundTrip
  imports CWFormat
begin

text \<open>
  Unpacking against the wire format: \<open>cw_unpack_next\<close> positioned at the encoding of an item
  returns that item and stops right behind it, for every item and every encoding the packer
  produces; sequences of items by the locale of stream codecs.
\<close>

section \<open>What the context's item denotes\<close>

definition item_view :: "unpack_state \<Rightarrow> mp_item option" where
  "item_view s = (let ty = it_type s; a = it_as s; blob = bytes_at (umem s) (as_lo a) (unat (as_hi a)) in
     if ty = CWP_ITEM_NIL then Some MNil
     else if ty = CWP_ITEM_BOOLEAN then Some (MBool (as_boolean a))
     else if ty = CWP_ITEM_POSITIVE_INTEGER then Some (MPos (as_u64 a))
     else if ty = CWP_ITEM_NEGATIVE_INTEGER then Some (MNeg (as_u64 a))
     else if ty = CWP_ITEM_FLOAT then Some (MFloat (as_lo a))
     else if ty = CWP_ITEM_DOUBLE then Some (MDouble (as_u64 a))
     else if ty = CWP_ITEM_STR then Some (MStr blob)
     else if ty = CWP_ITEM_BIN then Some (MBin blob)
     else if ty = CWP_ITEM_ARRAY then Some (MArray (as_lo a))
     else if ty = CWP_ITEM_MAP then Some (MMap (as_lo a))
     else if -128 \<le> ty \<and> ty \<le> 127 then Some (MExt (word_of_int ty) blob)
     else None)"

text \<open>The context has \<open>bs\<close> as its next input bytes.\<close>

definition at_input :: "u8 list \<Rightarrow> unpack_state \<Rightarrow> bool" where
  "at_input bs s \<longleftrightarrow> uc_return_code s = 0 \<and> bytes_at (umem s) (uc_current s) (length bs) = bs \<and>
     unat (uc_current s) + length bs \<le> unat (uc_end s)"

text \<open>The outcome of a successful unpack of \<open>x\<close> that consumed \<open>n\<close> bytes.\<close>

definition unpacked :: "mp_item \<Rightarrow> nat \<Rightarrow> unpack_state \<Rightarrow> unpack_state \<Rightarrow> bool" where
  "unpacked x n s s' \<longleftrightarrow> item_view s' = Some x \<and> uc_current s' = uc_current s + of_nat n \<and>
     uc_return_code s' = 0 \<and> uc_end s' = uc_end s \<and> uc_start s' = uc_start s \<and>
     umem s' = umem s \<and> uc_err_no s' = uc_err_no s"

text \<open>In compatibility mode a binary blob travels as a string.\<close>

fun canon :: "bool \<Rightarrow> mp_item \<Rightarrow> mp_item" where
  "canon old (MBin bs) = (if old then MStr bs else MBin bs)"
| "canon old x = x"

fun wf_item :: "mp_item \<Rightarrow> bool" where
  "wf_item (MNeg i) \<longleftrightarrow> sint i < 0"
| "wf_item _ \<longleftrightarrow> True"

section \<open>Casts that lose nothing\<close>

lemma sint_ucast_id:
  fixes i :: "'a::len word"
  assumes "LENGTH('b) \<le> LENGTH('a)" "- (2 ^ (LENGTH('b) - 1)) \<le> sint i" "sint i < 2 ^ (LENGTH('b) - 1)"
  shows "sint (ucast i :: 'b::len word) = sint i"
proof -
  have "sint (ucast i :: 'b word) = signed_take_bit (LENGTH('b) - 1) (uint i)"
    by (simp add: sint_uint unsigned_ucast_eq unsigned_take_bit_eq signed_take_bit_take_bit not_le)
  also have "\<dots> = signed_take_bit (LENGTH('b) - 1) (sint i)"
    using assms(1) by (simp add: sint_uint signed_take_bit_signed_take_bit min_def)
  also have "\<dots> = sint i" using assms(2,3) by (simp add: signed_take_bit_int_eq_self)
  finally show ?thesis .
qed

lemma scast_ucast_id:
  fixes i :: "'a::len word"
  assumes "LENGTH('b) \<le> LENGTH('a)" "- (2 ^ (LENGTH('b) - 1)) \<le> sint i" "sint i < 2 ^ (LENGTH('b) - 1)"
  shows "scast (ucast i :: 'b::len word) = i"
  using sint_ucast_id [OF assms] by (metis of_int_sint scast_id)

lemma ucast_ucast_id:
  fixes i :: "'a::len word"
  assumes "unat i < 2 ^ LENGTH('b)"
  shows "ucast (ucast i :: 'b::len word) = i"
proof -
  have "unat (ucast i :: 'b word) = unat i"
    using assms by (simp add: unsigned_ucast_eq unsigned_take_bit_eq take_bit_nat_eq_self)
  moreover have "unat i < 2 ^ LENGTH('a)" by (rule unsigned_less)
  ultimately have "unat (ucast (ucast i :: 'b word) :: 'a word) = unat i"
    by (simp add: unsigned_ucast_eq unsigned_take_bit_eq take_bit_nat_eq_self)
  then show ?thesis by (simp add: word_unat_eq_iff)
qed

lemma be_ucast:
  fixes i :: "'a::len word"
  shows "16 \<le> LENGTH('a) \<Longrightarrow> be16 (ucast i :: u16) = be16 i"
    and "32 \<le> LENGTH('a) \<Longrightarrow> be32 (ucast i :: u32) = be32 i"
  by (auto simp: be16_def be32_def intro!: byte_eqI simp: bit_simps)

lemma as_u64_set [simp]: "as_u64 (set_u64 v a) = v"
  by (rule bit_word_eqI) (auto simp: as_u64_def set_u64_def bit_simps)

lemma as_boolean_set [simp]: "as_boolean (set_boolean b a) = b"
proof -
  have "(as_lo a AND 0xffffff00 OR (if b then 1 else 0)) AND 0xff = (if b then 1 else (0::u32))"
    by (simp add: bit.conj_disj_distrib2 and.assoc)
  then show ?thesis by (simp add: as_boolean_def set_boolean_def)
qed

section \<open>Steps of the unpacker\<close>

lemma with_bytes_ok:
  assumes "unat (uc_current s) + unat (n s) \<le> unat (uc_end s)"
  shows "with_bytes huu rc n k s = k (uc_current s) (s\<lparr>uc_current := uc_current s + n s\<rparr>)"
proof -
  have "unat (uc_current s) + unat (n s) < 2 ^ 32"
    using assms unsigned_less [of "uc_end s", where ?'a = nat] by simp
  then have "unat (uc_current s + n s) = unat (uc_current s) + unat (n s)"
    by (simp add: unat_word_ariths)
  then show ?thesis
    using assms by (simp add: with_bytes_def cw_unpack_assert_space_def Let_def word_less_nat_alt)
qed

lemma at_input_tag:
  assumes "at_input (c # bs) s"
  shows "cw_unpack_next huu s = cw_unpack_switch huu c (s\<lparr>uc_current := uc_current s + 1\<rparr>)"
    and "at_input bs (s\<lparr>uc_current := uc_current s + 1\<rparr>)"
proof -
  have m: "umem s (uc_current s) = c" "bytes_at (umem s) (uc_current s + 1) (length bs) = bs"
    and b: "unat (uc_current s) + Suc (length bs) \<le> unat (uc_end s)" and rc: "uc_return_code s = 0"
    using assms by (auto simp: at_input_def bytes_at_Suc)
  show "cw_unpack_next huu s = cw_unpack_switch huu c (s\<lparr>uc_current := uc_current s + 1\<rparr>)"
    using m(1) b rc by (simp add: cw_unpack_next_def with_bytes_ok)
  have "unat (uc_current s) + 1 < 2 ^ 32"
    using b unsigned_less [of "uc_end s", where ?'a = nat] by simp
  then have "unat (uc_current s + 1) = unat (uc_current s) + 1" by (simp add: unat_word_ariths)
  then show "at_input bs (s\<lparr>uc_current := uc_current s + 1\<rparr>)"
    using m(2) b rc by (simp add: at_input_def)
qed

lemma at_input_append:
  assumes "at_input (xs @ ys) s"
  shows "bytes_at (umem s) (uc_current s) (length xs) = xs"
    "unat (uc_current s) + length xs \<le> unat (uc_end s)"
    "at_input ys (s\<lparr>uc_current := uc_current s + of_nat (length xs)\<rparr>)"
proof -
  have b: "unat (uc_current s) + (length xs + length ys) \<le> unat (uc_end s)"
    using assms by (simp add: at_input_def)
  then have "unat (uc_current s) + length xs < 2 ^ 32"
    using unsigned_less [of "uc_end s", where ?'a = nat] by simp
  then have "unat (uc_current s + of_nat (length xs)) = unat (uc_current s) + length xs"
    by (simp add: unat_word_ariths unat_of_nat)
  then show "bytes_at (umem s) (uc_current s) (length xs) = xs"
    "unat (uc_current s) + length xs \<le> unat (uc_end s)"
    "at_input ys (s\<lparr>uc_current := uc_current s + of_nat (length xs)\<rparr>)"
    using assms b by (auto simp: at_input_def bytes_at_add)
qed

lemma at_input_frame [simp]:
  "at_input bs (s\<lparr>it_type := t\<rparr>) = at_input bs s"
  "at_input bs (s\<lparr>it_as := a\<rparr>) = at_input bs s"
  "at_input bs (s\<lparr>it_type := t, it_as := a\<rparr>) = at_input bs s"
  by (simp_all add: at_input_def)

lemma getDDItem_steps:
  "at_input (x # bs) s \<Longrightarrow> getDDItem1 huu typ f1 k s =
     k (s\<lparr>it_type := typ, uc_current := uc_current s + 1, it_as := f1 x (it_as s)\<rparr>)"
  "at_input (be16 w @ bs) s \<Longrightarrow> getDDItem2 huu typ f2 k s =
     k (s\<lparr>it_type := typ, uc_current := uc_current s + 2, it_as := f2 w (it_as s)\<rparr>)"
  "at_input (be32 d @ bs) s \<Longrightarrow> getDDItem4 huu typ f4 k s =
     k (s\<lparr>it_type := typ, uc_current := uc_current s + 4, it_as := f4 d (it_as s)\<rparr>)"
  "at_input (be64 q @ bs) s \<Longrightarrow> getDDItem8 huu typ k s =
     k (s\<lparr>it_type := typ, uc_current := uc_current s + 8, it_as := set_u64 q (it_as s)\<rparr>)"
  "at_input (x # bs) s \<Longrightarrow> get_ext_type huu k s =
     k (s\<lparr>uc_current := uc_current s + 1, it_type := sint x\<rparr>)"
  using at_input_append [of "[x]" bs s] at_input_append [of "be16 w" bs s]
    at_input_append [of "be32 d" bs s] at_input_append [of "be64 q" bs s]
  by (auto simp: getDDItem1_def getDDItem2_def getDDItem4_def getDDItem8_def get_ext_type_def
      with_bytes_ok cw_load_eqI bytes_at_Suc)

lemma assert_blob_step:
  assumes "at_input bs s" "unat (as_hi (it_as s)) = length bs"
  shows "cw_unpack_assert_blob huu s =
     s\<lparr>uc_current := uc_current s + of_nat (length bs), it_as := (it_as s)\<lparr>as_lo := uc_current s\<rparr>\<rparr>"
proof -
  have "as_hi (it_as s) = of_nat (length bs)" using assms(2) by (simp flip: assms(2))
  then show ?thesis
    using assms by (simp add: cw_unpack_assert_blob_def with_bytes_ok at_input_def)
qed

section \<open>Decoding each kind of item\<close>

lemma decode_tagged:
  assumes "at_input (c # bs) s"
    "\<And>s. at_input bs s \<Longrightarrow> unpacked x (length bs) s (cw_unpack_switch huu c s)"
  shows "unpacked x (length (c # bs)) s (cw_unpack_next huu s)"
  using assms(2) [OF at_input_tag(2) [OF assms(1)]] at_input_tag(1) [OF assms(1)]
  by (simp add: unpacked_def add.assoc)

lemma at_input_rc: "at_input bs s \<Longrightarrow> uc_return_code s = 0"
  by (simp add: at_input_def)

lemma getDDItem_last:
  "at_input (be16 w) s \<Longrightarrow> getDDItem2 huu typ f2 k s =
     k (s\<lparr>it_type := typ, uc_current := uc_current s + 2, it_as := f2 w (it_as s)\<rparr>)"
  "at_input (be32 d) s \<Longrightarrow> getDDItem4 huu typ f4 k s =
     k (s\<lparr>it_type := typ, uc_current := uc_current s + 4, it_as := f4 d (it_as s)\<rparr>)"
  "at_input (be64 q) s \<Longrightarrow> getDDItem8 huu typ k s =
     k (s\<lparr>it_type := typ, uc_current := uc_current s + 8, it_as := set_u64 q (it_as s)\<rparr>)"
  using getDDItem_steps(2) [where bs = "[]"] getDDItem_steps(3) [where bs = "[]"]
    getDDItem_steps(4) [where bs = "[]"] by simp_all

lemma unpackedI:
  assumes "at_input bs s" "item_view s' = Some x" "n = length bs"
    "uc_current s' = uc_current s + of_nat n" "uc_return_code s' = uc_return_code s"
    "uc_end s' = uc_end s" "uc_start s' = uc_start s" "umem s' = umem s" "uc_err_no s' = uc_err_no s"
  shows "unpacked x n s s'"
  using assms by (simp add: unpacked_def at_input_rc)

lemma above_byte:
  "k \<le> c \<Longrightarrow> j < k \<Longrightarrow> \<not> c \<le> (j :: u8)"
  "k \<le> c \<Longrightarrow> j < k \<Longrightarrow> c \<noteq> (j :: u8)"
  by auto

lemma switch_fix:
  "c \<le> 0x7f \<Longrightarrow> at_input [] s \<Longrightarrow> unpacked (MPos (ucast c)) 0 s (cw_unpack_switch huu c s)"
  "0xe0 \<le> c \<Longrightarrow> at_input [] s \<Longrightarrow> unpacked (MNeg (scast c)) 0 s (cw_unpack_switch huu c s)"
  "0x80 \<le> c \<Longrightarrow> c \<le> 0x8f \<Longrightarrow> at_input [] s \<Longrightarrow>
     unpacked (MMap (ucast c AND 0x0f)) 0 s (cw_unpack_switch huu c s)"
  "0x90 \<le> c \<Longrightarrow> c \<le> 0x9f \<Longrightarrow> at_input [] s \<Longrightarrow>
     unpacked (MArray (ucast c AND 0x0f)) 0 s (cw_unpack_switch huu c s)"
proof -
  show "unpacked (MPos (ucast c)) 0 s (cw_unpack_switch huu c s)" if "c \<le> 0x7f" "at_input [] s"
    by (rule unpackedI [OF that(2)])
      (simp_all add: cw_unpack_switch_def that(1) getDDItem_def item_view_def item_defs)
  show "unpacked (MNeg (scast c)) 0 s (cw_unpack_switch huu c s)" if "0xe0 \<le> c" "at_input [] s"
  proof -
    have "cw_unpack_switch huu c s = getDDItem CWP_ITEM_NEGATIVE_INTEGER (set_u64 (scast c)) s"
      using that(1) by (simp add: cw_unpack_switch_def above_byte [OF that(1)])
    then show ?thesis
      by (intro unpackedI [OF that(2)]) (simp_all add: getDDItem_def item_view_def item_defs)
  qed
  show "unpacked (MMap (ucast c AND 0x0f)) 0 s (cw_unpack_switch huu c s)"
    if "0x80 \<le> c" "c \<le> 0x8f" "at_input [] s"
  proof -
    have "cw_unpack_switch huu c s = getDDItem CWP_ITEM_MAP (set_size (ucast c AND 0x0f)) s"
      using that(2) by (simp add: cw_unpack_switch_def above_byte [OF that(1)])
    then show ?thesis
      by (intro unpackedI [OF that(3)])
        (simp_all add: getDDItem_def item_view_def item_defs set_size_def)
  qed
  show "unpacked (MArray (ucast c AND 0x0f)) 0 s (cw_unpack_switch huu c s)"
    if "0x90 \<le> c" "c \<le> 0x9f" "at_input [] s"
  proof -
    have "cw_unpack_switch huu c s = getDDItem CWP_ITEM_ARRAY (set_size (ucast c AND 0x0f)) s"
      using that(2) by (simp add: cw_unpack_switch_def above_byte [OF that(1)])
    then show ?thesis
      by (intro unpackedI [OF that(3)])
        (simp_all add: getDDItem_def item_view_def item_defs set_size_def)
  qed
qed

lemma switch_tags:
  "cw_unpack_switch huu 0xc0 s = s\<lparr>it_type := CWP_ITEM_NIL\<rparr>"
  "cw_unpack_switch huu 0xc2 s = getDDItem CWP_ITEM_BOOLEAN (set_boolean False) s"
  "cw_unpack_switch huu 0xc3 s = getDDItem CWP_ITEM_BOOLEAN (set_boolean True) s"
  "cw_unpack_switch huu 0xca s = getDDItem4 huu CWP_ITEM_FLOAT set_size (\<lambda>s. s) s"
  "cw_unpack_switch huu 0xcb s = getDDItem8 huu CWP_ITEM_DOUBLE (\<lambda>s. s) s"
  "cw_unpack_switch huu 0xcc s =
     getDDItem1 huu CWP_ITEM_POSITIVE_INTEGER (\<lambda>v. set_u64 (ucast v)) (\<lambda>s. s) s"
  "cw_unpack_switch huu 0xcd s =
     getDDItem2 huu CWP_ITEM_POSITIVE_INTEGER (\<lambda>v. set_u64 (ucast v)) (\<lambda>s. s) s"
  "cw_unpack_switch huu 0xce s =
     getDDItem4 huu CWP_ITEM_POSITIVE_INTEGER (\<lambda>v. set_u64 (ucast v)) (\<lambda>s. s) s"
  "cw_unpack_switch huu 0xcf s = getDDItem8 huu CWP_ITEM_POSITIVE_INTEGER (\<lambda>s. s) s"
  "cw_unpack_switch huu 0xd0 s =
     getDDItem1 huu CWP_ITEM_NEGATIVE_INTEGER (\<lambda>v. set_u64 (scast v)) fix_sign s"
  "cw_unpack_switch huu 0xd1 s =
     getDDItem2 huu CWP_ITEM_NEGATIVE_INTEGER (\<lambda>v. set_u64 (scast v)) fix_sign s"
  "cw_unpack_switch huu 0xd2 s =
     getDDItem4 huu CWP_ITEM_NEGATIVE_INTEGER (\<lambda>v. set_u64 (scast v)) fix_sign s"
  "cw_unpack_switch huu 0xd3 s = getDDItem8 huu CWP_ITEM_NEGATIVE_INTEGER fix_sign s"
  "cw_unpack_switch huu 0xdc s = getDDItem2 huu CWP_ITEM_ARRAY (\<lambda>v. set_size (ucast v)) (\<lambda>s. s) s"
  "cw_unpack_switch huu 0xdd s = getDDItem4 huu CWP_ITEM_ARRAY set_size (\<lambda>s. s) s"
  "cw_unpack_switch huu 0xde s = getDDItem2 huu CWP_ITEM_MAP (\<lambda>v. set_size (ucast v)) (\<lambda>s. s) s"
  "cw_unpack_switch huu 0xdf s = getDDItem4 huu CWP_ITEM_MAP set_size (\<lambda>s. s) s"
  by (simp_all add: cw_unpack_switch_def)

lemma switch_blob_tags:
  "cw_unpack_switch huu 0xc4 s =
     getDDItem1 huu CWP_ITEM_BIN (\<lambda>v. set_length (ucast v)) (cw_unpack_assert_blob huu) s"
  "cw_unpack_switch huu 0xc5 s =
     getDDItem2 huu CWP_ITEM_BIN (\<lambda>v. set_length (ucast v)) (cw_unpack_assert_blob huu) s"
  "cw_unpack_switch huu 0xc6 s =
     getDDItem4 huu CWP_ITEM_BIN set_length (cw_unpack_assert_blob huu) s"
  "cw_unpack_switch huu 0xd9 s =
     getDDItem1 huu CWP_ITEM_STR (\<lambda>v. set_length (ucast v)) (cw_unpack_assert_blob huu) s"
  "cw_unpack_switch huu 0xda s =
     getDDItem2 huu CWP_ITEM_STR (\<lambda>v. set_length (ucast v)) (cw_unpack_assert_blob huu) s"
  "cw_unpack_switch huu 0xdb s =
     getDDItem4 huu CWP_ITEM_STR set_length (cw_unpack_assert_blob huu) s"
  "cw_unpack_switch huu 0xc7 s = getDDItem1 huu CWP_ITEM_EXT (\<lambda>v. set_length (ucast v))
     (get_ext_type huu (cw_unpack_assert_blob huu)) s"
  "cw_unpack_switch huu 0xc8 s = getDDItem2 huu CWP_ITEM_EXT (\<lambda>v. set_length (ucast v))
     (get_ext_type huu (cw_unpack_assert_blob huu)) s"
  "cw_unpack_switch huu 0xc9 s =
     getDDItem4 huu CWP_ITEM_EXT set_length (get_ext_type huu (cw_unpack_assert_blob huu)) s"
  "cw_unpack_switch huu 0xd4 s = getDDItemFix huu 1 s"
  "cw_unpack_switch huu 0xd5 s = getDDItemFix huu 2 s"
  "cw_unpack_switch huu 0xd6 s = getDDItemFix huu 4 s"
  "cw_unpack_switch huu 0xd7 s = getDDItemFix huu 8 s"
  "cw_unpack_switch huu 0xd8 s = getDDItemFix huu 16 s"
  by (simp_all add: cw_unpack_switch_def)

lemma switch_int:
  fixes w :: u16 and d :: u32 and q :: u64
  shows "at_input [b] s \<Longrightarrow> unpacked (MPos (ucast b)) 1 s (cw_unpack_switch huu 0xcc s)"
    and "at_input (be16 w) s \<Longrightarrow> unpacked (MPos (ucast w)) 2 s (cw_unpack_switch huu 0xcd s)"
    and "at_input (be32 d) s \<Longrightarrow> unpacked (MPos (ucast d)) 4 s (cw_unpack_switch huu 0xce s)"
    and "at_input (be64 q) s \<Longrightarrow> unpacked (MPos q) 8 s (cw_unpack_switch huu 0xcf s)"
  by ((rule unpackedI, assumption); simp add: switch_tags getDDItem_steps getDDItem_last item_view_def item_defs)+

lemma switch_neg:
  fixes w :: u16 and d :: u32 and q :: u64
  shows "at_input [b] s \<Longrightarrow> sint b < 0 \<Longrightarrow> unpacked (MNeg (scast b)) 1 s (cw_unpack_switch huu 0xd0 s)"
    and "at_input (be16 w) s \<Longrightarrow> sint w < 0 \<Longrightarrow> unpacked (MNeg (scast w)) 2 s (cw_unpack_switch huu 0xd1 s)"
    and "at_input (be32 d) s \<Longrightarrow> sint d < 0 \<Longrightarrow> unpacked (MNeg (scast d)) 4 s (cw_unpack_switch huu 0xd2 s)"
    and "at_input (be64 q) s \<Longrightarrow> sint q < 0 \<Longrightarrow> unpacked (MNeg q) 8 s (cw_unpack_switch huu 0xd3 s)"
  by ((rule unpackedI, assumption); simp add: switch_tags getDDItem_steps getDDItem_last item_view_def item_defs
      fix_sign_def sint_up_scast is_up)+

lemma switch_simple:
  fixes w :: u16 and d :: u32 and q :: u64
  shows "at_input [] s \<Longrightarrow> unpacked MNil 0 s (cw_unpack_switch huu 0xc0 s)"
    and "at_input [] s \<Longrightarrow> unpacked (MBool False) 0 s (cw_unpack_switch huu 0xc2 s)"
    and "at_input [] s \<Longrightarrow> unpacked (MBool True) 0 s (cw_unpack_switch huu 0xc3 s)"
    and "at_input (be32 d) s \<Longrightarrow> unpacked (MFloat d) 4 s (cw_unpack_switch huu 0xca s)"
    and "at_input (be64 q) s \<Longrightarrow> unpacked (MDouble q) 8 s (cw_unpack_switch huu 0xcb s)"
    and "at_input (be16 w) s \<Longrightarrow> unpacked (MArray (ucast w)) 2 s (cw_unpack_switch huu 0xdc s)"
    and "at_input (be32 d) s \<Longrightarrow> unpacked (MArray d) 4 s (cw_unpack_switch huu 0xdd s)"
    and "at_input (be16 w) s \<Longrightarrow> unpacked (MMap (ucast w)) 2 s (cw_unpack_switch huu 0xde s)"
    and "at_input (be32 d) s \<Longrightarrow> unpacked (MMap d) 4 s (cw_unpack_switch huu 0xdf s)"
  by ((rule unpackedI, assumption); simp add: switch_tags getDDItem_def getDDItem_last item_view_def item_defs
      set_size_def)+

text \<open>Blobs: the length field is read first, then the bytes are left in place.\<close>

lemma sint_byte: "-128 \<le> sint (t :: u8)" "sint t \<le> 127"
  using sint_greater_eq [of t] sint_less [of t] by simp_all

lemma blob_view:
  assumes "at_input bs s" "unat (as_hi (it_as s)) = length bs"
  shows "it_type s = CWP_ITEM_STR \<Longrightarrow> unpacked (MStr bs) (length bs) s (cw_unpack_assert_blob huu s)"
    and "it_type s = CWP_ITEM_BIN \<Longrightarrow> unpacked (MBin bs) (length bs) s (cw_unpack_assert_blob huu s)"
    and "it_type s = sint t \<Longrightarrow> unpacked (MExt t bs) (length bs) s (cw_unpack_assert_blob huu s)"
  using assms sint_byte [of t]
  by (auto intro!: unpackedI simp: assert_blob_step item_view_def item_defs at_input_def)

lemma unpacked_after:
  assumes "unpacked x n s' s''" "uc_current s' = uc_current s + of_nat k"
    "uc_end s' = uc_end s" "uc_start s' = uc_start s" "umem s' = umem s" "uc_err_no s' = uc_err_no s"
  shows "unpacked x (k + n) s s''"
  using assms by (simp add: unpacked_def add.assoc)

lemma at_input_past:
  fixes w :: u16 and d :: u32
  shows "at_input (x # bs) s \<Longrightarrow>
      at_input bs (s\<lparr>it_type := t, uc_current := uc_current s + 1, it_as := a\<rparr>)"
    and "at_input (be16 w @ bs) s \<Longrightarrow>
      at_input bs (s\<lparr>it_type := t, uc_current := uc_current s + 2, it_as := a\<rparr>)"
    and "at_input (be32 d @ bs) s \<Longrightarrow>
      at_input bs (s\<lparr>it_type := t, uc_current := uc_current s + 4, it_as := a\<rparr>)"
    and "at_input (x # bs) s \<Longrightarrow> at_input bs (s\<lparr>uc_current := uc_current s + 1, it_type := t\<rparr>)"
  using at_input_append(3) [of "[x]" bs s] at_input_append(3) [of "be16 w" bs s]
    at_input_append(3) [of "be32 d" bs s]
  by (auto simp: at_input_def)

lemma switch_blob8:
  fixes b :: u8
  assumes "at_input (b # bs) s" "unat b = length bs"
  shows "unpacked (MStr bs) (1 + length bs) s (cw_unpack_switch huu 0xd9 s)"
    and "unpacked (MBin bs) (1 + length bs) s (cw_unpack_switch huu 0xc4 s)"
proof -
  have l: "unat (ucast b :: u32) = length bs" using assms(2) by (simp add: unat_ucast_up)
  note st = at_input_past(1) [OF assms(1)]
  show "unpacked (MStr bs) (1 + length bs) s (cw_unpack_switch huu 0xd9 s)"
    unfolding switch_blob_tags getDDItem_steps(1) [OF assms(1)]
    by (rule unpacked_after [OF blob_view(1) [OF st]]) (simp_all add: l set_length_def)
  show "unpacked (MBin bs) (1 + length bs) s (cw_unpack_switch huu 0xc4 s)"
    unfolding switch_blob_tags getDDItem_steps(1) [OF assms(1)]
    by (rule unpacked_after [OF blob_view(2) [OF st]]) (simp_all add: l set_length_def)
qed

lemma switch_blob16:
  fixes w :: u16
  assumes "at_input (be16 w @ bs) s" "unat w = length bs"
  shows "unpacked (MStr bs) (2 + length bs) s (cw_unpack_switch huu 0xda s)"
    and "unpacked (MBin bs) (2 + length bs) s (cw_unpack_switch huu 0xc5 s)"
proof -
  have l: "unat (ucast w :: u32) = length bs" using assms(2) by (simp add: unat_ucast_up)
  note st = at_input_past(2) [OF assms(1)]
  show "unpacked (MStr bs) (2 + length bs) s (cw_unpack_switch huu 0xda s)"
    unfolding switch_blob_tags getDDItem_steps(2) [OF assms(1)]
    by (rule unpacked_after [OF blob_view(1) [OF st]]) (simp_all add: l set_length_def)
  show "unpacked (MBin bs) (2 + length bs) s (cw_unpack_switch huu 0xc5 s)"
    unfolding switch_blob_tags getDDItem_steps(2) [OF assms(1)]
    by (rule unpacked_after [OF blob_view(2) [OF st]]) (simp_all add: l set_length_def)
qed

lemma switch_blob32:
  fixes d :: u32
  assumes "at_input (be32 d @ bs) s" "unat d = length bs"
  shows "unpacked (MStr bs) (4 + length bs) s (cw_unpack_switch huu 0xdb s)"
    and "unpacked (MBin bs) (4 + length bs) s (cw_unpack_switch huu 0xc6 s)"
proof -
  note st = at_input_past(3) [OF assms(1)]
  show "unpacked (MStr bs) (4 + length bs) s (cw_unpack_switch huu 0xdb s)"
    unfolding switch_blob_tags getDDItem_steps(3) [OF assms(1)]
    by (rule unpacked_after [OF blob_view(1) [OF st]]) (simp_all add: assms(2) set_length_def)
  show "unpacked (MBin bs) (4 + length bs) s (cw_unpack_switch huu 0xc6 s)"
    unfolding switch_blob_tags getDDItem_steps(3) [OF assms(1)]
    by (rule unpacked_after [OF blob_view(2) [OF st]]) (simp_all add: assms(2) set_length_def)
qed

text \<open>Extensions: the type byte follows the length.\<close>

lemma ext_type_blob:
  assumes "at_input (t # bs) s" "unat (as_hi (it_as s)) = length bs"
  shows "unpacked (MExt t bs) (1 + length bs) s (get_ext_type huu (cw_unpack_assert_blob huu) s)"
  unfolding getDDItem_steps(5) [OF assms(1)]
  using at_input_past(4) [OF assms(1)] assms(2)
  by (intro unpacked_after [OF blob_view(3)]) simp_all

lemma switch_ext:
  fixes b :: u8 and w :: u16 and d :: u32
  shows "at_input (b # t # bs) s \<Longrightarrow> unat b = length bs \<Longrightarrow>
      unpacked (MExt t bs) (1 + (1 + length bs)) s (cw_unpack_switch huu 0xc7 s)"
    and "at_input (be16 w @ t # bs) s \<Longrightarrow> unat w = length bs \<Longrightarrow>
      unpacked (MExt t bs) (2 + (1 + length bs)) s (cw_unpack_switch huu 0xc8 s)"
    and "at_input (be32 d @ t # bs) s \<Longrightarrow> unat d = length bs \<Longrightarrow>
      unpacked (MExt t bs) (4 + (1 + length bs)) s (cw_unpack_switch huu 0xc9 s)"
proof -
  show "unpacked (MExt t bs) (1 + (1 + length bs)) s (cw_unpack_switch huu 0xc7 s)"
    if "at_input (b # t # bs) s" "unat b = length bs"
    unfolding switch_blob_tags getDDItem_steps(1) [OF that(1)]
    by (rule unpacked_after [OF ext_type_blob [OF at_input_past(1) [OF that(1)]]])
      (simp_all add: set_length_def unat_ucast_up that(2))
  show "unpacked (MExt t bs) (2 + (1 + length bs)) s (cw_unpack_switch huu 0xc8 s)"
    if "at_input (be16 w @ t # bs) s" "unat w = length bs"
    unfolding switch_blob_tags getDDItem_steps(2) [OF that(1)]
    by (rule unpacked_after [OF ext_type_blob [OF at_input_past(2) [OF that(1)]]])
      (simp_all add: set_length_def unat_ucast_up that(2))
  show "unpacked (MExt t bs) (4 + (1 + length bs)) s (cw_unpack_switch huu 0xc9 s)"
    if "at_input (be32 d @ t # bs) s" "unat d = length bs"
    unfolding switch_blob_tags getDDItem_steps(3) [OF that(1)]
    by (rule unpacked_after [OF ext_type_blob [OF at_input_past(3) [OF that(1)]]])
      (simp_all add: set_length_def that(2))
qed

lemma fix_ext:
  assumes "at_input (t # bs) s" "unat n = length bs"
  shows "unpacked (MExt t bs) (1 + length bs) s (getDDItemFix huu n s)"
  using at_input_past(4) [OF assms(1)] assms(2)
  unfolding getDDItemFix_def getDDItem_steps(5) [OF assms(1)]
  by (intro unpacked_after [OF blob_view(3)]) (simp_all add: set_length_def)

section \<open>Decoding every encoding\<close>

lemma enc_small:
  fixes n :: u32
  assumes "n < 16"
  shows "(ucast (0x80 OR n) :: u8) \<le> 0x8f" "0x80 \<le> (ucast (0x80 OR n) :: u8)"
    "ucast (ucast (0x80 OR n) :: u8) AND 0x0f = n"
    "(ucast (0x90 OR n) :: u8) \<le> 0x9f" "0x90 \<le> (ucast (0x90 OR n) :: u8)"
    "ucast (ucast (0x90 OR n) :: u8) AND 0x0f = n"
proof -
  have "unat n < 16" using assms by (simp add: word_less_nat_alt)
  then have "unat n \<in> set [0..<16]" by simp
  moreover have "n = of_nat (unat n)" by simp
  ultimately have "n \<in> of_nat ` set [0..<16]" by blast
  then have "n \<in> {0,1,2,3,4,5,6,7,8,9,10,11,12,13,14,15}" by (simp add: upt_rec)
  then show "(ucast (0x80 OR n) :: u8) \<le> 0x8f" "0x80 \<le> (ucast (0x80 OR n) :: u8)"
    "ucast (ucast (0x80 OR n) :: u8) AND 0x0f = n"
    "(ucast (0x90 OR n) :: u8) \<le> 0x9f" "0x90 \<le> (ucast (0x90 OR n) :: u8)"
    "ucast (ucast (0x90 OR n) :: u8) AND 0x0f = n"
    by auto
qed

lemma decode_map:
  assumes "at_input (enc_map n) s"
  shows "unpacked (MMap n) (length (enc_map n)) s (cw_unpack_next huu s)"
proof -
  consider "n < 16" | "\<not> n < 16" "n < 65536" | "\<not> n < 16" "\<not> n < 65536" by blast
  then show ?thesis
  proof cases
    case 1
    then show ?thesis using assms switch_fix(3) [of "ucast (0x80 OR n)"] enc_small [OF 1]
        decode_tagged [of "ucast (0x80 OR n)" "[]" s "MMap n" huu]
      unfolding enc_map_def by simp
  next
    case 2
    then have "ucast (ucast n :: u16) = n" by (simp add: word_less_nat_alt ucast_ucast_id)
    then show ?thesis using assms 2 switch_simple(8) [of "ucast n"] decode_tagged [of "0xde" "be16 n" s "MMap n" huu]
      unfolding enc_map_def by (simp add: be_ucast)
  next
    case 3
    then show ?thesis using assms switch_simple(9) decode_tagged [of "0xdf" "be32 n" s "MMap n" huu]
      unfolding enc_map_def by simp
  qed
qed

lemma decode_array:
  assumes "at_input (enc_array n) s"
  shows "unpacked (MArray n) (length (enc_array n)) s (cw_unpack_next huu s)"
proof -
  consider "n < 16" | "\<not> n < 16" "n < 65536" | "\<not> n < 16" "\<not> n < 65536" by blast
  then show ?thesis
  proof cases
    case 1
    then show ?thesis using assms switch_fix(4) [of "ucast (0x90 OR n)"] enc_small [OF 1]
        decode_tagged [of "ucast (0x90 OR n)" "[]" s "MArray n" huu]
      unfolding enc_array_def by simp
  next
    case 2
    then have "ucast (ucast n :: u16) = n" by (simp add: word_less_nat_alt ucast_ucast_id)
    then show ?thesis using assms 2 switch_simple(6) [of "ucast n"] decode_tagged [of "0xdc" "be16 n" s "MArray n" huu]
      unfolding enc_array_def by (simp add: be_ucast)
  next
    case 3
    then show ?thesis using assms switch_simple(7) decode_tagged [of "0xdd" "be32 n" s "MArray n" huu]
      unfolding enc_array_def by simp
  qed
qed

lemma decode_pos:
  assumes "at_input (enc_pos i) s"
  shows "unpacked (MPos i) (length (enc_pos i)) s (cw_unpack_next huu s)"
proof -
  note tag = decode_tagged [where s = s and x = "MPos i" and huu = huu]
  consider "unat i < 128" | "\<not> unat i < 128" "unat i < 256" | "\<not> unat i < 256" "unat i < 0x10000"
    | "\<not> unat i < 0x10000" "unat i < 0x100000000" | "\<not> unat i < 0x100000000" by linarith
  then show ?thesis
  proof cases
    case 1
    then have "(ucast i :: u8) \<le> 0x7f"
      by (simp add: word_le_nat_alt unsigned_ucast_eq unsigned_take_bit_eq take_bit_nat_eq_self)
    moreover have "ucast (ucast i :: u8) = i" using 1 by (simp add: ucast_ucast_id)
    ultimately show ?thesis using 1 assms switch_fix(1) [of "ucast i :: u8"] tag [of "ucast i" "[]"]
      by (simp add: enc_pos_def word_less_nat_alt)
  next
    case 2
    then have "ucast (ucast i :: u8) = i" by (simp add: ucast_ucast_id)
    then show ?thesis using 2 assms switch_int(1) [of "ucast i"] tag [of "0xcc" "[ucast i]"]
      by (simp add: enc_pos_def word_less_nat_alt)
  next
    case 3
    then have "ucast (ucast i :: u16) = i" by (simp add: ucast_ucast_id)
    then show ?thesis using 3 assms switch_int(2) [of "ucast i"] tag [of "0xcd" "be16 i"]
      by (simp add: enc_pos_def word_less_nat_alt be_ucast)
  next
    case 4
    then have "ucast (ucast i :: u32) = i" by (simp add: ucast_ucast_id)
    then show ?thesis using 4 assms switch_int(3) [of "ucast i"] tag [of "0xce" "be32 i"]
      by (simp add: enc_pos_def word_less_nat_alt be_ucast)
  next
    case 5
    then show ?thesis using assms switch_int(4) tag [of "0xcf" "be64 i"]
      by (simp add: enc_pos_def word_less_nat_alt)
  qed
qed

lemma decode_neg:
  assumes "at_input (enc_neg i) s" "sint i < 0"
  shows "unpacked (MNeg i) (length (enc_neg i)) s (cw_unpack_next huu s)"
proof -
  note tag = decode_tagged [where s = s and x = "MNeg i" and huu = huu]
  consider "- 32 \<le> sint i" | "\<not> - 32 \<le> sint i" "- 128 \<le> sint i"
    | "\<not> - 128 \<le> sint i" "- 32768 \<le> sint i"
    | "\<not> - 32768 \<le> sint i" "- 2147483648 \<le> sint i" | "\<not> - 2147483648 \<le> sint i" by linarith
  then show ?thesis
  proof cases
    case 1
    then have c: "scast (ucast i :: u8) = i" "sint (ucast i :: u8) = sint i"
      using assms(2) by (auto intro!: scast_ucast_id sint_ucast_id)
    have "0xe0 \<le> (ucast i :: u8)"
    proof -
      have "- 32 \<le> sint (ucast i :: u8)" "sint (ucast i :: u8) < 0"
        using 1 c(2) assms(2) by simp_all
      then show ?thesis using uint_lt2p [of "ucast i :: u8"]
        by (simp add: sint_cases [where w = "ucast i :: u8"] word_le_def split: if_splits)
    qed
    then show ?thesis using 1 c assms switch_fix(2) [of "ucast i :: u8"] tag [of "ucast i" "[]"]
      by (simp add: enc_neg_def)
  next
    case 2
    then have c: "scast (ucast i :: u8) = i" "sint (ucast i :: u8) = sint i"
      using assms(2) by (auto intro!: scast_ucast_id sint_ucast_id)
    then show ?thesis using 2 c assms switch_neg(1) [of "ucast i"] tag [of "0xd0" "[ucast i]"]
      by (simp add: enc_neg_def)
  next
    case 3
    then have c: "scast (ucast i :: u16) = i" "sint (ucast i :: u16) = sint i"
      using assms(2) by (auto intro!: scast_ucast_id sint_ucast_id)
    then show ?thesis using 3 c assms switch_neg(2) [of "ucast i"] tag [of "0xd1" "be16 i"]
      by (simp add: enc_neg_def be_ucast)
  next
    case 4
    then have c: "scast (ucast i :: u32) = i" "sint (ucast i :: u32) = sint i"
      using assms(2) by (auto intro!: scast_ucast_id sint_ucast_id)
    then show ?thesis using 4 c assms switch_neg(3) [of "ucast i"] tag [of "0xd2" "be32 i"]
      by (simp add: enc_neg_def be_ucast)
  next
    case 5
    then show ?thesis using assms switch_neg(4) tag [of "0xd3" "be64 i"]
      by (simp add: enc_neg_def)
  qed
qed
lemma at_input_length: "at_input bs s \<Longrightarrow> length bs < 2 ^ 32"
  using unsigned_less [of "uc_end s", where ?'a = nat] by (simp add: at_input_def)

lemma fixstr_tag:
  fixes l :: u32
  assumes "unat l < 32"
  shows "(ucast (0xa0 + l) :: u8) \<le> 0xbf" "0xa0 \<le> (ucast (0xa0 + l) :: u8)"
    "ucast (ucast (0xa0 + l) :: u8) AND 0x1f = l"
proof -
  have "l = of_nat (unat l)" by simp
  moreover have "unat l \<in> set [0..<32]" using assms by simp
  ultimately have "l \<in> of_nat ` set [0..<32]" by blast
  then have "l \<in> {0,1,2,3,4,5,6,7,8,9,10,11,12,13,14,15,16,17,18,19,20,21,22,23,24,25,26,27,28,29,30,31}"
    by (simp add: upt_rec)
  then show "(ucast (0xa0 + l) :: u8) \<le> 0xbf" "0xa0 \<le> (ucast (0xa0 + l) :: u8)"
    "ucast (ucast (0xa0 + l) :: u8) AND 0x1f = l"
    by auto
qed

lemma switch_fixstr:
  assumes "0xa0 \<le> c" "c \<le> 0xbf" "at_input bs s" "unat (ucast c AND (0x1f :: u32)) = length bs"
  shows "unpacked (MStr bs) (length bs) s (cw_unpack_switch huu c s)"
proof -
  let ?s = "getDDItem CWP_ITEM_STR (set_length (ucast c AND 0x1f)) s"
  have "cw_unpack_switch huu c s = cw_unpack_assert_blob huu ?s"
    using assms(2) by (simp add: cw_unpack_switch_def above_byte [OF assms(1)])
  moreover have "unpacked (MStr bs) (length bs) ?s (cw_unpack_assert_blob huu ?s)"
    using assms(3,4) by (intro blob_view) (simp_all add: getDDItem_def set_length_def)
  ultimately show ?thesis
    using unpacked_after [of "MStr bs" "length bs" ?s _ s 0] by (simp add: getDDItem_def)
qed

lemma len_word:
  assumes "length bs < 2 ^ 32"
  shows "unat (of_nat (length bs) :: u32) = length bs"
  using assms by (simp add: unat_of_nat)

lemma decode_str:
  assumes "at_input (enc_str old bs) s"
  shows "unpacked (MStr bs) (length (enc_str old bs)) s (cw_unpack_next huu s)"
proof -
  note tag = decode_tagged [where s = s and x = "MStr bs" and huu = huu]
  let ?w = "of_nat (length bs) :: u32"
  have "length bs \<le> length (enc_str old bs)" by (simp add: enc_str_def Let_def)
  then have "length bs < 2 ^ 32" using at_input_length [OF assms] by linarith
  then have w: "unat ?w = length bs" by (rule len_word)
  consider "length bs < 32" | "\<not> length bs < 32" "length bs < 256 \<and> \<not> old"
    | "\<not> length bs < 32" "\<not> (length bs < 256 \<and> \<not> old)" "length bs < 65536"
    | "\<not> length bs < 32" "\<not> (length bs < 256 \<and> \<not> old)" "\<not> length bs < 65536" by blast
  then show ?thesis
  proof cases
    case 1
    then have "unat ?w < 32" using w by simp
    note t = fixstr_tag [OF this]
    have e: "enc_str old bs = ucast (0xa0 + ?w) # bs" using 1 by (simp add: enc_str_def)
    show ?thesis using assms unfolding e
      by (rule tag) (rule switch_fixstr [OF t(2,1)], simp_all add: t(3) w)
  next
    case 2
    then have e: "enc_str old bs = 0xd9 # ucast ?w # bs" by (simp add: enc_str_def Let_def)
    have u: "unat (ucast ?w :: u8) = length bs" using 2 w by (simp add: unat_ucast_small)
    show ?thesis using assms switch_blob8(1) [OF _ u] tag [of "0xd9" "ucast ?w # bs"]
      unfolding e by simp
  next
    case 3
    then have e: "enc_str old bs = 0xda # be16 (ucast ?w :: u16) @ bs"
      by (auto simp: enc_str_def Let_def be_ucast)
    have u: "unat (ucast ?w :: u16) = length bs" using 3 w by (simp add: unat_ucast_small)
    show ?thesis using assms switch_blob16(1) [OF _ u] tag [of "0xda" "be16 (ucast ?w :: u16) @ bs"]
      unfolding e by simp
  next
    case 4
    then have e: "enc_str old bs = 0xdb # be32 ?w @ bs" by (auto simp: enc_str_def Let_def)
    show ?thesis using assms switch_blob32(1) [OF _ w] tag [of "0xdb" "be32 ?w @ bs"]
      unfolding e by simp
  qed
qed

lemma decode_bin:
  assumes "at_input (enc_bin bs) s"
  shows "unpacked (MBin bs) (length (enc_bin bs)) s (cw_unpack_next huu s)"
proof -
  note tag = decode_tagged [where s = s and x = "MBin bs" and huu = huu]
  let ?w = "of_nat (length bs) :: u32"
  have "length bs \<le> length (enc_bin bs)" by (simp add: enc_bin_def Let_def)
  then have "length bs < 2 ^ 32" using at_input_length [OF assms] by linarith
  then have w: "unat ?w = length bs" by (rule len_word)
  consider "length bs < 256" | "\<not> length bs < 256" "length bs < 65536" | "\<not> length bs < 65536"
    by linarith
  then show ?thesis
  proof cases
    case 1
    then have e: "enc_bin bs = 0xc4 # ucast ?w # bs" by (simp add: enc_bin_def Let_def)
    have u: "unat (ucast ?w :: u8) = length bs" using 1 w by (simp add: unat_ucast_small)
    show ?thesis using assms switch_blob8(2) [OF _ u] tag [of "0xc4" "ucast ?w # bs"]
      unfolding e by simp
  next
    case 2
    then have e: "enc_bin bs = 0xc5 # be16 (ucast ?w :: u16) @ bs"
      by (simp add: enc_bin_def Let_def be_ucast)
    have u: "unat (ucast ?w :: u16) = length bs" using 2 w by (simp add: unat_ucast_small)
    show ?thesis using assms switch_blob16(2) [OF _ u] tag [of "0xc5" "be16 (ucast ?w :: u16) @ bs"]
      unfolding e by simp
  next
    case 3
    then have e: "enc_bin bs = 0xc6 # be32 ?w @ bs" by (simp add: enc_bin_def Let_def)
    show ?thesis using assms switch_blob32(2) [OF _ w] tag [of "0xc6" "be32 ?w @ bs"]
      unfolding e by simp
  qed
qed

lemma decode_ext:
  assumes "at_input (enc_ext t bs) s"
  shows "unpacked (MExt t bs) (length (enc_ext t bs)) s (cw_unpack_next huu s)"
proof -
  note tag = decode_tagged [where s = s and x = "MExt t bs" and huu = huu]
  let ?w = "of_nat (length bs) :: u32"
  have "length bs \<le> length (enc_ext t bs)" by (simp add: enc_ext_def Let_def)
  then have "length bs < 2 ^ 32" using at_input_length [OF assms] by linarith
  then have w: "unat ?w = length bs" by (rule len_word)
  consider (short) "length bs \<in> {1, 2, 4, 8, 16}"
    | (ext8) "length bs \<notin> {1, 2, 4, 8, 16}" "length bs < 256"
    | (ext16) "\<not> length bs < 256" "length bs < 65536" | (ext32) "\<not> length bs < 65536" by auto
  then show ?thesis
  proof cases
    case short
    then obtain c n where e: "enc_ext t bs = c # t # bs" and n: "unat n = length bs"
      and c: "\<And>s. cw_unpack_switch huu c s = getDDItemFix huu n s"
      using that [of "0xd4" 1] that [of "0xd5" 2] that [of "0xd6" 4] that [of "0xd7" 8]
        that [of "0xd8" 16]
      by (auto simp: enc_ext_def switch_blob_tags)
    show ?thesis using assms fix_ext [OF _ n] tag [of c "t # bs"] unfolding e by (simp add: c)
  next
    case ext8
    then have e: "enc_ext t bs = 0xc7 # ucast ?w # t # bs" by (simp add: enc_ext_def Let_def)
    have u: "unat (ucast ?w :: u8) = length bs" using ext8 w by (simp add: unat_ucast_small)
    show ?thesis using assms switch_ext(1) [OF _ u] tag [of "0xc7" "ucast ?w # t # bs"]
      unfolding e by simp
  next
    case ext16
    then have e: "enc_ext t bs = 0xc8 # be16 (ucast ?w :: u16) @ t # bs"
      by (auto simp: enc_ext_def Let_def be_ucast)
    have u: "unat (ucast ?w :: u16) = length bs" using ext16 w by (simp add: unat_ucast_small)
    show ?thesis using assms switch_ext(2) [OF _ u] tag [of "0xc8" "be16 (ucast ?w :: u16) @ t # bs"]
      unfolding e by simp
  next
    case ext32
    then have e: "enc_ext t bs = 0xc9 # be32 ?w @ t # bs" by (auto simp: enc_ext_def Let_def)
    show ?thesis using assms switch_ext(3) [OF _ w] tag [of "0xc9" "be32 ?w @ t # bs"]
      unfolding e by simp
  qed
qed

lemma decode_item:
  assumes "wf_item x" "at_input (encode old x) s"
  shows "unpacked (canon old x) (length (encode old x)) s (cw_unpack_next huu s)"
proof (cases x)
  case MNil
  then show ?thesis using assms switch_simple(1) decode_tagged [of "0xc0" "[]" s MNil huu] by simp
next
  case (MBool b)
  then show ?thesis using assms switch_simple(2,3) decode_tagged [of "0xc2" "[]" s "MBool b" huu]
      decode_tagged [of "0xc3" "[]" s "MBool b" huu] by (cases b) simp_all
next
  case (MFloat f)
  then show ?thesis using assms switch_simple(4) decode_tagged [of "0xca" "be32 f" s "MFloat f" huu] by simp
next
  case (MDouble d)
  then show ?thesis using assms switch_simple(5) decode_tagged [of "0xcb" "be64 d" s "MDouble d" huu] by simp
qed (use assms in \<open>auto simp: decode_pos decode_neg decode_str decode_bin decode_ext decode_array decode_map\<close>)

end
