(* ===== verification/CWCodec.thy ===== *)
theory CWCodec
  imports CWRoundTrip
begin

text \<open>
  The contract between a writer that appends encoded items to a buffer and a reader that takes
  them off again, as locales, and its interpretation on CWPack: any sequence of packing calls
  followed by as many calls of \<open>cw_unpack_next\<close> on the bytes written returns the items.
\<close>

section \<open>Writers and readers of encoded items\<close>

text \<open>
  A writer: \<open>pack\<close> performs a call, \<open>out\<close> is what has been written, \<open>room n\<close> says that \<open>n\<close> more
  bytes fit, and \<open>denotes w c x\<close> that call \<open>c\<close> made in state \<open>w\<close> stands for the item \<open>x\<close>.
\<close>

locale item_writer =
  fixes pack :: "'c \<Rightarrow> 'w \<Rightarrow> 'w" and out :: "'w \<Rightarrow> u8 list" and room :: "nat \<Rightarrow> 'w \<Rightarrow> bool"
    and denotes :: "'w \<Rightarrow> 'c \<Rightarrow> 'i \<Rightarrow> bool" and enc :: "'i \<Rightarrow> u8 list"
  assumes pack_out: "denotes w c x \<Longrightarrow> room (length (enc x) + n) w \<Longrightarrow> out (pack c w) = out w @ enc x"
    and pack_room: "denotes w c x \<Longrightarrow> room (length (enc x) + n) w \<Longrightarrow> room n (pack c w)"
    and pack_denotes: "denotes w c x \<Longrightarrow> room (length (enc x) + n) w \<Longrightarrow> denotes w c' x' \<Longrightarrow>
      denotes (pack c w) c' x'"
begin

lemma pack_all:
  assumes "list_all2 (denotes w) cs xs" "room (length (concat (map enc xs)) + n) w"
  shows "out (fold pack cs w) = out w @ concat (map enc xs) \<and> room n (fold pack cs w)"
  using assms
proof (induction cs arbitrary: xs w)
  case (Cons c cs)
  then obtain x ys where xs: "xs = x # ys" and c: "denotes w c x" and cs: "list_all2 (denotes w) cs ys"
    by (auto simp: list_all2_Cons1)
  have r: "room (length (enc x) + (length (concat (map enc ys)) + n)) w"
    using Cons.prems(2) by (simp add: xs add.assoc)
  have "list_all2 (denotes (pack c w)) cs ys"
    using cs by (rule list_all2_mono) (rule pack_denotes [OF c r])
  from Cons.IH [OF this pack_room [OF c r]] show ?case by (simp add: xs pack_out [OF c r])
qed simp

end

text \<open>Reading \<open>n\<close> items one after the other.\<close>

primrec read_items :: "('r \<Rightarrow> 'r) \<Rightarrow> ('r \<Rightarrow> 'i option) \<Rightarrow> nat \<Rightarrow> 'r \<Rightarrow> 'i option list" where
  "read_items unpack item 0 r = []"
| "read_items unpack item (Suc n) r = item (unpack r) # read_items unpack item n (unpack r)"

text \<open>
  A reader: \<open>input bs\<close> says that \<open>bs\<close> is what comes next, \<open>item\<close> is what the last \<open>unpack\<close>
  returned; the reader may identify items that have the same encoding (\<open>norm\<close>).
\<close>

locale item_reader =
  fixes unpack :: "'r \<Rightarrow> 'r" and input :: "u8 list \<Rightarrow> 'r \<Rightarrow> bool" and item :: "'r \<Rightarrow> 'i option"
    and norm :: "'i \<Rightarrow> 'i" and valid :: "'i \<Rightarrow> bool" and enc :: "'i \<Rightarrow> u8 list"
  assumes unpack_item: "valid x \<Longrightarrow> input (enc x @ bs) r \<Longrightarrow> item (unpack r) = Some (norm x)"
    and unpack_rest: "valid x \<Longrightarrow> input (enc x @ bs) r \<Longrightarrow> input bs (unpack r)"
begin

lemma read_all:
  assumes "list_all valid xs" "input (concat (map enc xs) @ bs) r"
  shows "read_items unpack item (length xs) r = map (Some \<circ> norm) xs"
    and "input bs ((unpack ^^ length xs) r)"
proof -
  have "read_items unpack item (length xs) r = map (Some \<circ> norm) xs \<and>
      input bs ((unpack ^^ length xs) r)"
    using assms
    by (induction xs arbitrary: r) (auto simp: unpack_item funpow_swap1 intro: unpack_rest)
  then show "read_items unpack item (length xs) r = map (Some \<circ> norm) xs"
    "input bs ((unpack ^^ length xs) r)" by simp_all
qed

end

text \<open>A codec: a reader opened on what the writer wrote.\<close>

locale codec = item_writer pack out room denotes enc + item_reader unpack input item norm valid enc
  for pack :: "'c \<Rightarrow> 'w \<Rightarrow> 'w" and out room and denotes :: "'w \<Rightarrow> 'c \<Rightarrow> 'i \<Rightarrow> bool" and enc
    and unpack :: "'r \<Rightarrow> 'r" and input item norm valid +
  fixes reopen :: "'w \<Rightarrow> 'r"
  assumes reopen_input: "room 0 w \<Longrightarrow> input (out w) (reopen w)"
    and denotes_valid: "denotes w c x \<Longrightarrow> valid x"
begin

lemma round_trip:
  assumes "list_all2 (denotes w) cs xs" "room (length (concat (map enc xs))) w" "out w = []"
  shows "read_items unpack item (length xs) (reopen (fold pack cs w)) = map (Some \<circ> norm) xs"
    and "room 0 (fold pack cs w)"
proof -
  have w: "out (fold pack cs w) = concat (map enc xs)" "room 0 (fold pack cs w)"
    using pack_all [OF assms(1), of 0] assms(2,3) by simp_all
  have "list_all valid xs"
    using assms(1) by (induction cs arbitrary: xs) (auto simp: list_all2_Cons1 denotes_valid)
  then show "read_items unpack item (length xs) (reopen (fold pack cs w)) = map (Some \<circ> norm) xs"
    using read_all(1) [of xs "[]"] reopen_input [OF w(2)] w(1) by simp
  show "room 0 (fold pack cs w)" by (rule w)
qed

end

section \<open>CWPack as a codec\<close>

datatype pack_op =
    PNil | PBoolean bool | PUnsigned u64 | PSigned u64 | PFloat u32 | PDouble u64
  | PStr addr u32 | PBin addr u32 | PExt u8 addr u32 | PArray u32 | PMap u32

fun pack_call :: "pack_overflow_handler option \<Rightarrow> pack_op \<Rightarrow> pack_state \<Rightarrow> pack_state" where
  "pack_call hpo PNil = cw_pack_nil hpo"
| "pack_call hpo (PBoolean b) = cw_pack_boolean hpo b"
| "pack_call hpo (PUnsigned i) = cw_pack_unsigned hpo i"
| "pack_call hpo (PSigned i) = cw_pack_signed hpo i"
| "pack_call hpo (PFloat f) = cw_pack_float hpo f"
| "pack_call hpo (PDouble d) = cw_pack_double hpo d"
| "pack_call hpo (PStr v l) = cw_pack_str hpo v l"
| "pack_call hpo (PBin v l) = cw_pack_bin hpo v l"
| "pack_call hpo (PExt t v l) = cw_pack_ext hpo t v l"
| "pack_call hpo (PArray n) = cw_pack_array_size hpo n"
| "pack_call hpo (PMap n) = cw_pack_map_size hpo n"

text \<open>The source of a blob lies outside the buffer.\<close>

definition outside :: "pack_state \<Rightarrow> addr \<Rightarrow> u32 \<Rightarrow> bool" where
  "outside s v l \<longleftrightarrow> apart v (unat l) (pc_start s) (unat (pc_end s - pc_start s))"

fun call_item :: "mem \<Rightarrow> pack_op \<Rightarrow> mp_item" where
  "call_item m PNil = MNil"
| "call_item m (PBoolean b) = MBool b"
| "call_item m (PUnsigned i) = MPos i"
| "call_item m (PSigned i) = (if sint i \<ge> 0 then MPos i else MNeg i)"
| "call_item m (PFloat f) = MFloat f"
| "call_item m (PDouble d) = MDouble d"
| "call_item m (PStr v l) = MStr (bytes_at m v (unat l))"
| "call_item m (PBin v l) = MBin (bytes_at m v (unat l))"
| "call_item m (PExt t v l) = MExt t (bytes_at m v (unat l))"
| "call_item m (PArray n) = MArray n"
| "call_item m (PMap n) = MMap n"

text \<open>A call with a blob reads it from outside the buffer; extensions need the current format.\<close>

fun call_ok :: "pack_state \<Rightarrow> pack_op \<Rightarrow> bool" where
  "call_ok s (PStr v l) = outside s v l"
| "call_ok s (PBin v l) = outside s v l"
| "call_ok s (PExt t v l) = (outside s v l \<and> \<not> be_compatible s)"
| "call_ok s _ = True"

definition call_denotes :: "pack_state \<Rightarrow> pack_op \<Rightarrow> mp_item \<Rightarrow> bool" where
  "call_denotes s c x \<longleftrightarrow> call_ok s c \<and> call_item (pmem s) c = x"

definition pack_room :: "bool \<Rightarrow> nat \<Rightarrow> pack_state \<Rightarrow> bool" where
  "pack_room old n s \<longleftrightarrow> return_code s = 0 \<and> be_compatible s = old \<and> pc_start s \<le> pc_current s \<and>
     unat (pc_current s) + n \<le> unat (pc_end s)"

definition packed_bytes :: "pack_state \<Rightarrow> u8 list" where
  "packed_bytes s = bytes_at (pmem s) (pc_start s) (unat (pc_current s - pc_start s))"

definition reopen :: "int \<Rightarrow> as_union \<Rightarrow> pack_state \<Rightarrow> unpack_state" where
  "reopen ty a s = snd (cw_unpack_context_init ty a (pmem s) (pc_start s) (pc_current s - pc_start s))"

lemma outside_apart:
  assumes "outside s v l" "pc_start s \<le> pc_current s" "unat (pc_current s) + n \<le> unat (pc_end s)"
  shows "apart v (unat l) (pc_current s) n"
  unfolding apart_def
proof (intro allI impI)
  fix i assume i: "i < unat l"
  let ?k = "unat (pc_current s - pc_start s)" and ?a = "v + of_nat i"
  have k: "?k = unat (pc_current s) - unat (pc_start s)"
    using assms(2) by (simp add: unat_sub)
  have L: "unat (pc_end s - pc_start s) = unat (pc_end s) - unat (pc_start s)"
    using assms(2,3) by (subst unat_sub) (auto simp: word_le_nat_alt)
  have b: "unat (pc_end s - pc_start s) \<le> unat (?a - pc_start s)"
    using assms(1) i by (simp add: outside_def apart_def)
  have "unat (?a - (pc_start s + of_nat ?k)) = unat (?a - pc_start s) - ?k"
    by (rule unat_shifted_diff) (use b k L assms(2,3) in \<open>simp add: word_le_nat_alt\<close>)
  then show "n \<le> unat (?a - pc_current s)"
    using b k L assms(2,3) by (simp add: word_le_nat_alt)
qed

lemma room_no_wrap: "pack_room old n s \<Longrightarrow> no_wrap n s"
  using unsigned_less [of "pc_end s", where ?'a = nat] by (simp add: pack_room_def no_wrap_def)

text \<open>Every packing call refines "append the encoding of the item it denotes".\<close>

lemma pack_call_refines:
  assumes "call_denotes s c x" "pack_room old (length (encode old x)) s"
  shows "pack_call None c s = emit (encode old x) s"
proof -
  have nw: "no_wrap (length (encode old x)) s" using assms(2) by (rule room_no_wrap)
  have old: "be_compatible s = old" and fit: "return_code s = 0"
    "unat (pc_current s) + length (encode old x) \<le> unat (pc_end s)" "pc_start s \<le> pc_current s"
    using assms(2) by (simp_all add: pack_room_def)
  have ap: "outside s v l \<Longrightarrow> apart v (unat l) (pc_current s) (length (encode old x))" for v l
    using fit by (intro outside_apart)
  have "pack_call None c s = pack_bytes (encode old x) s"
    using assms(1) nw old ap
    by (cases c) (auto simp: call_denotes_def cw_pack_simple_refines cw_pack_unsigned_refines
        cw_pack_signed_refines cw_pack_str_refines cw_pack_bin_refines cw_pack_ext_refines)
  then show ?thesis using fit by (simp add: pack_bytes_def)
qed

lemma emit_simps [simp]:
  "pc_start (emit bs s) = pc_start s" "pc_end (emit bs s) = pc_end s"
  "return_code (emit bs s) = return_code s" "be_compatible (emit bs s) = be_compatible s"
  "pc_current (emit bs s) = pc_current s + of_nat (length bs)"
  "pmem (emit bs s) = mem_write (pmem s) (pc_current s) bs"
  by (simp_all add: emit_def)

lemma emit_advance:
  assumes "pack_room old (length bs + n) s"
  shows "unat (pc_current (emit bs s)) = unat (pc_current s) + length bs" "pack_room old n (emit bs s)"
proof -
  have "unat (pc_current s) + length bs < 2 ^ 32"
    using assms unsigned_less [of "pc_end s", where ?'a = nat] by (simp add: pack_room_def)
  then show u: "unat (pc_current (emit bs s)) = unat (pc_current s) + length bs"
    by (simp add: unat_word_ariths unat_of_nat)
  show "pack_room old n (emit bs s)"
    using assms u by (simp add: pack_room_def word_le_nat_alt del: emit_simps(5))
qed

lemma emit_packed_bytes:
  assumes "pack_room old (length bs + n) s"
  shows "packed_bytes (emit bs s) = packed_bytes s @ bs"
proof -
  let ?k = "unat (pc_current s - pc_start s)"
  have c: "pc_start s \<le> pc_current s" "unat (pc_current s) + length bs \<le> unat (pc_end s)"
    using assms by (simp_all add: pack_room_def)
  have k: "?k = unat (pc_current s) - unat (pc_start s)" using c(1) by (simp add: unat_sub)
  have "pc_start s \<le> pc_current (emit bs s)"
    using c emit_advance(1) [OF assms] by (simp add: word_le_nat_alt)
  then have len: "unat (pc_current (emit bs s) - pc_start s) = ?k + length bs"
    using emit_advance(1) [OF assms] c(1) k by (simp add: unat_sub word_le_nat_alt)
  have small: "unat (pc_current s) + length bs < 2 ^ 32"
    using c(2) unsigned_less [of "pc_end s", where ?'a = nat] by simp
  have "bytes_at (mem_write (pmem s) (pc_current s) bs) (pc_start s) ?k = bytes_at (pmem s) (pc_start s) ?k"
  proof (rule bytes_at_disjoint)
    fix i assume i: "i < ?k"
    then have iu: "unat (pc_start s + of_nat i) = unat (pc_start s) + i"
      using k small by (simp add: unat_word_ariths unat_of_nat)
    then have "unat (pc_start s + of_nat i - pc_current s) =
        unat (pc_start s) + i + 2 ^ 32 - unat (pc_current s)"
      using i k by (simp add: unat_sub_if')
    then show "length bs \<le> unat (pc_start s + of_nat i - pc_current s)"
      using small i k by linarith
  qed
  moreover have "pc_start s + of_nat ?k = pc_current s" by simp
  ultimately show ?thesis
    using len small
    by (simp add: packed_bytes_def bytes_at_add bytes_at_mem_write del: emit_simps(5) of_nat_unat)
qed

lemma outside_mem:
  assumes "outside s v l" "pc_start s \<le> pc_current s" "unat (pc_current s) + length bs \<le> unat (pc_end s)"
  shows "bytes_at (mem_write (pmem s) (pc_current s) bs) v (unat l) = bytes_at (pmem s) v (unat l)"
  using outside_apart [OF assms] by (intro bytes_at_disjoint) (simp add: apart_def)

lemma emit_denotes:
  assumes "call_denotes s c x" "pack_room old (length bs + n) s"
  shows "call_denotes (emit bs s) c x"
  using assms by (cases c) (auto simp: call_denotes_def outside_def pack_room_def
      intro!: outside_mem [unfolded outside_def])

lemma reopen_at_input:
  assumes "pack_room old 0 s"
  shows "at_input (packed_bytes s) (reopen ty a s)"
proof -
  have "pc_start s \<le> pc_current s" using assms by (simp add: pack_room_def)
  then have "unat (pc_current s - pc_start s) = unat (pc_current s) - unat (pc_start s)"
    by (simp add: unat_sub)
  then show ?thesis using \<open>pc_start s \<le> pc_current s\<close>
    by (simp add: at_input_def reopen_def cw_unpack_context_init_def packed_bytes_def
        test_byte_order_def load32_def CWP_RC_OK_def word_le_nat_alt)
qed

lemma call_denotes_wf: "call_denotes s c x \<Longrightarrow> wf_item x"
  by (cases c) (auto simp: call_denotes_def)

lemma decode_stream:
  assumes "wf_item x" "at_input (encode old x @ bs) s"
  shows "item_view (cw_unpack_next huu s) = Some (canon old x)"
    and "at_input bs (cw_unpack_next huu s)"
proof -
  have "at_input (encode old x) s"
    using assms(2) at_input_append(1,2) [OF assms(2)] by (simp add: at_input_def)
  from decode_item [OF assms(1) this, of huu]
  have u: "unpacked (canon old x) (length (encode old x)) s (cw_unpack_next huu s)" .
  then show "item_view (cw_unpack_next huu s) = Some (canon old x)" by (simp add: unpacked_def)
  show "at_input bs (cw_unpack_next huu s)"
    using at_input_append(3) [OF assms(2)] u by (simp add: at_input_def unpacked_def)
qed

interpretation cw: codec "pack_call None" packed_bytes "pack_room old" call_denotes "encode old"
  "cw_unpack_next huu" at_input item_view "canon old" wf_item "reopen ty a"
  for old huu ty a
proof unfold_locales
  fix w c x n assume d: "call_denotes w c x" and r: "pack_room old (length (encode old x) + n) w"
  then have e: "pack_call None c w = emit (encode old x) w"
    by (intro pack_call_refines) (simp_all add: pack_room_def)
  show "packed_bytes (pack_call None c w) = packed_bytes w @ encode old x"
    "pack_room old n (pack_call None c w)"
    "call_denotes w c' x' \<Longrightarrow> call_denotes (pack_call None c w) c' x'" for c' x'
    using r by (simp_all add: e emit_packed_bytes emit_advance emit_denotes)
qed (auto intro: reopen_at_input call_denotes_wf decode_stream)

section \<open>The property\<close>

text \<open>C1. Any sequence of packing calls whose encodings fit into the buffer succeeds, and as many
  calls of \<open>cw_unpack_next\<close> on the bytes written return exactly the items the calls denote
  (in compatibility mode a binary blob comes back as a string).\<close>

theorem pack_unpack_round_trip:
  assumes "unat data + unat len < 2 ^ 32"
    and "w = cw_pack_set_compatibility old (snd (cw_pack_context_init m data len))"
    and "\<forall>c \<in> set cs. call_ok w c"
    and "length (concat (map (encode old \<circ> call_item m) cs)) \<le> unat len"
  shows "return_code (fold (pack_call None) cs w) = CWP_RC_OK \<and>
    read_items (cw_unpack_next huu) item_view (length cs) (reopen ty a (fold (pack_call None) cs w)) =
      map (Some \<circ> canon old \<circ> call_item m) cs"
proof -
  have "unat (data + len) = unat data + unat len" using assms(1) by (simp add: unat_word_ariths)
  then have r: "pack_room old (length (concat (map (encode old) (map (call_item m) cs)))) w"
    using assms(2,4) by (simp add: pack_room_def cw_pack_set_compatibility_def
        cw_pack_context_init_def test_byte_order_def load32_def CWP_RC_OK_def)
  have d: "list_all2 (call_denotes w) cs (map (call_item m) cs)"
    using assms(2,3) by (auto simp: list_all2_map2 list_all2_same call_denotes_def
        cw_pack_set_compatibility_def cw_pack_context_init_def)
  have o: "packed_bytes w = []"
    using assms(2) by (simp add: packed_bytes_def cw_pack_set_compatibility_def cw_pack_context_init_def)
  from cw.round_trip [OF d r o] show ?thesis
    by (simp add: pack_room_def CWP_RC_OK_def comp_assoc)
qed

theorem pack_unpack_round_trip_witness:
  "let m = (\<lambda>_. 0x41); w = cw_pack_set_compatibility True (snd (cw_pack_context_init m 0x1000 64));
     cs = [PMap 1, PBin 0x100 2, PSigned (-5), PDouble 0x400921fb54442d18] in
   return_code (fold (pack_call None) cs w) = CWP_RC_OK \<and>
   read_items (cw_unpack_next None) item_view (length cs)
      (reopen 0 \<lparr>as_lo = 0, as_hi = 0\<rparr> (fold (pack_call None) cs w)) =
     [Some (MMap 1), Some (MStr [0x41, 0x41]), Some (MNeg (-5)), Some (MDouble 0x400921fb54442d18)]"
proof -
  have "\<forall>i < unat (2 :: u32). 64 \<le> unat (0x100 + of_nat i - 0x1000 :: addr)"
    by (auto simp: less_2_cases_iff)
  then show ?thesis
    using pack_unpack_round_trip [where m = "\<lambda>_. 0x41" and data = "0x1000" and len = 64 and old = True
        and cs = "[PMap 1, PBin 0x100 2, PSigned (-5), PDouble 0x400921fb54442d18]" and huu = None
        and ty = 0 and a = "\<lparr>as_lo = 0, as_hi = 0\<rparr>", OF _ refl]
    by (simp add: cw_pack_set_compatibility_def cw_pack_context_init_def outside_def apart_def
        enc_map_def enc_str_def enc_neg_def bytes_at_small)
qed

end
