(* ===== verification/CWSkip.thy ===== *)
theory CWSkip
  imports CWCodec
begin

text \<open>
  Skipping items: \<open>cw_skip_items\<close> reads only the headers of items, so it is a faster version of
  unpacking items one by one and counting the elements of the containers met. The lemmas relate
  one round of its loop to one call of \<open>cw_unpack_next\<close> and show where it stops on the encoding
  of any tree of values.
\<close>

section \<open>One round of the loop and one unpacked item\<close>

text \<open>The number of further items a container announces.\<close>

definition announced :: "unpack_state \<Rightarrow> u32" where
  "announced s = (if it_type s = CWP_ITEM_ARRAY then as_lo (it_as s)
                  else if it_type s = CWP_ITEM_MAP then 2 * as_lo (it_as s) else 0)"

definition space_ok :: "u32 \<Rightarrow> unpack_state \<Rightarrow> bool" where
  "space_ok n s \<longleftrightarrow> uc_current s + n \<le> uc_end s"

lemma assert_space_None:
  "cw_unpack_assert_space None rc n s =
     (if space_ok (n s) s then Inr (uc_current s, s\<lparr>uc_current := uc_current s + n s\<rparr>)
      else Inl (UNPACK_ERROR rc s))"
  by (simp add: cw_unpack_assert_space_def space_ok_def Let_def not_less [symmetric])

lemma skip_None:
  "cw_skip_bytes None n s =
     (if space_ok n s then Inr (0, s\<lparr>uc_current := uc_current s + n\<rparr>)
      else Inl (UNPACK_ERROR CWP_RC_BUFFER_UNDERFLOW s))"
  "skip_load None n ld k s =
     (if space_ok n s then k (ld (umem s) (uc_current s)) (s\<lparr>uc_current := uc_current s + n\<rparr>)
      else Inl (UNPACK_ERROR CWP_RC_BUFFER_UNDERFLOW s))"
  by (simp_all add: cw_skip_bytes_def skip_load_def assert_space_None)

lemma space_ok_frame [simp]:
  "space_ok n (s\<lparr>it_type := t\<rparr>) = space_ok n s"
  "space_ok n (s\<lparr>it_as := a\<rparr>) = space_ok n s"
  by (simp_all add: space_ok_def)

lemma underflow_rc [simp]:
  "uc_return_code (UNPACK_ERROR e s) = e" "CWP_RC_BUFFER_UNDERFLOW \<noteq> 0" "CWP_RC_MALFORMED_INPUT \<noteq> 0"
  "CWP_RC_END_OF_INPUT \<noteq> 0"
  by (simp_all add: UNPACK_ERROR_def rc_defs)

text \<open>The item readers that end a \<open>case\<close>, with their bounds checks made explicit.\<close>

lemma readers_None:
  "cw_unpack_assert_blob None s =
     (if space_ok (as_hi (it_as s)) s
      then s\<lparr>uc_current := uc_current s + as_hi (it_as s), it_as := (it_as s)\<lparr>as_lo := uc_current s\<rparr>\<rparr>
      else UNPACK_ERROR CWP_RC_BUFFER_UNDERFLOW s)"
  "getDDItem1 None typ f1 k s =
     (if space_ok 1 s
      then k (s\<lparr>it_type := typ, uc_current := uc_current s + 1, it_as := f1 (umem s (uc_current s)) (it_as s)\<rparr>)
      else UNPACK_ERROR CWP_RC_BUFFER_UNDERFLOW (s\<lparr>it_type := typ\<rparr>))"
  "getDDItem2 None typ f2 k s =
     (if space_ok 2 s
      then k (s\<lparr>it_type := typ, uc_current := uc_current s + 2,
              it_as := f2 (cw_load16 (umem s) (uc_current s)) (it_as s)\<rparr>)
      else UNPACK_ERROR CWP_RC_BUFFER_UNDERFLOW (s\<lparr>it_type := typ\<rparr>))"
  "getDDItem4 None typ f4 k s =
     (if space_ok 4 s
      then k (s\<lparr>it_type := typ, uc_current := uc_current s + 4,
              it_as := f4 (cw_load32 (umem s) (uc_current s)) (it_as s)\<rparr>)
      else UNPACK_ERROR CWP_RC_BUFFER_UNDERFLOW (s\<lparr>it_type := typ\<rparr>))"
  "getDDItem8 None typ k s =
     (if space_ok 8 s
      then k (s\<lparr>it_type := typ, uc_current := uc_current s + 8,
              it_as := set_u64 (cw_load64 (umem s) (uc_current s)) (it_as s)\<rparr>)
      else UNPACK_ERROR CWP_RC_BUFFER_UNDERFLOW (s\<lparr>it_type := typ\<rparr>))"
  "get_ext_type None k s =
     (if space_ok 1 s
      then k (s\<lparr>uc_current := uc_current s + 1, it_type := sint (umem s (uc_current s))\<rparr>)
      else UNPACK_ERROR CWP_RC_BUFFER_UNDERFLOW s)"
  by (simp_all add: cw_unpack_assert_blob_def getDDItem1_def getDDItem2_def getDDItem4_def
      getDDItem8_def get_ext_type_def with_bytes_def assert_space_None)

lemma ext_type_no_container [simp]: "sint (t :: u8) \<noteq> 308" "sint (t :: u8) \<noteq> 309"
  using sint_byte [of t] by auto

lemma below_byte:
  "c \<le> k \<Longrightarrow> k < j \<Longrightarrow> \<not> j \<le> (c :: u8)"
  "c \<le> k \<Longrightarrow> k < j \<Longrightarrow> c \<noteq> (j :: u8)"
  by auto

lemma tag_cases:
  obtains "c \<le> 0x7f" | "0x80 \<le> c" "c \<le> 0x8f" | "0x90 \<le> c" "c \<le> 0x9f" | "0xa0 \<le> c" "c \<le> 0xbf"
  | "c \<in> {0xc0, 0xc1, 0xc2, 0xc3, 0xc4, 0xc5, 0xc6, 0xc7, 0xc8, 0xc9, 0xca, 0xcb, 0xcc, 0xcd, 0xce, 0xcf}"
  | "c \<in> {0xd0, 0xd1, 0xd2, 0xd3, 0xd4, 0xd5, 0xd6, 0xd7, 0xd8, 0xd9, 0xda, 0xdb, 0xdc, 0xdd, 0xde, 0xdf}"
  | "0xe0 \<le> (c :: u8)"
proof -
  have "c \<in> of_nat ` set [192..<224]" if "192 \<le> unat c" "unat c < 224"
  proof -
    have "c = of_nat (unat c)" by simp
    moreover have "unat c \<in> set [192..<224]" using that unfolding set_upt by simp
    ultimately show ?thesis by blast
  qed
  moreover have "(of_nat ` set [192..<224] :: u8 set) =
    {0xd0, 0xd1, 0xd2, 0xd3, 0xd4, 0xd5, 0xd6, 0xd7, 0xd8, 0xd9, 0xda, 0xdb, 0xdc, 0xdd, 0xde, 0xdf} \<union>
    {0xc0, 0xc1, 0xc2, 0xc3, 0xc4, 0xc5, 0xc6, 0xc7, 0xc8, 0xc9, 0xca, 0xcb, 0xcc, 0xcd, 0xce, 0xcf}"
    by (simp add: upt_rec)
  ultimately have mid: "192 \<le> unat c \<Longrightarrow> unat c < 224 \<Longrightarrow>
    c \<in> {0xc0, 0xc1, 0xc2, 0xc3, 0xc4, 0xc5, 0xc6, 0xc7, 0xc8, 0xc9, 0xca, 0xcb, 0xcc, 0xcd, 0xce, 0xcf} \<or>
    c \<in> {0xd0, 0xd1, 0xd2, 0xd3, 0xd4, 0xd5, 0xd6, 0xd7, 0xd8, 0xd9, 0xda, 0xdb, 0xdc, 0xdd, 0xde, 0xdf}"
    by blast
  consider "unat c \<le> 0x7f" | "0x80 \<le> unat c" "unat c \<le> 0x8f" | "0x90 \<le> unat c" "unat c \<le> 0x9f"
    | "0xa0 \<le> unat c" "unat c \<le> 0xbf" | "192 \<le> unat c" "unat c < 224" | "0xe0 \<le> unat c"
    by linarith
  then show ?thesis
  proof cases
    case 5
    then show ?thesis using mid that(5,6) by blast
  qed (use that(1,2,3,4,7) in \<open>simp_all add: word_le_nat_alt\<close>)
qed

lemma skip_tags:
  "cw_skip_switch huu 0xc0 s = Inr (0, s)" "cw_skip_switch huu 0xc2 s = Inr (0, s)"
  "cw_skip_switch huu 0xc3 s = Inr (0, s)"
  "cw_skip_switch huu 0xc4 s = skip_load huu 1 ld8 (cw_skip_bytes huu) s"
  "cw_skip_switch huu 0xc5 s = skip_load huu 2 ld16 (cw_skip_bytes huu) s"
  "cw_skip_switch huu 0xc6 s = skip_load huu 4 cw_load32 (cw_skip_bytes huu) s"
  "cw_skip_switch huu 0xc7 s = skip_load huu 1 ld8 (\<lambda>v. cw_skip_bytes huu (v + 1)) s"
  "cw_skip_switch huu 0xc8 s = skip_load huu 2 ld16 (\<lambda>v. cw_skip_bytes huu (v + 1)) s"
  "cw_skip_switch huu 0xc9 s = skip_load huu 4 cw_load32 (\<lambda>v. cw_skip_bytes huu (v + 1)) s"
  "cw_skip_switch huu 0xca s = cw_skip_bytes huu 4 s" "cw_skip_switch huu 0xcb s = cw_skip_bytes huu 8 s"
  "cw_skip_switch huu 0xcc s = cw_skip_bytes huu 1 s" "cw_skip_switch huu 0xcd s = cw_skip_bytes huu 2 s"
  "cw_skip_switch huu 0xce s = cw_skip_bytes huu 4 s" "cw_skip_switch huu 0xcf s = cw_skip_bytes huu 8 s"
  "cw_skip_switch huu 0xd0 s = cw_skip_bytes huu 1 s" "cw_skip_switch huu 0xd1 s = cw_skip_bytes huu 2 s"
  "cw_skip_switch huu 0xd2 s = cw_skip_bytes huu 4 s" "cw_skip_switch huu 0xd3 s = cw_skip_bytes huu 8 s"
  "cw_skip_switch huu 0xd4 s = cw_skip_bytes huu 2 s" "cw_skip_switch huu 0xd5 s = cw_skip_bytes huu 3 s"
  "cw_skip_switch huu 0xd6 s = cw_skip_bytes huu 5 s" "cw_skip_switch huu 0xd7 s = cw_skip_bytes huu 9 s"
  "cw_skip_switch huu 0xd8 s = cw_skip_bytes huu 17 s"
  "cw_skip_switch huu 0xd9 s = skip_load huu 1 ld8 (cw_skip_bytes huu) s"
  "cw_skip_switch huu 0xda s = skip_load huu 2 ld16 (cw_skip_bytes huu) s"
  "cw_skip_switch huu 0xdb s = skip_load huu 4 cw_load32 (cw_skip_bytes huu) s"
  "cw_skip_switch huu 0xdc s = skip_load huu 2 ld16 (\<lambda>v s. Inr (v, s)) s"
  "cw_skip_switch huu 0xdd s = skip_load huu 4 cw_load32 (\<lambda>v s. Inr (v, s)) s"
  "cw_skip_switch huu 0xde s = skip_load huu 2 ld16 (\<lambda>v s. Inr (2 * v, s)) s"
  "cw_skip_switch huu 0xdf s = skip_load huu 4 cw_load32 (\<lambda>v s. Inr (2 * v, s)) s"
  by (simp_all add: cw_skip_switch_def)

lemma switch_malformed: "cw_unpack_switch huu 0xc1 s = UNPACK_ERROR CWP_RC_MALFORMED_INPUT s"
  by (simp add: cw_unpack_switch_def)

lemma low_tag:
  assumes "c \<le> 0x7f"
  shows "cw_skip_switch huu c s = Inr (0, s)"
    and "cw_unpack_switch huu c s = getDDItem CWP_ITEM_POSITIVE_INTEGER (set_u64 (ucast c)) s"
  using assms by (simp_all add: cw_unpack_switch_def cw_skip_switch_def)

lemma high_tag:
  assumes "0xe0 \<le> c"
  shows "cw_skip_switch huu c s = Inr (0, s)"
    and "cw_unpack_switch huu c s = getDDItem CWP_ITEM_NEGATIVE_INTEGER (set_u64 (scast c)) s"
  using assms by (simp_all add: cw_unpack_switch_def cw_skip_switch_def above_byte [OF assms])

lemma fixmap_tag:
  assumes "0x80 \<le> c" "c \<le> 0x8f"
  shows "cw_skip_switch huu c s = Inr (2 * (ucast c AND 15), s)"
    and "cw_unpack_switch huu c s = getDDItem CWP_ITEM_MAP (set_size (ucast c AND 0x0f)) s"
  using assms by (simp_all add: cw_unpack_switch_def cw_skip_switch_def above_byte [OF assms(1)]
      below_byte [OF assms(2)])

lemma fixarray_tag:
  assumes "0x90 \<le> c" "c \<le> 0x9f"
  shows "cw_skip_switch huu c s = Inr (ucast c AND 15, s)"
    and "cw_unpack_switch huu c s = getDDItem CWP_ITEM_ARRAY (set_size (ucast c AND 0x0f)) s"
  using assms by (simp_all add: cw_unpack_switch_def cw_skip_switch_def above_byte [OF assms(1)]
      below_byte [OF assms(2)])

lemma fixstr_range_tag:
  assumes "0xa0 \<le> c" "c \<le> 0xbf"
  shows "cw_skip_switch huu c s = cw_skip_bytes huu (ucast c AND 0x1f) s"
    and "cw_unpack_switch huu c s =
      cw_unpack_assert_blob huu (getDDItem CWP_ITEM_STR (set_length (ucast c AND 0x1f)) s)"
  using assms by (simp_all add: cw_unpack_switch_def cw_skip_switch_def above_byte [OF assms(1)]
      below_byte [OF assms(2)])

lemmas range_tags = low_tag high_tag fixmap_tag fixarray_tag fixstr_range_tag

lemmas agree_simps = switch_tags switch_blob_tags switch_malformed skip_tags readers_None skip_None
  getDDItem_def announced_def item_defs getDDItemFix_def fix_sign_def set_size_def set_length_def
  set_boolean_def space_ok_def add.assoc add.commute add.left_commute

lemma skip_agrees:
  assumes "uc_return_code (cw_unpack_switch None c s) = 0"
  shows "cw_skip_switch None c s = Inr (announced (cw_unpack_switch None c s),
           s\<lparr>uc_current := uc_current (cw_unpack_switch None c s)\<rparr>)"
proof (cases rule: tag_cases [of c])
  case 5
  then show ?thesis using assms by (elim insertE emptyE; simp add: agree_simps split: if_split_asm)
next
  case 6
  then show ?thesis using assms by (elim insertE emptyE; simp add: agree_simps split: if_split_asm)
qed (use assms in \<open>simp_all add: range_tags agree_simps split: if_splits\<close>)

text \<open>The reference: unpack item by item, keeping count of what is left to read.\<close>

fun skip_by_unpacking :: "nat \<Rightarrow> u32 \<Rightarrow> unpack_state \<Rightarrow> unpack_state option" where
  "skip_by_unpacking 0 n s = None"
| "skip_by_unpacking (Suc fuel) n s =
     (if \<not> sint n > 0 then Some s
      else let s' = cw_unpack_next None s in
        if uc_return_code s' \<noteq> 0 then Some s' else skip_by_unpacking fuel (n - 1 + announced s') s')"

text \<open>Skipping looks at the position and the input only, not at the previous item.\<close>

definition same_input :: "unpack_state \<Rightarrow> unpack_state \<Rightarrow> bool" where
  "same_input s t \<longleftrightarrow> uc_current t = uc_current s \<and> uc_end t = uc_end s \<and> umem t = umem s"

lemma same_input_space: "same_input s t \<Longrightarrow> space_ok n t = space_ok n s"
  by (simp add: same_input_def space_ok_def)

lemma position_eq [simp]:
  fixes s :: unpack_state
  shows "(s\<lparr>uc_current := p\<rparr> = s\<lparr>uc_current := q\<rparr>) = (p = q)" "(s = s\<lparr>uc_current := p\<rparr>) = (uc_current s = p)"
proof -
  have "uc_current (s\<lparr>uc_current := p\<rparr>) = p" for p by simp
  then show "(s\<lparr>uc_current := p\<rparr> = s\<lparr>uc_current := q\<rparr>) = (p = q)" by metis
  show "(s = s\<lparr>uc_current := p\<rparr>) = (uc_current s = p)" by (cases s) auto
qed

lemma skip_frame:
  assumes "cw_skip_switch None c s = Inr (d, s\<lparr>uc_current := p\<rparr>)" "same_input s t"
  shows "cw_skip_switch None c t = Inr (d, t\<lparr>uc_current := p\<rparr>)"
proof (cases rule: tag_cases [of c])
  case 5
  then show ?thesis using assms
    by (elim insertE emptyE; simp add: skip_tags skip_None same_input_def space_ok_def
        cw_skip_switch_def [of _ "0xc1"] split: if_split_asm)
next
  case 6
  then show ?thesis using assms
    by (elim insertE emptyE; simp add: skip_tags skip_None same_input_def space_ok_def split: if_split_asm)
qed (use assms in \<open>simp_all add: range_tags skip_None same_input_def space_ok_def split: if_splits\<close>)

lemma skip_round:
  assumes "uc_return_code s = 0" "uc_return_code (cw_unpack_next None s) = 0" "sint n > 0" "same_input s t"
  shows "cw_skip_loop None (Suc fuel) n t = cw_skip_loop None fuel (n - 1 + announced (cw_unpack_next None s))
           (t\<lparr>uc_current := uc_current (cw_unpack_next None s)\<rparr>)"
proof -
  let ?s = "s\<lparr>uc_current := uc_current s + 1\<rparr>" and ?t = "t\<lparr>uc_current := uc_current t + 1\<rparr>"
  let ?c = "umem s (uc_current s)"
  have ok: "space_ok 1 s" and u: "cw_unpack_next None s = cw_unpack_switch None ?c ?s"
    using assms(1,2) by (auto simp: cw_unpack_next_def with_bytes_def assert_space_None split: if_splits)
  have "same_input ?s ?t" using assms(4) by (simp add: same_input_def)
  moreover have "cw_skip_switch None ?c ?s = Inr (announced (cw_unpack_next None s),
      ?s\<lparr>uc_current := uc_current (cw_unpack_next None s)\<rparr>)"
    using skip_agrees [of ?c ?s] assms(2) by (simp add: u)
  ultimately have "cw_skip_switch None ?c ?t = Inr (announced (cw_unpack_next None s),
      ?t\<lparr>uc_current := uc_current (cw_unpack_next None s)\<rparr>)"
    by (rule skip_frame [of ?c ?s, rotated])
  then show ?thesis
    using assms(3,4) ok same_input_space [OF assms(4)]
    by (simp add: assert_space_None same_input_def)
qed

text \<open>Without error, unpacking keeps the buffer, so the positions stay in step.\<close>

lemmas kept_simps = switch_tags switch_blob_tags switch_malformed readers_None getDDItem_def
  getDDItemFix_def fix_sign_def UNPACK_ERROR_def

lemma unpack_input_kept:
  "uc_end (cw_unpack_next None s) = uc_end s" "umem (cw_unpack_next None s) = umem s"
  "uc_start (cw_unpack_next None s) = uc_start s"
proof -
  have "uc_end (cw_unpack_switch None c s) = uc_end s \<and> umem (cw_unpack_switch None c s) = umem s \<and>
      uc_start (cw_unpack_switch None c s) = uc_start s" for c s
  proof (cases rule: tag_cases [of c])
    case 5
    then show ?thesis
      by (elim insertE emptyE; simp add: kept_simps)
  next
    case 6
    then show ?thesis
      by (elim insertE emptyE; simp add: kept_simps)
  qed (simp_all add: range_tags kept_simps)
  then show "uc_end (cw_unpack_next None s) = uc_end s" "umem (cw_unpack_next None s) = umem s"
    "uc_start (cw_unpack_next None s) = uc_start s"
    by (simp_all add: cw_unpack_next_def with_bytes_def assert_space_None UNPACK_ERROR_def)
qed

lemma skip_simulates:
  assumes "skip_by_unpacking fuel n s = Some s'" "uc_return_code s = 0" "uc_return_code s' = 0"
    "same_input s t"
  shows "cw_skip_loop None fuel n t = Some (t\<lparr>uc_current := uc_current s'\<rparr>)"
  using assms
proof (induction fuel n s arbitrary: t rule: skip_by_unpacking.induct)
  case (2 fuel n s)
  show ?case
  proof (cases "sint n > 0")
    case False
    then show ?thesis using 2 by (simp add: same_input_def)
  next
    case True
    let ?u = "cw_unpack_next None s"
    have u: "uc_return_code ?u = 0"
      using "2.prems"(1,3) True by (auto simp: Let_def split: if_splits)
    have "skip_by_unpacking fuel (n - 1 + announced ?u) ?u = Some s'"
      using "2.prems"(1) True u by (simp add: Let_def)
    moreover have "same_input ?u (t\<lparr>uc_current := uc_current ?u\<rparr>)"
      using "2.prems"(4) by (simp add: same_input_def unpack_input_kept)
    ultimately show ?thesis
      using "2.IH" [of ?u] True u "2.prems"(3) skip_round [OF "2.prems"(2) u True "2.prems"(4)] by simp
  qed
qed simp

section \<open>Trees of values\<close>

datatype mp_value = VItem mp_item | VArray "mp_value list" | VMap "(mp_value \<times> mp_value) list"

fun flat :: "mp_value \<Rightarrow> mp_item list" where
  "flat (VItem x) = [x]"
| "flat (VArray vs) = MArray (of_nat (length vs)) # concat (map flat vs)"
| "flat (VMap kvs) = MMap (of_nat (length kvs)) # concat (map (\<lambda>(k, v). flat k @ flat v) kvs)"

fun leaf :: "mp_item \<Rightarrow> bool" where
  "leaf (MArray n) = False" | "leaf (MMap n) = False" | "leaf x = wf_item x"

fun wf_value :: "mp_value \<Rightarrow> bool" where
  "wf_value (VItem x) = leaf x"
| "wf_value (VArray vs) = list_all wf_value vs"
| "wf_value (VMap kvs) = list_all (\<lambda>(k, v). wf_value k \<and> wf_value v) kvs"

text \<open>Items of a sequence still to be read when \<open>n\<close> values were asked for.\<close>

fun announces :: "mp_item \<Rightarrow> nat" where
  "announces (MArray n) = unat n" | "announces (MMap n) = 2 * unat n" | "announces x = 0"

fun complete :: "nat \<Rightarrow> mp_item list \<Rightarrow> bool" where
  "complete n [] = (n = 0)"
| "complete 0 (x # xs) = False"
| "complete (Suc n) (x # xs) = complete (n + announces x) xs"

lemma complete_append: "complete m xs \<Longrightarrow> complete n ys \<Longrightarrow> complete (m + n) (xs @ ys)"
proof (induction m xs rule: complete.induct)
  case (3 m x xs)
  then have "complete (m + announces x + n) (xs @ ys)" by simp
  then show ?case by (simp add: add.commute add.left_commute)
qed simp_all

lemma complete_concat:
  assumes "\<And>xs. xs \<in> set xss \<Longrightarrow> complete k xs"
  shows "complete (k * length xss) (concat xss)"
  using assms by (induction xss) (auto intro: complete_append)

lemma complete_le: "complete n xs \<Longrightarrow> n \<le> length xs"
  by (induction n xs rule: complete.induct) auto

lemma flat_pos: "length (flat v) > 0"
  by (cases v) simp_all

lemma length_concat_le:
  assumes "\<And>xs. xs \<in> set xss \<Longrightarrow> xs \<noteq> []"
  shows "length xss \<le> length (concat xss)" "xs \<in> set xss \<Longrightarrow> length xs \<le> length (concat xss)"
proof -
  show "length xss \<le> length (concat xss)" using assms
  proof (induction xss)
    case (Cons a xss)
    then have "length xss \<le> length (concat xss)" "a \<noteq> []" by simp_all
    then show ?case by (cases a) simp_all
  qed simp
  show "xs \<in> set xss \<Longrightarrow> length xs \<le> length (concat xss)" by (induction xss) auto
qed

lemma complete_flat:
  assumes "wf_value v" "length (flat v) < 2 ^ 31"
  shows "complete 1 (flat v)"
  using assms
proof (induction v)
  case (VItem x)
  then show ?case by (cases x) simp_all
next
  case (VArray vs)
  let ?xss = "map flat vs"
  have ne: "\<And>xs. xs \<in> set ?xss \<Longrightarrow> xs \<noteq> []" using flat_pos by (auto simp del: length_greater_0_conv simp flip: length_greater_0_conv)
  note le = length_concat_le [of ?xss, OF ne]
  have "complete (1 * length ?xss) (concat ?xss)"
  proof (rule complete_concat)
    fix xs assume "xs \<in> set ?xss"
    then obtain v where v: "v \<in> set vs" "xs = flat v" by auto
    then show "complete 1 xs" using VArray le(2) [of xs] by (auto simp: list_all_iff)
  qed
  moreover have "length vs < 2 ^ 32" using le(1) VArray.prems(2) by simp
  ultimately show ?case by (simp add: unat_of_nat)
next
  case (VMap kvs)
  let ?xss = "map (\<lambda>(k, v). flat k @ flat v) kvs"
  have ne: "\<And>xs. xs \<in> set ?xss \<Longrightarrow> xs \<noteq> []" using flat_pos by (auto simp del: length_greater_0_conv simp flip: length_greater_0_conv)
  note le = length_concat_le [of ?xss, OF ne]
  have "complete (2 * length ?xss) (concat ?xss)"
  proof (rule complete_concat)
    fix xs assume xs: "xs \<in> set ?xss"
    then obtain k v where v: "(k, v) \<in> set kvs" "xs = flat k @ flat v" by auto
    then have "complete 1 (flat k)" "complete 1 (flat v)"
      using VMap le(2) [OF _ xs] by (fastforce simp: list_all_iff)+
    then show "complete 2 xs" using complete_append [of 1 "flat k" 1 "flat v"] v
      by (simp add: numeral_2_eq_2)
  qed
  moreover have "length kvs < 2 ^ 32" using le(1) VMap.prems(2) by simp
  ultimately show ?case by (simp add: unat_of_nat)
qed

lemma announced_view:
  assumes "item_view s = Some (canon old x)"
  shows "announced s = of_nat (announces x)"
  using assms
  by (cases x) (auto simp: item_view_def announced_def item_defs Let_def split: if_splits)

lemma sint_of_nat_small: "n < 2 ^ 31 \<Longrightarrow> sint (of_nat n :: u32) = int n"
  by (simp add: sint_cases unsigned_of_nat take_bit_nat_eq_self)

lemma skip_complete:
  assumes "complete n xs" "list_all wf_item xs" "at_input (concat (map (encode old) xs) @ rest) s"
    "length xs < 2 ^ 31" "length xs < fuel"
  shows "\<exists>s'. skip_by_unpacking fuel (of_nat n) s = Some s' \<and> at_input rest s' \<and>
     uc_current s' = uc_current s + of_nat (length (concat (map (encode old) xs)))"
  using assms
proof (induction xs arbitrary: n s fuel)
  case Nil
  then obtain f where "fuel = Suc f" by (cases fuel) auto
  then show ?case using Nil by simp
next
  case (Cons x xs)
  then obtain f where f: "fuel = Suc f" "length xs < f" by (cases fuel) auto
  let ?u = "cw_unpack_next None s"
  have in1: "at_input (encode old x @ (concat (map (encode old) xs) @ rest)) s" and x: "wf_item x"
    using Cons.prems by simp_all
  have u: "item_view ?u = Some (canon old x)" "at_input (concat (map (encode old) xs) @ rest) ?u"
    using decode_stream [OF x in1] by simp_all
  have cur: "uc_current ?u = uc_current s + of_nat (length (encode old x))"
    using decode_item [OF x, of old s None] in1 at_input_append(1,2) [OF in1]
    by (simp add: at_input_def unpacked_def)
  obtain m where m: "n = Suc m" using Cons.prems(1) by (cases n) simp_all
  have n: "n \<le> Suc (length xs)" "complete (m + announces x) xs"
    using Cons.prems(1) complete_le [OF Cons.prems(1)] by (simp_all add: m)
  have "n < 2 ^ 31" using n(1) Cons.prems(4) by simp
  then have pos: "sint (of_nat n :: u32) > 0" by (simp only: sint_of_nat_small) (simp add: m)
  have cnt: "of_nat n - 1 + announced ?u = of_nat (m + announces x)"
    by (simp add: announced_view [OF u(1)] m)
  from Cons.IH [OF n(2) _ u(2) _ f(2)] Cons.prems(2,4)
  obtain s' where "skip_by_unpacking f (of_nat (m + announces x)) ?u = Some s'" "at_input rest s'"
    "uc_current s' = uc_current ?u + of_nat (length (concat (map (encode old) xs)))" by auto
  then show ?case using pos at_input_rc [OF u(2)]
    by (simp add: f(1) Let_def cur cnt del: of_nat_add) simp
qed

text \<open>The encoding of a tree of values, and skipping a run of them.\<close>

definition encode_values :: "bool \<Rightarrow> mp_value list \<Rightarrow> u8 list" where
  "encode_values old vs = concat (map (encode old) (concat (map flat vs)))"

lemma wf_flat: "wf_value v \<Longrightarrow> list_all wf_item (flat v)"
proof (induction v)
  case (VItem x)
  then show ?case by (cases x) simp_all
qed (fastforce simp: list_all_iff)+

lemma skip_values:
  assumes "list_all wf_value vs" "at_input (encode_values old vs @ rest) s"
    "length (concat (map flat vs)) < 2 ^ 31" "length (concat (map flat vs)) < fuel"
  shows "cw_skip_items None fuel (of_nat (length vs)) s =
     Some (s\<lparr>uc_current := uc_current s + of_nat (length (encode_values old vs))\<rparr>)"
proof -
  let ?xs = "concat (map flat vs)"
  have ne: "\<And>xs. xs \<in> set (map flat vs) \<Longrightarrow> xs \<noteq> []"
    using flat_pos by (auto simp del: length_greater_0_conv simp flip: length_greater_0_conv)
  have "complete 1 xs" if "xs \<in> set (map flat vs)" for xs
  proof -
    from that obtain v where v: "v \<in> set vs" "xs = flat v" by auto
    then have "wf_value v" using assms(1) by (simp add: list_all_iff)
    then show ?thesis using length_concat_le(2) [OF ne that] assms(3) v(2) complete_flat [of v] by simp
  qed
  then have "complete (1 * length (map flat vs)) ?xs" by (rule complete_concat)
  moreover have "list_all wf_item ?xs" using assms(1) wf_flat by (fastforce simp: list_all_iff)
  ultimately obtain s' where s': "skip_by_unpacking fuel (of_nat (length vs)) s = Some s'" "at_input rest s'"
      "uc_current s' = uc_current s + of_nat (length (encode_values old vs))"
    using skip_complete [of "length vs" ?xs old rest s fuel] assms(2-4)
    by (auto simp: encode_values_def)
  from skip_simulates [OF s'(1) at_input_rc [OF assms(2)] at_input_rc [OF s'(2)], of s]
  show ?thesis using at_input_rc [OF assms(2)] by (simp add: cw_skip_items_def same_input_def s'(3))
qed

section \<open>A length that wraps\<close>

text \<open>
  The six bytes of an array of two whose first element is a string of length \<open>2^32 - 6\<close>: the
  string's end wraps around to the array header, and the loop meets the same two headers for
  ever while \<open>item_count\<close> returns to the same value.
\<close>

definition wrapping_message :: "u8 list" where
  "wrapping_message = [0x92, 0xdb, 0xff, 0xff, 0xff, 0xfa]"

lemma space_okI:
  assumes "unat (uc_current s) + unat n \<le> unat (uc_end s)"
  shows "space_ok n s"
proof -
  have "unat (uc_current s) + unat n < 2 ^ 32"
    using assms unsigned_less [of "uc_end s", where ?'a = nat] by simp
  then show ?thesis using assms by (simp add: space_ok_def word_le_nat_alt unat_word_ariths)
qed

lemma wrap32: "(4294967296 :: u32) = 0"
  by simp

lemma wrap_loop:
  assumes "at_input wrapping_message s"
  shows "cw_skip_loop None fuel 1 s = None \<and>
    cw_skip_loop None fuel 2 (s\<lparr>uc_current := uc_current s + 1\<rparr>) = None"
proof (induction fuel)
  case (Suc fuel)
  let ?t = "s\<lparr>uc_current := uc_current s + 1\<rparr>"
  have "wrapping_message = [0x92] @ [0xdb] @ be32 (0xfffffffa :: u32)"
    by (simp add: wrapping_message_def be32_def)
  then have "at_input ([0x92] @ [0xdb] @ be32 (0xfffffffa :: u32)) s" using assms by simp
  note in1 = at_input_append [OF this] at_input_append [OF at_input_append(3) [OF this]]
  have ld: "bytes_at (umem s) (2 + uc_current s) 4 = be32 (0xfffffffa :: u32)"
    and b: "unat (2 + uc_current s) + 4 \<le> unat (uc_end s)"
    using in1(6) by (simp_all add: at_input_def)
  have "umem s (uc_current s) = 0x92" "umem s (uc_current s + 1) = 0xdb"
    using in1(1,4) by (simp_all add: bytes_at_Suc)
  moreover note cw_load_eqI(2) [OF ld]
  moreover have "space_ok 1 s" "space_ok 1 ?t" "space_ok 4 (s\<lparr>uc_current := 2 + uc_current s\<rparr>)"
    using in1(2,5) b by (auto intro!: space_okI)
  moreover have "space_ok 0xfffffffa (s\<lparr>uc_current := 6 + uc_current s\<rparr>)"
    using in1(2) by (simp add: space_ok_def word_le_nat_alt wrap32)
  moreover have "cw_skip_switch None 0x92 ?t = Inr (2, ?t)"
    using fixarray_tag(1) [of "0x92" None ?t] by simp
  ultimately show ?case using Suc
    by (simp add: assert_space_None skip_tags skip_None wrap32)
qed simp

end
