(* ===== verification/CWSafety.thy ===== *)
theory CWSafety
  imports CWSkip
begin

text \<open>
  Memory safety of the codec: packing writes only into the free part of the buffer and fails
  without a trace otherwise; unpacking stays inside the input unless a declared length wraps
  the address arithmetic; truncated and malformed input is reported.
\<close>

section \<open>Packing\<close>

text \<open>A write through the reserved pointer that touches only the next \<open>n\<close> bytes.\<close>

definition within :: "u32 \<Rightarrow> (addr \<Rightarrow> mem \<Rightarrow> mem) \<Rightarrow> bool" where
  "within n wr \<longleftrightarrow> (\<forall>p m a. unat n \<le> unat (a - p) \<longrightarrow> wr p m a = m a)"

fun call_length :: "pack_op \<Rightarrow> nat" where
  "call_length (PStr v l) = unat l" | "call_length (PBin v l) = unat l"
| "call_length (PExt t v l) = unat l" | "call_length _ = 3"

lemma withinI: "(\<And>p m a. unat n \<le> unat (a - p) \<Longrightarrow> wr p m a = m a) \<Longrightarrow> within n wr"
  by (simp add: within_def)

lemma within_write:
  assumes "\<And>p m. wr p m = mem_write m p (bs m)" "\<And>m. length (bs m) \<le> unat n"
  shows "within n wr"
proof (rule withinI)
  fix p a :: addr and m assume "unat n \<le> unat (a - p)"
  then show "wr p m a = m a" using assms(2) [of m] by (simp add: assms(1) mem_write_outside)
qed

lemma within_memcpy:
  assumes "\<And>p m. wr p m = memcpy (mem_write m p h) (p + of_nat (length h)) v (unat l)"
    "unat n = length h + unat l"
  shows "within n wr"
proof (rule withinI)
  fix p a :: addr and m assume a: "unat n \<le> unat (a - p)"
  have "unat (a - (p + of_nat (length h))) = unat (a - p) - length h"
    by (rule unat_shifted_diff) (use a assms(2) in simp)
  then show "wr p m a = m a" using a assms(2)
    by (simp add: assms(1) memcpy_def mem_write_outside)
qed

text \<open>The three ways a packing call can go.\<close>

definition call_shape :: "nat \<Rightarrow> pack_state \<Rightarrow> pack_state \<Rightarrow> bool" where
  "call_shape k s s' \<longleftrightarrow> s' = s \<or> (\<exists>e. e \<noteq> 0 \<and> s' = s\<lparr>return_code := e\<rparr>) \<or>
     (\<exists>n wr. s' = with_space None n wr s \<and> unat n \<le> k \<and> within n wr)"

lemma shapeI: "unat n \<le> k \<Longrightarrow> within n wr \<Longrightarrow> call_shape k s (with_space None n wr s)"
  by (auto simp: call_shape_def)

lemma shape_same [simp]: "call_shape k s s"
  by (simp add: call_shape_def)

lemma tryMove_shape:
  fixes d :: "'a::len word"
  shows "call_shape 9 s (tryMove0 None t s)" "call_shape 9 s (tryMove1 None t u s)"
    and "16 \<le> LENGTH('a) \<Longrightarrow> call_shape 9 s (tryMove2 None t d s)"
    and "32 \<le> LENGTH('a) \<Longrightarrow> call_shape 9 s (tryMove4 None t d s)"
    and "call_shape 9 s (tryMove8 None t e s)"
  unfolding tryMove0_def tryMove1_def tryMove2_def tryMove4_def tryMove8_def
      apply (rule shapeI, simp, rule within_write [where bs = "\<lambda>_. [t]"]; simp add: mem_write_single)
     apply (rule shapeI, simp, rule within_write [where bs = "\<lambda>_. [t, u]"]; simp add: mem_write_Cons)
    apply (rule shapeI, simp, rule within_write [where bs = "\<lambda>_. t # be16 d"];
      simp add: mem_write_Cons cw_store_write)
   apply (rule shapeI, simp, rule within_write [where bs = "\<lambda>_. t # be32 d"];
      simp add: mem_write_Cons cw_store_write)
  apply (rule shapeI, simp, rule within_write [where bs = "\<lambda>_. t # be64 e"];
      simp add: mem_write_Cons cw_store_write)
  done

lemma blob_shape:
  assumes "unat l + length h < 2 ^ 32" "k = of_nat (length h)" "length h \<le> 6"
    "\<And>p m. wr p m = memcpy (mem_write m p h) (p + k) v (unat l)"
  shows "call_shape (unat l + 6) s (with_space None (l + k) wr s)"
proof (rule shapeI)
  have n: "unat (l + k) = length h + unat l"
    using assms(1,2,3) by (simp add: unat_word_ariths unat_of_nat)
  then show "unat (l + k) \<le> unat l + 6" using assms(3) by simp
  show "within (l + k) wr" by (rule within_memcpy [OF _ n]) (simp add: assms(2,4))
qed

lemma str_shape:
  assumes "unat l + 6 < 2 ^ 32"
  shows "call_shape (unat l + 6) s (cw_pack_str None v l s)"
  using assms
  by (auto simp: cw_pack_str_def mem_write_Cons cw_store_write
       intro!: blob_shape [where h = "[ucast (0xa0 + l)]" and k = 1]
         blob_shape [where h = "[0xd9, ucast l]" and k = 2]
         blob_shape [where h = "0xda # be16 l" and k = 3] blob_shape [where h = "0xdb # be32 l" and k = 5])

lemma bin_shape:
  assumes "unat l + 6 < 2 ^ 32"
  shows "call_shape (unat l + 6) s (cw_pack_bin None v l s)"
  using assms
  by (auto simp: cw_pack_bin_def mem_write_Cons cw_store_write
       intro!: str_shape blob_shape [where h = "[0xc4, ucast l]" and k = 2]
         blob_shape [where h = "0xc5 # be16 l" and k = 3] blob_shape [where h = "0xc6 # be32 l" and k = 5])

lemma ext_shape:
  assumes "unat l + 6 < 2 ^ 32"
  shows "call_shape (unat l + 6) s (cw_pack_ext None t v l s)"
proof (cases "return_code s = 0 \<and> \<not> be_compatible s")
  case False
  moreover have "call_shape (unat l + 6) s (s\<lparr>return_code := CWP_RC_ILLEGAL_CALL\<rparr>)"
    unfolding call_shape_def by (intro disjI2 disjI1 exI [of _ CWP_RC_ILLEGAL_CALL]) (simp add: rc_defs)
  ultimately show ?thesis by (auto simp: cw_pack_ext_def)
next
  case True
  consider (small) c where "l \<in> {1, 2, 4, 8, 16}"
      "cw_pack_ext None t v l s = with_space None (l + 2)
         (\<lambda>p m. memcpy (mem_write m p [c, t]) (p + 2) v (unat l)) s"
    | (large) "l \<notin> {1, 2, 4, 8, 16}"
    using True
    by (cases "l \<in> {1, 2, 4, 8, 16}")
      (auto simp: cw_pack_ext_def mem_write_Cons memcpy_def bytes_at_Suc Let_def)
  then show ?thesis
  proof cases
    case small
    have "call_shape (unat l + 6) s (with_space None (l + 2)
         (\<lambda>p m. memcpy (mem_write m p [c, t]) (p + 2) v (unat l)) s)"
      by (rule blob_shape [where h = "[c, t]"]) (use assms in simp_all)
    then show ?thesis by (simp add: small(2))
  next
    case large
    have comm: "numeral k + p = p + numeral k" for k and p :: addr by (rule add.commute)
    show ?thesis using True assms large
      by (auto simp: cw_pack_ext_def mem_write_Cons cw_store_write mem_write_append [symmetric]
          mem_write_single comm
        intro!: blob_shape [where h = "[0xc7, ucast l, t]" and k = 3]
          blob_shape [where h = "0xc8 # be16 l @ [t]" and k = 4]
          blob_shape [where h = "0xc9 # be32 l @ [t]" and k = 6])
  qed
qed

lemma pack_call_shape:
  assumes "call_length c + 6 < 2 ^ 32"
  shows "call_shape (call_length c + 6) s (pack_call None c s)"
  using assms
  by (cases c) (auto simp: str_shape bin_shape ext_shape cw_pack_nil_def cw_pack_boolean_def
      cw_pack_unsigned_def cw_pack_signed_def cw_pack_float_def cw_pack_double_def
      cw_pack_array_size_def cw_pack_map_size_def tryMove_shape)

lemma shape_safe:
  assumes "call_shape k s s'" "pc_current s \<le> pc_end s" "unat (pc_current s) + k < 2 ^ 32"
  shows "pc_start s' = pc_start s \<and> pc_end s' = pc_end s \<and>
    pc_current s \<le> pc_current s' \<and> pc_current s' \<le> pc_end s' \<and>
    (\<forall>a. \<not> (pc_current s \<le> a \<and> a < pc_current s') \<longrightarrow> pmem s' a = pmem s a) \<and>
    (return_code s' \<noteq> return_code s \<longrightarrow> pc_current s' = pc_current s \<and> pmem s' = pmem s)"
proof -
  consider "s' = s" | e where "s' = s\<lparr>return_code := e\<rparr>"
    | n wr where "s' = with_space None n wr s" "unat n \<le> k" "within n wr"
    using assms(1) by (auto simp: call_shape_def)
  then show ?thesis
  proof cases
    case 3
    show ?thesis
    proof (cases "pc_current s + n > pc_end s")
      case True
      then show ?thesis using 3(1) assms(2)
        by (simp add: with_space_def cw_pack_reserve_space_def Let_def)
    next
      case False
      have u: "unat (pc_current s + n) = unat (pc_current s) + unat n"
        using 3(2) assms(3) by (simp add: unat_word_ariths)
      have s': "s' = s\<lparr>pc_current := pc_current s + n, pmem := wr (pc_current s) (pmem s)\<rparr>"
        using False by (simp add: 3(1) with_space_def cw_pack_reserve_space_def Let_def)
      have "wr (pc_current s) (pmem s) a = pmem s a"
        if "\<not> (pc_current s \<le> a \<and> a < pc_current s + n)" for a
      proof -
        have "unat n \<le> unat (a - pc_current s)"
        proof (cases "pc_current s \<le> a")
          case True
          then have "unat (a - pc_current s) = unat a - unat (pc_current s)" by (simp add: unat_sub)
          then show ?thesis using that True u by (simp add: word_less_nat_alt word_le_nat_alt)
        next
          case False
          then have "unat (a - pc_current s) = unat a + 2 ^ 32 - unat (pc_current s)"
            by (simp add: unat_sub_if' word_le_nat_alt)
          then show ?thesis using 3(2) assms(3) by simp
        qed
        then show ?thesis using 3(3) by (simp add: within_def)
      qed
      then show ?thesis using False u
        by (simp add: s' word_le_nat_alt word_less_nat_alt)
    qed
  qed (use assms(2) in auto)
qed

section \<open>Unpacking\<close>

definition is_blob :: "unpack_state \<Rightarrow> bool" where
  "is_blob s \<longleftrightarrow> it_type s = CWP_ITEM_STR \<or> it_type s = CWP_ITEM_BIN \<or> -128 \<le> it_type s \<and> it_type s \<le> 127"

text \<open>
  The declared length does not wrap the address arithmetic. For the fixed headers it is enough
  that the input ends 16 bytes below the top of the address space.
\<close>

definition sane_length :: "unpack_state \<Rightarrow> bool" where
  "sane_length s \<longleftrightarrow> (uc_return_code s = 0 \<and> is_blob s \<longrightarrow> unat (uc_end s) + unat (as_hi (it_as s)) < 2 ^ 32)"

definition ready :: "unpack_state \<Rightarrow> bool" where
  "ready s \<longleftrightarrow> uc_return_code s = 0 \<and> uc_current s \<le> uc_end s \<and> unat (uc_end s) + 16 < 2 ^ 32"

definition safe_step :: "unpack_state \<Rightarrow> unpack_state \<Rightarrow> bool" where
  "safe_step s s' \<longleftrightarrow> uc_end s' = uc_end s \<and> (sane_length s' \<longrightarrow>
     uc_current s \<le> uc_current s' \<and> uc_current s' \<le> uc_end s \<and>
     (uc_return_code s' = 0 \<and> is_blob s' \<longrightarrow>
        uc_current s \<le> as_lo (it_as s') \<and> as_lo (it_as s') \<le> uc_current s' \<and>
        as_lo (it_as s') + as_hi (it_as s') = uc_current s'))"

lemma ready_space:
  assumes "ready s" "n \<le> 16"
  shows "space_ok n s \<Longrightarrow> uc_current s \<le> uc_current s + n"
proof -
  have "unat n \<le> 16" using assms(2) by (simp add: word_le_nat_alt)
  then have "unat (uc_current s) + unat n < 2 ^ 32"
    using assms(1) by (simp add: ready_def word_le_nat_alt)
  then show ?thesis by (simp add: word_le_nat_alt unat_word_ariths)
qed

lemma safe_error: "uc_current s \<le> uc_end s \<Longrightarrow> e \<noteq> 0 \<Longrightarrow> safe_step s (UNPACK_ERROR e s)"
  "uc_current s \<le> uc_end s \<Longrightarrow> e \<noteq> 0 \<Longrightarrow> safe_step s (UNPACK_ERROR e (s\<lparr>it_type := t\<rparr>))"
  by (simp_all add: safe_step_def UNPACK_ERROR_def)

lemma safe_after:
  assumes "safe_step t s'" "uc_end t = uc_end s" "uc_current s \<le> uc_current t"
  shows "safe_step s s'"
  using assms by (auto simp: safe_step_def intro: order_trans)

lemma safe_plain: "uc_current s \<le> uc_end s \<Longrightarrow> \<not> is_blob s \<Longrightarrow> safe_step s s"
  by (simp add: safe_step_def)

lemma blob_safe:
  assumes "ready s" "is_blob s"
  shows "safe_step s (cw_unpack_assert_blob None s)"
proof (cases "space_ok (as_hi (it_as s)) s")
  case True
  let ?n = "as_hi (it_as s)"
  have "uc_current s \<le> uc_current s + ?n" if "unat (uc_end s) + unat ?n < 2 ^ 32"
  proof -
    have "unat (uc_current s) + unat ?n < 2 ^ 32" using that assms by (simp add: ready_def word_le_nat_alt)
    then show ?thesis by (simp add: word_le_nat_alt unat_word_ariths)
  qed
  then show ?thesis using True assms
    by (auto simp: readers_None safe_step_def sane_length_def ready_def space_ok_def is_blob_def)
next
  case False
  then show ?thesis using assms by (simp add: readers_None safe_error ready_def)
qed

lemma getDD_safe:
  assumes "ready s" "\<And>t. ready t \<Longrightarrow> it_type t = typ \<Longrightarrow> safe_step t (k t)"
  shows "safe_step s (getDDItem1 None typ f1 k s)" "safe_step s (getDDItem2 None typ f2 k s)"
    "safe_step s (getDDItem4 None typ f4 k s)" "safe_step s (getDDItem8 None typ k s)"
proof -
  have "safe_step s (if space_ok n s then k (s\<lparr>it_type := typ, uc_current := uc_current s + n, it_as := a\<rparr>)
       else UNPACK_ERROR CWP_RC_BUFFER_UNDERFLOW (s\<lparr>it_type := typ\<rparr>))" if "n \<le> 16" for n a
  proof (cases "space_ok n s")
    case True
    let ?t = "s\<lparr>it_type := typ, uc_current := uc_current s + n, it_as := a\<rparr>"
    have "ready ?t" using assms(1) True by (simp add: ready_def space_ok_def)
    then have "safe_step ?t (k ?t)" by (intro assms(2)) simp_all
    then have "safe_step s (k ?t)"
      by (rule safe_after) (use ready_space [OF assms(1) that True] in simp_all)
    then show ?thesis using True by simp
  next
    case False
    then show ?thesis using assms(1) by (simp add: safe_error ready_def)
  qed
  then show "safe_step s (getDDItem1 None typ f1 k s)" "safe_step s (getDDItem2 None typ f2 k s)"
    "safe_step s (getDDItem4 None typ f4 k s)" "safe_step s (getDDItem8 None typ k s)"
    by (simp_all add: readers_None)
qed

lemma ext_safe:
  assumes "ready s"
  shows "safe_step s (get_ext_type None (cw_unpack_assert_blob None) s)"
    "safe_step s (getDDItemFix None l s)"
proof -
  have "safe_step s (if space_ok 1 s then cw_unpack_assert_blob None t
       else UNPACK_ERROR CWP_RC_BUFFER_UNDERFLOW s)"
    if "uc_current t = uc_current s + 1" "uc_end t = uc_end s" "uc_return_code t = 0" "is_blob t" for t
  proof (cases "space_ok 1 s")
    case True
    then have "ready t" using assms that by (simp add: ready_def space_ok_def)
    then have "safe_step s (cw_unpack_assert_blob None t)"
      by (rule safe_after [OF blob_safe]) (use ready_space [OF assms _ True] that in simp_all)
    then show ?thesis using True by simp
  qed (use assms in \<open>simp add: safe_error ready_def\<close>)
  note step = this
  show "safe_step s (get_ext_type None (cw_unpack_assert_blob None) s)"
    unfolding readers_None(6) by (rule step) (use assms sint_byte in \<open>auto simp: ready_def is_blob_def\<close>)
  show "safe_step s (getDDItemFix None l s)"
    unfolding getDDItemFix_def readers_None(6)
    by (rule step) (use assms sint_byte in \<open>auto simp: ready_def is_blob_def\<close>)
qed

lemma switch_safe:
  assumes "ready s"
  shows "safe_step s (cw_unpack_switch None c s)"
proof -
  have le: "uc_current s \<le> uc_end s" using assms by (simp add: ready_def)
  have plain: "safe_step t t" if "ready t" "\<not> is_blob t" for t
    using that by (simp add: safe_plain ready_def)
  have sign: "safe_step t (fix_sign t)" if "ready t" "it_type t = CWP_ITEM_NEGATIVE_INTEGER" for t
    using that by (simp add: fix_sign_def safe_step_def ready_def is_blob_def item_defs)
  have dd: "safe_step s (getDDItem ty f s)" if "\<not> is_blob (getDDItem ty f s)" for ty f
    using that le by (simp add: safe_step_def getDDItem_def)
  show ?thesis
  proof (cases rule: tag_cases [of c])
    case 4
    let ?t = "getDDItem CWP_ITEM_STR (set_length (ucast c AND 0x1f)) s"
    have "safe_step s (cw_unpack_assert_blob None ?t)"
      by (rule safe_after [OF blob_safe]) (use assms in \<open>simp_all add: getDDItem_def ready_def is_blob_def\<close>)
    then show ?thesis by (simp add: range_tags 4)
  next
    case 5
    then show ?thesis using assms
      by (elim insertE emptyE; simp add: switch_tags switch_blob_tags switch_malformed)
        (auto intro!: getDD_safe dd ext_safe safe_error plain sign blob_safe
          simp: is_blob_def item_defs le rc_defs getDDItem_def safe_step_def [of s "s\<lparr>it_type := _\<rparr>"]
          safe_step_def [of s "s\<lparr>it_type := _, it_as := _\<rparr>"])
  next
    case 6
    then show ?thesis using assms
      by (elim insertE emptyE; simp add: switch_tags switch_blob_tags switch_malformed)
        (auto intro!: getDD_safe dd ext_safe plain sign blob_safe simp: is_blob_def item_defs)
  qed (auto simp: range_tags is_blob_def getDDItem_def item_defs le
      safe_step_def [of s "s\<lparr>it_type := _, it_as := _\<rparr>"])
qed

section \<open>Errors\<close>

lemma space_ok_end: "space_ok n (s\<lparr>uc_end := e\<rparr>) = (uc_current s + n \<le> e)"
  by (simp add: space_ok_def)

text \<open>A successful unpack is not affected by more input behind the item.\<close>

definition extends :: "(unpack_state \<Rightarrow> unpack_state) \<Rightarrow> bool" where
  "extends f \<longleftrightarrow> (\<forall>s e. uc_return_code (f s) = 0 \<longrightarrow> uc_end s \<le> e \<longrightarrow>
     f (s\<lparr>uc_end := e\<rparr>) = (f s)\<lparr>uc_end := e\<rparr>)"

lemma extends_plain:
  "extends (\<lambda>s. s)" "extends fix_sign" "extends (getDDItem t f)" "extends (\<lambda>s. s\<lparr>it_type := t\<rparr>)"
  by (simp_all add: extends_def fix_sign_def getDDItem_def)

lemma extends_blob: "extends (cw_unpack_assert_blob None)"
  by (auto simp: extends_def readers_None space_ok_def intro: order_trans)

lemma extends_getDD:
  assumes "extends k"
  shows "extends (getDDItem1 None t f1 k)" "extends (getDDItem2 None t f2 k)"
    "extends (getDDItem4 None t f4 k)" "extends (getDDItem8 None t k)" "extends (get_ext_type None k)"
proof -
  have "(if space_ok n (s\<lparr>uc_end := e\<rparr>) then k (g (s\<lparr>uc_end := e\<rparr>)) else h (s\<lparr>uc_end := e\<rparr>)) =
      (if space_ok n s then k (g s) else h s)\<lparr>uc_end := e\<rparr>"
    if "uc_return_code (if space_ok n s then k (g s) else h s) = 0" "uc_return_code (h s) \<noteq> 0"
      "uc_end s \<le> e" "g (s\<lparr>uc_end := e\<rparr>) = (g s)\<lparr>uc_end := e\<rparr>" "uc_end (g s) = uc_end s" for n s e g h
  proof -
    have ok: "space_ok n s" using that(1,2) by (auto split: if_splits)
    then have "space_ok n (s\<lparr>uc_end := e\<rparr>)" using that(3) by (auto simp: space_ok_def)
    moreover have "k ((g s)\<lparr>uc_end := e\<rparr>) = (k (g s))\<lparr>uc_end := e\<rparr>"
      using assms that(1,3,5) ok by (simp add: extends_def)
    ultimately show ?thesis using ok that(4) by simp
  qed
  note step = this
  show "extends (getDDItem1 None t f1 k)" "extends (getDDItem2 None t f2 k)"
    "extends (getDDItem4 None t f4 k)" "extends (getDDItem8 None t k)" "extends (get_ext_type None k)"
    unfolding extends_def readers_None by (intro allI impI, rule step; simp)+
qed

lemma extends_cong: "(\<And>s. f s = g s) \<Longrightarrow> extends g \<Longrightarrow> extends f"
  by (simp add: extends_def)

lemma extends_comp:
  assumes "extends f" "\<And>s e. g (s\<lparr>uc_end := e\<rparr>) = (g s)\<lparr>uc_end := e\<rparr>" "\<And>s. uc_end (g s) = uc_end s"
  shows "extends (\<lambda>s. f (g s))"
  using assms by (simp add: extends_def)

lemma extends_fix: "extends (getDDItemFix None l)"
  unfolding getDDItemFix_def by (intro extends_getDD extends_comp [OF extends_blob]) simp_all

lemma extends_error: "e \<noteq> 0 \<Longrightarrow> extends (UNPACK_ERROR e)"
  by (simp add: extends_def)

lemma switch_extend: "extends (cw_unpack_switch None c)"
proof (cases rule: tag_cases [of c])
  case 4
  show ?thesis
    by (rule extends_cong [OF fixstr_range_tag(2) [OF 4]], rule extends_comp [OF extends_blob])
      (simp_all add: getDDItem_def)
next
  case 5
  then show ?thesis
    by (elim insertE emptyE; simp only:)
      (rule extends_cong, rule switch_tags switch_blob_tags switch_malformed,
        intro extends_plain extends_getDD extends_blob extends_fix extends_error underflow_rc)+
next
  case 6
  then show ?thesis
    by (elim insertE emptyE; simp only:)
      (rule extends_cong, rule switch_tags switch_blob_tags,
        intro extends_plain extends_getDD extends_blob extends_fix)+
qed (simp_all add: range_tags extends_plain extends_def getDDItem_def)

text \<open>
  Behind the tag byte the only failure is running out of input, and the position never passes
  the end of the input.
\<close>

definition reports :: "(unpack_state \<Rightarrow> unpack_state) \<Rightarrow> bool" where
  "reports f \<longleftrightarrow> (\<forall>s. uc_return_code s = 0 \<longrightarrow> uc_return_code (f s) = 0 \<or>
     uc_return_code (f s) = CWP_RC_BUFFER_UNDERFLOW \<and> it_type (f s) = CWP_NOT_AN_ITEM) \<and>
   (\<forall>s. uc_end (f s) = uc_end s \<and> (uc_current s \<le> uc_end s \<longrightarrow> uc_current (f s) \<le> uc_end s))"

lemma reportsD:
  assumes "reports f"
  shows "uc_return_code s = 0 \<Longrightarrow> uc_return_code (f s) = 0 \<or>
      uc_return_code (f s) = CWP_RC_BUFFER_UNDERFLOW \<and> it_type (f s) = CWP_NOT_AN_ITEM"
    and "uc_end (f s) = uc_end s"
    and "uc_current s \<le> e \<Longrightarrow> uc_end s = e \<Longrightarrow> uc_current (f s) \<le> e"
  using assms unfolding reports_def by blast+

lemma reports_intros:
  "reports (\<lambda>s. s)" "reports fix_sign" "reports (getDDItem t f)" "reports (\<lambda>s. s\<lparr>it_type := t\<rparr>)"
  "reports (cw_unpack_assert_blob None)"
  by (simp_all add: reports_def fix_sign_def getDDItem_def readers_None UNPACK_ERROR_def space_ok_def)

lemma reports_getDD:
  assumes "reports k"
  shows "reports (getDDItem1 None t f1 k)" "reports (getDDItem2 None t f2 k)"
    "reports (getDDItem4 None t f4 k)" "reports (getDDItem8 None t k)" "reports (get_ext_type None k)"
  unfolding reports_def readers_None
  by (simp_all add: reportsD [OF assms] UNPACK_ERROR_def space_ok_def)

lemma reports_fix: "reports (getDDItemFix None l)"
  unfolding getDDItemFix_def by (intro reports_getDD)
    (simp add: reports_def readers_None UNPACK_ERROR_def space_ok_def)

lemma reports_cong: "(\<And>s. f s = g s) \<Longrightarrow> reports g \<Longrightarrow> reports f"
  by (simp add: reports_def)

lemma switch_reports:
  assumes "c \<noteq> 0xc1"
  shows "reports (cw_unpack_switch None c)"
proof (cases rule: tag_cases [of c])
  case 4
  show ?thesis
    by (rule reports_cong [OF fixstr_range_tag(2) [OF 4]])
      (simp add: reports_def readers_None getDDItem_def UNPACK_ERROR_def space_ok_def)
next
  case 5
  then show ?thesis using assms
    by (elim insertE emptyE; simp only: simp_thms)
      (rule reports_cong, rule switch_tags switch_blob_tags, intro reports_intros reports_getDD reports_fix)+
next
  case 6
  then show ?thesis
    by (elim insertE emptyE; simp only:)
      (rule reports_cong, rule switch_tags switch_blob_tags, intro reports_intros reports_getDD reports_fix)+
qed (simp_all add: range_tags reports_def getDDItem_def)

lemma unpack_next_cases:
  assumes "uc_return_code s = 0"
  obtains (end_of_input) "\<not> space_ok 1 s" "cw_unpack_next None s = UNPACK_ERROR CWP_RC_END_OF_INPUT s"
  | (malformed) "space_ok 1 s" "umem s (uc_current s) = 0xc1"
      "uc_return_code (cw_unpack_next None s) = CWP_RC_MALFORMED_INPUT"
      "it_type (cw_unpack_next None s) = CWP_NOT_AN_ITEM"
  | (underflow) "space_ok 1 s" "umem s (uc_current s) \<noteq> 0xc1"
      "uc_return_code (cw_unpack_next None s) = CWP_RC_BUFFER_UNDERFLOW"
      "it_type (cw_unpack_next None s) = CWP_NOT_AN_ITEM"
  | (item) "space_ok 1 s" "umem s (uc_current s) \<noteq> 0xc1" "uc_return_code (cw_unpack_next None s) = 0"
proof (cases "space_ok 1 s")
  case False
  then show ?thesis using assms that(1) by (simp add: cw_unpack_next_def with_bytes_def assert_space_None)
next
  case True
  let ?t = "s\<lparr>uc_current := uc_current s + 1\<rparr>"
  have u: "cw_unpack_next None s = cw_unpack_switch None (umem s (uc_current s)) ?t"
    using True assms by (simp add: cw_unpack_next_def with_bytes_def assert_space_None)
  show ?thesis
  proof (cases "umem s (uc_current s) = 0xc1")
    case bad: True
    then show ?thesis using that(2) True by (simp add: u switch_malformed UNPACK_ERROR_def)
  next
    case False
    with switch_reports [OF False] assms
    have "uc_return_code (cw_unpack_next None s) = 0 \<or>
        uc_return_code (cw_unpack_next None s) = CWP_RC_BUFFER_UNDERFLOW \<and>
        it_type (cw_unpack_next None s) = CWP_NOT_AN_ITEM"
      unfolding u reports_def by simp
    then show ?thesis using that(3,4) True False by blast
  qed
qed

text \<open>Unpacking with the input cut off after \<open>k\<close> bytes.\<close>

lemma unpack_extend:
  assumes "uc_return_code s = 0" "uc_return_code (cw_unpack_next None s) = 0" "uc_end s \<le> e"
  shows "cw_unpack_next None (s\<lparr>uc_end := e\<rparr>) = (cw_unpack_next None s)\<lparr>uc_end := e\<rparr>"
proof -
  let ?c = "umem s (uc_current s)" and ?t = "s\<lparr>uc_current := uc_current s + 1\<rparr>"
  have ok: "space_ok 1 s" and u: "cw_unpack_next None s = cw_unpack_switch None ?c ?t"
    using assms(1,2)
    by (auto simp: cw_unpack_next_def with_bytes_def assert_space_None split: if_splits)
  have "cw_unpack_switch None ?c (?t\<lparr>uc_end := e\<rparr>) = (cw_unpack_switch None ?c ?t)\<lparr>uc_end := e\<rparr>"
    using switch_extend [of ?c] assms(2,3) unfolding u extends_def by simp
  moreover have "?t\<lparr>uc_end := e\<rparr> = s\<lparr>uc_end := e, uc_current := uc_current s + 1\<rparr>" by simp
  moreover have "space_ok 1 (s\<lparr>uc_end := e\<rparr>)" using ok assms(3) by (auto simp: space_ok_def)
  ultimately show ?thesis
    using assms(1) u by (simp add: cw_unpack_next_def with_bytes_def assert_space_None)
qed

lemma unpack_current_le:
  assumes "uc_return_code s = 0" "uc_current s \<le> uc_end s" "umem s (uc_current s) \<noteq> 0xc1"
  shows "uc_current (cw_unpack_next None s) \<le> uc_end s"
  using assms(1,2)
  by (simp add: cw_unpack_next_def with_bytes_def assert_space_None UNPACK_ERROR_def space_ok_def
      reportsD(3) [OF switch_reports [OF assms(3)]])

lemma truncated_rejected:
  assumes "wf_item x" "at_input (encode old x) s" "k < length (encode old x)"
    "t = s\<lparr>uc_end := uc_current s + of_nat k\<rparr>"
  shows "uc_return_code (cw_unpack_next None t) \<noteq> 0"
proof
  assume ok: "uc_return_code (cw_unpack_next None t) = 0"
  let ?n = "length (encode old x)"
  have b: "unat (uc_current s) + ?n \<le> unat (uc_end s)" "uc_return_code s = 0"
    using assms(2) by (simp_all add: at_input_def)
  then have lt: "unat (uc_current s) + ?n < 2 ^ 32"
    using unsigned_less [of "uc_end s", where ?'a = nat] by simp
  have uk: "unat (uc_current s + of_nat j) = unat (uc_current s) + j" if "j \<le> ?n" for j
    using lt that by (simp add: unat_word_ariths unat_of_nat)
  have t: "uc_return_code t = 0" "uc_end t \<le> uc_end s" "uc_current t \<le> uc_end t" "t\<lparr>uc_end := uc_end s\<rparr> = s"
    using b assms(3) uk [of k] by (simp_all add: assms(4) word_le_nat_alt)
  have "cw_unpack_next None s = (cw_unpack_next None t)\<lparr>uc_end := uc_end s\<rparr>"
    using unpack_extend [OF t(1) ok t(2)] t(4) by simp
  then have "uc_current (cw_unpack_next None t) = uc_current s + of_nat ?n"
    using decode_item [OF assms(1,2), of None] by (simp add: unpacked_def)
  moreover have "uc_current (cw_unpack_next None t) \<le> uc_end t"
  proof (rule unpack_current_le [OF t(1,3)])
    show "umem t (uc_current t) \<noteq> 0xc1"
      by (rule unpack_next_cases [OF t(1)]) (use ok in \<open>simp_all add: UNPACK_ERROR_def rc_defs\<close>)
  qed
  ultimately show False using uk [of ?n] uk [of k] assms(3) by (simp add: assms(4) word_le_nat_alt)
qed

section \<open>The properties\<close>



text \<open>C3. Unpacking reads an item inside the input: the memory is not touched, the position moves
  forward and not past the end, and a string, binary or extension lies between the two
  positions, unless its declared length wraps the 32-bit address arithmetic.\<close>

theorem unpack_next_safe:
  assumes "uc_return_code s = 0" "uc_current s \<le> uc_end s" "unat (uc_end s) + 16 < 2 ^ 32"
    and "s' = cw_unpack_next None s" "sane_length s'"
  shows "uc_end s' = uc_end s \<and> umem s' = umem s \<and> uc_current s \<le> uc_current s' \<and>
    uc_current s' \<le> uc_end s \<and>
    (uc_return_code s' = 0 \<longrightarrow> uc_current s < uc_current s' \<and>
      (is_blob s' \<longrightarrow> uc_current s < as_lo (it_as s') \<and> as_lo (it_as s') \<le> uc_current s' \<and>
         as_lo (it_as s') + as_hi (it_as s') = uc_current s'))"
proof (cases "space_ok 1 s")
  case True
  let ?t = "s\<lparr>uc_current := uc_current s + 1\<rparr>"
  have "unat (uc_current s) + 1 < 2 ^ 32" using assms(2,3) by (simp add: word_le_nat_alt)
  then have lt: "uc_current s < uc_current s + 1" by (simp add: word_less_nat_alt unat_word_ariths)
  have "ready ?t" using assms(1,3) True by (simp add: ready_def space_ok_def)
  then have "safe_step ?t s'"
    using switch_safe [of ?t "umem s (uc_current s)"] True assms(1,4)
    by (simp add: cw_unpack_next_def with_bytes_def assert_space_None)
  then show ?thesis using lt assms(4,5) unpack_input_kept [of s]
    by (auto simp: safe_step_def intro: less_le_trans less_imp_le)
next
  case False
  then show ?thesis using assms(1,2,4)
    by (simp add: cw_unpack_next_def with_bytes_def assert_space_None UNPACK_ERROR_def rc_defs)
qed

theorem unpack_next_safe_witness:
  "let s = \<lparr>it_type = 0, it_as = \<lparr>as_lo = 0, as_hi = 0\<rparr>, uc_start = 0x1000, uc_current = 0x1000,
      uc_end = 0x1004, uc_return_code = 0, uc_err_no = 0, umem = (\<lambda>a. if a = 0x1000 then 0xa2 else 0x41)\<rparr>;
     s' = cw_unpack_next None s in
   uc_return_code s' = 0 \<and> is_blob s' \<and> 0x1000 < as_lo (it_as s') \<and>
   as_lo (it_as s') + as_hi (it_as s') = uc_current s'"
proof -
  let ?s = "\<lparr>it_type = 0, it_as = \<lparr>as_lo = 0, as_hi = 0\<rparr>, uc_start = 0x1000, uc_current = 0x1000,
      uc_end = 0x1004, uc_return_code = 0, uc_err_no = 0,
      umem = (\<lambda>a. if a = 0x1000 then 0xa2 else 0x41)\<rparr> :: unpack_state"
  have u: "cw_unpack_next None ?s = ?s\<lparr>it_type := CWP_ITEM_STR, it_as := \<lparr>as_lo = 0x1001, as_hi = 2\<rparr>,
      uc_current := 0x1003\<rparr>"
    by (simp add: cw_unpack_next_def with_bytes_def cw_unpack_assert_space_def cw_unpack_switch_def
        getDDItem_def set_length_def cw_unpack_assert_blob_def)
  show ?thesis
    using unpack_next_safe [of ?s, OF _ _ _ refl] by (simp add: u Let_def sane_length_def is_blob_def)
qed

text \<open>C4. Every item that is cut short is reported: unpacking with the input ending inside the
  encoding of an item fails, with end-of-input when not even its first byte is there and with
  buffer-underflow otherwise, and the context holds no item.\<close>

theorem truncated_item_error:
  assumes "wf_item x" "at_input (encode old x) s" "k < length (encode old x)"
    and "t = cw_unpack_next None (s\<lparr>uc_end := uc_current s + of_nat k\<rparr>)"
  shows "uc_return_code t = (if k = 0 then CWP_RC_END_OF_INPUT else CWP_RC_BUFFER_UNDERFLOW) \<and>
    it_type t = CWP_NOT_AN_ITEM"
proof -
  let ?s = "s\<lparr>uc_end := uc_current s + of_nat k\<rparr>"
  have rc: "uc_return_code s = 0" and b: "unat (uc_current s) + length (encode old x) \<le> unat (uc_end s)"
    using assms(2) by (simp_all add: at_input_def)
  have lt: "unat (uc_current s) + length (encode old x) < 2 ^ 32"
    using b unsigned_less [of "uc_end s", where ?'a = nat] by simp
  have rc': "uc_return_code ?s = 0" using rc by simp
  have sp: "space_ok 1 ?s = (k \<noteq> 0)"
  proof -
    have "unat (uc_current s + of_nat k) = unat (uc_current s) + k"
      using lt assms(3) by (simp add: unat_word_ariths unat_of_nat)
    moreover have "unat (uc_current s + 1) = unat (uc_current s) + 1"
      using lt assms(3) by (simp add: unat_word_ariths)
    ultimately show ?thesis by (auto simp: space_ok_def word_le_nat_alt)
  qed
  have no: "umem s (uc_current s) \<noteq> 0xc1"
  proof -
    have "uc_return_code (cw_unpack_next None s) = 0"
      using decode_item [OF assms(1,2), of None] by (simp add: unpacked_def)
    then show ?thesis
      by (cases rule: unpack_next_cases [OF rc]) (simp_all add: UNPACK_ERROR_def rc_defs)
  qed
  from rc' show ?thesis
  proof (cases rule: unpack_next_cases)
    case item
    then show ?thesis using truncated_rejected [OF assms(1,2,3) refl] by simp
  qed (use assms(4) sp no in \<open>auto simp: UNPACK_ERROR_def\<close>)
qed

theorem truncated_item_error_witness:
  "let s = \<lparr>it_type = 0, it_as = \<lparr>as_lo = 0, as_hi = 0\<rparr>, uc_start = 0x1000, uc_current = 0x1000,
      uc_end = 0x1003, uc_return_code = 0, uc_err_no = 0, umem = (\<lambda>a. if a = 0x1000 then 0xa2 else 0x41)\<rparr>;
     t = cw_unpack_next None (s\<lparr>uc_end := uc_current s + of_nat 2\<rparr>) in
   uc_return_code t = CWP_RC_BUFFER_UNDERFLOW \<and> it_type t = CWP_NOT_AN_ITEM"
proof -
  let ?s = "\<lparr>it_type = 0, it_as = \<lparr>as_lo = 0, as_hi = 0\<rparr>, uc_start = 0x1000, uc_current = 0x1000,
      uc_end = 0x1003, uc_return_code = 0, uc_err_no = 0,
      umem = (\<lambda>a. if a = 0x1000 then 0xa2 else 0x41)\<rparr> :: unpack_state"
  have "at_input (encode False (MStr [0x41, 0x41])) ?s"
    by (simp add: at_input_def enc_str_def bytes_at_def upt_rec)
  from truncated_item_error [OF _ this, of 2] show ?thesis by (simp add: enc_str_def Let_def)
qed

text \<open>C6. A string whose declared 32-bit length wraps the address arithmetic past the end of the
  address space passes the bounds check of \<open>cw_unpack_next\<close>: the context reports success, a string
  longer than the input, and a position before the item.\<close>

theorem unpack_length_wraps:
  assumes "at_input (0xdb # be32 n) s" "2 ^ 32 \<le> unat (uc_current s) + 5 + unat n"
    and "s' = cw_unpack_next None s"
  shows "uc_return_code s' = 0 \<and> it_type s' = CWP_ITEM_STR \<and> as_hi (it_as s') = n \<and>
    unat (uc_current s') = unat (uc_current s) + 5 + unat n - 2 ^ 32 \<and> uc_current s' < uc_current s + 5"
proof -
  have in2: "at_input (be32 n @ []) (s\<lparr>uc_current := uc_current s + 1\<rparr>)"
    using at_input_tag(2) [OF assms(1)] by simp
  have b: "unat (uc_current s) + 5 \<le> unat (uc_end s)" "uc_return_code s = 0"
    using assms(1) by (simp_all add: at_input_def)
  have u5: "unat (uc_current s + 5) = unat (uc_current s) + 5"
    using b unsigned_less [of "uc_end s", where ?'a = nat] by (simp add: unat_word_ariths)
  have n: "unat n < 2 ^ 32" using unsigned_less [of n, where ?'a = nat] by simp
  have un: "unat (uc_current s + 5 + n) = unat (uc_current s) + 5 + unat n - 2 ^ 32"
    using assms(2) n u5 unsigned_less [of "uc_current s + 5", where ?'a = nat]
    by (subst unat_word_ariths) (simp add: mod_if)
  then have sp: "5 + uc_current s + n \<le> uc_end s" using n b(1) by (simp add: word_le_nat_alt add.commute)
  have "cw_unpack_next None s =
      s\<lparr>uc_current := 5 + uc_current s + n, it_type := CWP_ITEM_STR, it_as := \<lparr>as_lo = 5 + uc_current s, as_hi = n\<rparr>\<rparr>"
    using at_input_tag(1) [OF assms(1), of None] sp b(2)
    by (simp add: switch_blob_tags getDDItem_steps(3) [OF in2] readers_None space_ok_def set_length_def)
  then show ?thesis using un u5 n b(2) by (simp add: assms(3) word_less_nat_alt add.commute)
qed

theorem unpack_length_wraps_witness:
  "let s = \<lparr>it_type = 0, it_as = \<lparr>as_lo = 0, as_hi = 0\<rparr>, uc_start = 0x1000, uc_current = 0x1000,
      uc_end = 0x1005, uc_return_code = 0, uc_err_no = 0,
      umem = mem_write (\<lambda>_. 0) 0x1000 (0xdb # be32 (0xfffff000 :: u32))\<rparr> in
   uc_return_code (cw_unpack_next None s) = 0 \<and> unat (uc_current (cw_unpack_next None s)) = 5"
proof -
  let ?s = "\<lparr>it_type = 0, it_as = \<lparr>as_lo = 0, as_hi = 0\<rparr>, uc_start = 0x1000, uc_current = 0x1000,
      uc_end = 0x1005, uc_return_code = 0, uc_err_no = 0,
      umem = mem_write (\<lambda>_. 0) 0x1000 (0xdb # be32 (0xfffff000 :: u32))\<rparr> :: unpack_state"
  have "at_input (0xdb # be32 (0xfffff000 :: u32)) ?s"
    using bytes_at_mem_write [of "0xdb # be32 (0xfffff000 :: u32)"] by (simp add: at_input_def)
  from unpack_length_wraps [OF this _ refl] show ?thesis by (simp add: Let_def)
qed

text \<open>C5. \<open>cw_skip_items\<close> on the encodings of well-formed values (trees of arrays and maps over items)
  skips exactly those values: with fuel for one round per item it returns, without error, right
  behind the last value and with the item of the context untouched.\<close>

theorem skip_items_lands:
  assumes "list_all wf_value vs" "at_input (encode_values old vs @ rest) s"
    and "length (concat (map flat vs)) < 2 ^ 31" "length (concat (map flat vs)) < fuel"
  shows "cw_skip_items None fuel (of_nat (length vs)) s =
    Some (s\<lparr>uc_current := uc_current s + of_nat (length (encode_values old vs))\<rparr>)"
  using assms by (rule skip_values)

theorem skip_items_lands_witness:
  "let v = VArray [VItem (MPos 7), VMap [(VItem MNil, VItem (MBool True))]];
     s = \<lparr>it_type = 0, it_as = \<lparr>as_lo = 0, as_hi = 0\<rparr>, uc_start = 0x1000, uc_current = 0x1000,
      uc_end = 0x1008, uc_return_code = 0, uc_err_no = 0,
      umem = mem_write (\<lambda>_. 0) 0x1000 [0x92, 0x07, 0x81, 0xc0, 0xc3]\<rparr> in
   cw_skip_items None 6 1 s = Some (s\<lparr>uc_current := 0x1005\<rparr>)"
proof -
  let ?v = "VArray [VItem (MPos 7), VMap [(VItem MNil, VItem (MBool True))]]"
  let ?s = "\<lparr>it_type = 0, it_as = \<lparr>as_lo = 0, as_hi = 0\<rparr>, uc_start = 0x1000, uc_current = 0x1000,
      uc_end = 0x1008, uc_return_code = 0, uc_err_no = 0,
      umem = mem_write (\<lambda>_. 0) 0x1000 [0x92, 0x07, 0x81, 0xc0, 0xc3]\<rparr> :: unpack_state"
  have e: "encode_values False [?v] = [0x92, 0x07, 0x81, 0xc0, 0xc3]"
    by (simp add: encode_values_def enc_array_def enc_pos_def enc_map_def)
  have "at_input (encode_values False [?v] @ []) ?s"
    using bytes_at_mem_write [of "[0x92, 0x07, 0x81, 0xc0, 0xc3]"] by (simp add: at_input_def e)
  from skip_items_lands [OF _ this, of 6] show ?thesis by (simp add: e Let_def)
qed

text \<open>C7. A six-byte message makes \<open>cw_skip_items\<close> loop for ever: an array of two whose first element
  is a string with a wrapping length, so that the loop returns to the array header with the same
  count; no amount of fuel makes it return.\<close>

theorem skip_items_endless:
  assumes "at_input wrapping_message s"
  shows "cw_skip_items None fuel 1 s = None"
  using wrap_loop [OF assms] at_input_rc [OF assms] by (simp add: cw_skip_items_def)

theorem skip_items_endless_witness:
  "\<forall>fuel. cw_skip_items None fuel 1 \<lparr>it_type = 0, it_as = \<lparr>as_lo = 0, as_hi = 0\<rparr>, uc_start = 0x1000,
      uc_current = 0x1000, uc_end = 0x1006, uc_return_code = 0, uc_err_no = 0,
      umem = mem_write (\<lambda>_. 0) 0x1000 wrapping_message\<rparr> = None"
  by (rule allI, rule skip_items_endless)
    (use bytes_at_mem_write [of wrapping_message] in \<open>simp add: at_input_def wrapping_message_def\<close>)

end
