(* ===== verification/IEEE.thy ===== *)
theory IEEE
  imports Prelude Complex_Main
begin

text \<open>
  IEEE 754 binary floating point as the C code uses it: \<open>float\<close> (binary32) and \<open>double\<close> (binary64)
  with rounding to nearest, ties to even, and no fused operations. A finite number is a sign, a
  mantissa and the exponent of its last place. The operations compute the exact result on
  integers and round it once, so that all of them are executable.
\<close>

datatype fl = NaN | Inf bool | Num bool nat int

record fmt =
  prec :: nat
  emin :: int
  emax :: int

definition binary32 :: fmt where "binary32 = \<lparr>prec = 24, emin = -149, emax = 104\<rparr>"
definition binary64 :: fmt where "binary64 = \<lparr>prec = 53, emin = -1074, emax = 971\<rparr>"

lemmas fmt_defs = binary32_def binary64_def

fun bitlen :: "nat \<Rightarrow> nat" where
  "bitlen n = (if n = 0 then 0 else Suc (bitlen (n div 2)))"

declare bitlen.simps [simp del]

text \<open>Division by a power of two with rounding to nearest, ties to even.\<close>

definition round_shift :: "nat \<Rightarrow> nat \<Rightarrow> nat" where
  "round_shift m k =
     (let q = m div 2 ^ k; r = m mod 2 ^ k in
      if 2 * r > 2 ^ k \<or> 2 * r = 2 ^ k \<and> odd q then q + 1 else q)"

text \<open>The number \<open>m * 2 ^ e\<close> with sign \<open>s\<close>, rounded into the format.\<close>

definition fl_round :: "fmt \<Rightarrow> bool \<Rightarrow> nat \<Rightarrow> int \<Rightarrow> fl" where
  "fl_round F s m e =
     (if m = 0 then Num s 0 (emin F)
      else
        let sh = max (int (bitlen m) - int (prec F)) (emin F - e);
            m1 = (if sh \<le> 0 then m * 2 ^ nat (- sh) else round_shift m (nat sh));
            (m2, e2) = (if m1 = 2 ^ prec F then (2 ^ (prec F - 1), e + sh + 1) else (m1, e + sh))
        in if e2 > emax F then Inf s else Num s m2 e2)"

fun fl_neg :: "fl \<Rightarrow> fl" where
  "fl_neg NaN = NaN" | "fl_neg (Inf s) = Inf (\<not> s)" | "fl_neg (Num s m e) = Num (\<not> s) m e"

text \<open>The mantissa as a signed integer at exponent \<open>e0\<close>.\<close>

definition scaled :: "bool \<Rightarrow> nat \<Rightarrow> int \<Rightarrow> int \<Rightarrow> int" where
  "scaled s m e e0 = (if s then -1 else 1) * int m * 2 ^ nat (e - e0)"

fun fl_add :: "fmt \<Rightarrow> fl \<Rightarrow> fl \<Rightarrow> fl" where
  "fl_add F NaN y = NaN"
| "fl_add F x NaN = NaN"
| "fl_add F (Inf s) (Inf t) = (if s = t then Inf s else NaN)"
| "fl_add F (Inf s) (Num t m e) = Inf s"
| "fl_add F (Num s m e) (Inf t) = Inf t"
| "fl_add F (Num s m e) (Num t n f) =
     (let e0 = min e f; z = scaled s m e e0 + scaled t n f e0 in
      if z = 0 then Num (s \<and> t) 0 (emin F) else fl_round F (z < 0) (nat \<bar>z\<bar>) e0)"

definition fl_sub :: "fmt \<Rightarrow> fl \<Rightarrow> fl \<Rightarrow> fl" where
  "fl_sub F x y = fl_add F x (fl_neg y)"

fun fl_mul :: "fmt \<Rightarrow> fl \<Rightarrow> fl \<Rightarrow> fl" where
  "fl_mul F NaN y = NaN"
| "fl_mul F x NaN = NaN"
| "fl_mul F (Inf s) (Inf t) = Inf (s \<noteq> t)"
| "fl_mul F (Inf s) (Num t n f) = (if n = 0 then NaN else Inf (s \<noteq> t))"
| "fl_mul F (Num s m e) (Inf t) = (if m = 0 then NaN else Inf (s \<noteq> t))"
| "fl_mul F (Num s m e) (Num t n f) = fl_round F (s \<noteq> t) (m * n) (e + f)"

text \<open>
  Division: the quotient to \<open>prec + 2\<close> bits more than needed, with a sticky last bit that records
  a remainder.
\<close>

fun fl_div :: "fmt \<Rightarrow> fl \<Rightarrow> fl \<Rightarrow> fl" where
  "fl_div F NaN y = NaN"
| "fl_div F x NaN = NaN"
| "fl_div F (Inf s) (Inf t) = NaN"
| "fl_div F (Inf s) (Num t n f) = Inf (s \<noteq> t)"
| "fl_div F (Num s m e) (Inf t) = Num (s \<noteq> t) 0 (emin F)"
| "fl_div F (Num s m e) (Num t n f) =
     (if n = 0 then (if m = 0 then NaN else Inf (s \<noteq> t))
      else let k = prec F + 2 + bitlen n; q = m * 2 ^ k div n; r = m * 2 ^ k mod n in
        fl_round F (s \<noteq> t) (2 * q + (if r = 0 then 0 else 1)) (e - f - int k - 1))"

fun fl_lt :: "fl \<Rightarrow> fl \<Rightarrow> bool" where
  "fl_lt NaN y = False"
| "fl_lt x NaN = False"
| "fl_lt (Inf s) (Inf t) = (s \<and> \<not> t)"
| "fl_lt (Inf s) (Num t n f) = s"
| "fl_lt (Num s m e) (Inf t) = (\<not> t)"
| "fl_lt (Num s m e) (Num t n f) = (let e0 = min e f in scaled s m e e0 < scaled t n f e0)"

fun fl_eq :: "fl \<Rightarrow> fl \<Rightarrow> bool" where
  "fl_eq NaN y = False"
| "fl_eq x NaN = False"
| "fl_eq (Inf s) (Inf t) = (s = t)"
| "fl_eq (Inf s) (Num t n f) = False"
| "fl_eq (Num s m e) (Inf t) = False"
| "fl_eq (Num s m e) (Num t n f) = (let e0 = min e f in scaled s m e e0 = scaled t n f e0)"

definition fl_le :: "fl \<Rightarrow> fl \<Rightarrow> bool" where
  "fl_le x y \<longleftrightarrow> fl_lt x y \<or> fl_eq x y"

text \<open>Conversions: from integers, between the formats, to integers by truncation.\<close>

definition fl_of_int :: "fmt \<Rightarrow> int \<Rightarrow> fl" where
  "fl_of_int F i = fl_round F (i < 0) (nat \<bar>i\<bar>) 0"

fun fl_convert :: "fmt \<Rightarrow> fl \<Rightarrow> fl" where
  "fl_convert F NaN = NaN" | "fl_convert F (Inf s) = Inf s" | "fl_convert F (Num s m e) = fl_round F s m e"

fun fl_trunc :: "fl \<Rightarrow> int" where
  "fl_trunc (Num s m e) = (if s then -1 else 1) * int (if e \<ge> 0 then m * 2 ^ nat e else m div 2 ^ nat (- e))"
| "fl_trunc _ = 0"

text \<open>
  The target converts with saturation (\<open>VCVT\<close>); C leaves a value out of range undefined. A NaN
  converts to 0.
\<close>

definition clamp :: "int \<Rightarrow> int \<Rightarrow> int \<Rightarrow> int" where
  "clamp lo hi i = (if i < lo then lo else if i > hi then hi else i)"

fun fl_to_u32 :: "fl \<Rightarrow> u32" where
  "fl_to_u32 NaN = 0"
| "fl_to_u32 (Inf s) = (if s then 0 else -1)"
| "fl_to_u32 x = word_of_int (clamp 0 (2 ^ 32 - 1) (fl_trunc x))"

fun fl_to_i32 :: "fl \<Rightarrow> int" where
  "fl_to_i32 NaN = 0"
| "fl_to_i32 (Inf s) = (if s then - (2 ^ 31) else 2 ^ 31 - 1)"
| "fl_to_i32 x = clamp (- (2 ^ 31)) (2 ^ 31 - 1) (fl_trunc x)"

text \<open>The bit patterns of the two formats.\<close>

definition fl_of_bits32 :: "u32 \<Rightarrow> fl" where
  "fl_of_bits32 w =
     (let s = bit w 31; x = unat (drop_bit 23 w AND 0xff); f = unat (w AND 0x7fffff) in
      if x = 255 then (if f = 0 then Inf s else NaN)
      else if x = 0 then Num s f (-149) else Num s (f + 2 ^ 23) (int x - 150))"

definition fl_of_bits64 :: "u64 \<Rightarrow> fl" where
  "fl_of_bits64 w =
     (let s = bit w 63; x = unat (drop_bit 52 w AND 0x7ff); f = unat (w AND 0xfffffffffffff) in
      if x = 2047 then (if f = 0 then Inf s else NaN)
      else if x = 0 then Num s f (-1074) else Num s (f + 2 ^ 52) (int x - 1075))"

fun bits32_of_fl :: "fl \<Rightarrow> u32" where
  "bits32_of_fl NaN = 0x7fc00000"
| "bits32_of_fl (Inf s) = (if s then 0xff800000 else 0x7f800000)"
| "bits32_of_fl (Num s m e) =
     (if s then 0x80000000 else 0) OR
     (if m < 2 ^ 23 then of_nat m else of_nat (nat (e + 150) * 2 ^ 23 + (m - 2 ^ 23)))"

section \<open>Values\<close>

fun finite_fl :: "fl \<Rightarrow> bool" where
  "finite_fl (Num s m e) = True" | "finite_fl _ = False"

fun val :: "fl \<Rightarrow> real" where
  "val (Num s m e) = (if s then -1 else 1) * real m * 2 powi e" | "val _ = 0"

lemma scaled_val:
  assumes "e0 \<le> e"
  shows "of_int (scaled s m e e0) * 2 powi e0 = val (Num s m e)"
proof -
  have "(2 :: real) powi e = 2 powi int (nat (e - e0)) * 2 powi e0"
    using assms by (simp flip: power_int_add)
  also have "(2 :: real) powi int (nat (e - e0)) = 2 ^ nat (e - e0)" by (rule power_int_of_nat)
  finally show ?thesis by (simp add: scaled_def)
qed

lemma scaled_compare:
  fixes e f :: int
  defines "e0 \<equiv> min e f"
  shows "scaled s m e e0 < scaled t n f e0 \<longleftrightarrow> val (Num s m e) < val (Num t n f)"
    and "scaled s m e e0 = scaled t n f e0 \<longleftrightarrow> val (Num s m e) = val (Num t n f)"
proof -
  have p: "(0 :: real) < 2 powi e0" by simp
  have v: "val (Num s m e) = of_int (scaled s m e e0) * 2 powi e0"
    "val (Num t n f) = of_int (scaled t n f e0) * 2 powi e0"
    by (simp_all only: e0_def min.cobounded1 min.cobounded2 scaled_val)
  show "scaled s m e e0 < scaled t n f e0 \<longleftrightarrow> val (Num s m e) < val (Num t n f)"
    unfolding v using p by (simp only: mult_less_cancel_right_pos of_int_less_iff)
  show "scaled s m e e0 = scaled t n f e0 \<longleftrightarrow> val (Num s m e) = val (Num t n f)"
    unfolding v using p by simp
qed

lemma fl_compare_val:
  assumes "finite_fl x" "finite_fl y"
  shows "fl_lt x y \<longleftrightarrow> val x < val y" "fl_eq x y \<longleftrightarrow> val x = val y" "fl_le x y \<longleftrightarrow> val x \<le> val y"
proof -
  obtain s m e t n f where xy: "x = Num s m e" "y = Num t n f"
    using assms by (cases x; cases y) simp_all
  show l: "fl_lt x y \<longleftrightarrow> val x < val y" and q: "fl_eq x y \<longleftrightarrow> val x = val y"
    unfolding xy by (simp_all only: fl_lt.simps fl_eq.simps Let_def scaled_compare)
  show "fl_le x y \<longleftrightarrow> val x \<le> val y" unfolding fl_le_def l q by linarith
qed

lemma fl_le_refl: "x \<noteq> NaN \<Longrightarrow> fl_le x x"
  by (cases x) (simp_all add: fl_le_def)

lemma fl_lt_not_NaN: "fl_lt x y \<Longrightarrow> x \<noteq> NaN \<and> y \<noteq> NaN"
  by (cases x; cases y) simp_all

text \<open>Between two finite numbers there is no infinity and no NaN.\<close>

lemma fl_between_finite:
  "fl_le x y \<Longrightarrow> fl_le y z \<Longrightarrow> finite_fl x \<Longrightarrow> finite_fl z \<Longrightarrow> finite_fl y"
  by (cases x; cases y; cases z) (auto simp: fl_le_def)

section \<open>Rounding\<close>

lemma bitlen_less: "m < 2 ^ bitlen m"
proof (induction m rule: bitlen.induct)
  case (1 n)
  show ?case
  proof (cases "n = 0")
    case False
    then have "n div 2 < 2 ^ bitlen (n div 2)" using 1 by simp
    then have "n < 2 * 2 ^ bitlen (n div 2)" by linarith
    then show ?thesis using False by (simp add: bitlen.simps [of n])
  qed (simp add: bitlen.simps)
qed

lemma bitlen_le: "m < 2 ^ k \<Longrightarrow> bitlen m \<le> k"
proof (induction m arbitrary: k rule: bitlen.induct)
  case (1 n)
  show ?case
  proof (cases "n = 0")
    case False
    then obtain j where "k = Suc j" using 1(2) by (cases k) auto
    then have "n div 2 < 2 ^ j" using 1(2) by simp
    then show ?thesis using 1(1) False \<open>k = Suc j\<close> by (simp add: bitlen.simps [of n])
  qed (simp add: bitlen.simps)
qed

text \<open>A number that fits the format is not changed by rounding.\<close>

lemma fl_round_exact:
  assumes "m < 2 ^ prec F" "emin F \<le> e" "e \<le> emax F"
  shows "finite_fl (fl_round F s m e) \<and> val (fl_round F s m e) = (if s then -1 else 1) * real m * 2 powi e"
proof (cases "m = 0")
  case True
  then show ?thesis by (simp add: fl_round_def)
next
  case False
  define sh where "sh = max (int (bitlen m) - int (prec F)) (emin F - e)"
  have le: "bitlen m \<le> prec F" using assms(1) by (rule bitlen_le)
  have sh: "sh \<le> 0" using le assms(2) by (simp add: sh_def)
  have "m * 2 ^ nat (- sh) < 2 ^ bitlen m * 2 ^ nat (- sh)" using bitlen_less [of m] by simp
  also have "\<dots> = 2 ^ (bitlen m + nat (- sh))" by (simp add: power_add)
  also have "\<dots> \<le> 2 ^ prec F"
  proof (rule power_increasing)
    have "- sh \<le> int (prec F) - int (bitlen m)" by (simp add: sh_def)
    then show "bitlen m + nat (- sh) \<le> prec F" using le by linarith
  qed simp
  finally have ne: "m * 2 ^ nat (- sh) \<noteq> 2 ^ prec F" by simp
  have "fl_round F s m e = Num s (m * 2 ^ nat (- sh)) (e + sh)"
    using False sh ne assms(3) by (simp add: fl_round_def Let_def sh_def [symmetric])
  moreover have "real m * 2 powi e = real (m * 2 ^ nat (- sh)) * 2 powi (e + sh)"
  proof -
    have "(2 :: real) powi e = 2 powi int (nat (- sh)) * 2 powi (e + sh)"
      using sh by (simp flip: power_int_add)
    also have "(2 :: real) powi int (nat (- sh)) = 2 ^ nat (- sh)" by (rule power_int_of_nat)
    finally show ?thesis by simp
  qed
  ultimately show ?thesis by auto
qed

lemma fl_of_int_exact:
  assumes "\<bar>i\<bar> < 2 ^ 24"
  shows "finite_fl (fl_of_int binary32 i) \<and> val (fl_of_int binary32 i) = real_of_int i"
proof -
  have "nat \<bar>i\<bar> < 2 ^ prec binary32" using assms by (simp add: binary32_def nat_less_iff)
  then have "finite_fl (fl_of_int binary32 i) \<and>
      val (fl_of_int binary32 i) = (if i < 0 then -1 else 1) * real (nat \<bar>i\<bar>) * 2 powi 0"
    unfolding fl_of_int_def by (rule fl_round_exact) (simp_all add: binary32_def)
  then show ?thesis by simp
qed

text \<open>Truncation of a number that is not negative is the floor of its value.\<close>

lemma fl_trunc_floor:
  assumes "finite_fl x" "0 \<le> val x"
  shows "fl_trunc x = \<lfloor>val x\<rfloor>"
proof -
  obtain s m e where x: "x = Num s m e" using assms(1) by (cases x) simp_all
  have pos: "(0 :: real) < 2 powi e" by simp
  show ?thesis
  proof (cases "s \<and> m \<noteq> 0")
    case True
    then have "real m * 2 powi e \<le> 0" using assms(2) x by simp
    then show ?thesis using True pos by (simp add: mult_le_0_iff)
  next
    case False
    have v: "val x = real m * 2 powi e" using False by (auto simp: x)
    have t: "fl_trunc x = int (if e \<ge> 0 then m * 2 ^ nat e else m div 2 ^ nat (- e))"
      using False by (auto simp: x)
    show ?thesis
    proof (cases "e \<ge> 0")
      case True
      then have "(2 :: real) powi e = 2 ^ nat e" by (metis nat_0_le power_int_of_nat)
      then have "val x = of_int (int (m * 2 ^ nat e))" by (simp add: v)
      then show ?thesis using True t by (simp only: floor_of_int) simp
    next
      case neg: False
      then have "(2 :: real) powi e = inverse (2 ^ nat (- e))"
        by (simp add: power_int_def power_one_over inverse_eq_divide)
      then have "val x = real m / real (2 ^ nat (- e))" by (simp add: v divide_inverse)
      then have "\<lfloor>val x\<rfloor> = int (m div 2 ^ nat (- e))" by (simp only: floor_divide_of_nat_eq)
      then show ?thesis using neg t by simp
    qed
  qed
qed

end
