(* ===== verification/CWReal.thy ===== *)
theory CWReal
  imports CWCodec IEEE
begin

text \<open>
  \<open>cw_pack_real\<close> (\<^verbatim>\<open>src/src/cwpack/cwpack.c\<close>): a double that a float represents exactly is packed as a
  float, any other as a double. The bit patterns of canonical numbers are shown to be faithful,
  so that nothing is lost.
\<close>

definition cw_pack_real :: "pack_overflow_handler option \<Rightarrow> u64 \<Rightarrow> pack_state \<Rightarrow> pack_state" where
  "cw_pack_real hpo d s =
     (let f = fl_convert binary32 (fl_of_bits64 d); df = fl_convert binary64 f in
      if fl_eq df (fl_of_bits64 d) then cw_pack_float hpo (bits32_of_fl f) s
      else cw_pack_double hpo d s)"

section \<open>Canonical numbers\<close>

text \<open>A mantissa that fits, normalised unless the exponent is the smallest one.\<close>

fun canonical :: "fmt \<Rightarrow> fl \<Rightarrow> bool" where
  "canonical F (Num s m e) = (m < 2 ^ prec F \<and> emin F \<le> e \<and> e \<le> emax F \<and> (m < 2 ^ (prec F - 1) \<longrightarrow> e = emin F))"
| "canonical F _ = True"

lemma bitlen_lower: "m \<noteq> 0 \<Longrightarrow> 2 ^ (bitlen m - 1) \<le> m"
proof (induction m rule: bitlen.induct)
  case (1 n)
  show ?case
  proof (cases "n div 2 = 0")
    case True
    then have "n = 1" using 1(2) by linarith
    then show ?thesis by (simp add: bitlen.simps)
  next
    case False
    then have "2 ^ (bitlen (n div 2) - 1) \<le> n div 2" using 1 by simp
    moreover have "bitlen (n div 2) \<noteq> 0" using False by (simp add: bitlen.simps)
    then have "2 ^ (bitlen n - 1) = 2 * (2 :: nat) ^ (bitlen (n div 2) - 1)"
      using 1(2) by (simp add: bitlen.simps [of n] flip: power_Suc)
    ultimately show ?thesis by linarith
  qed
qed

lemma round_shift_bounds: "m div 2 ^ k \<le> round_shift m k" "round_shift m k \<le> m div 2 ^ k + 1"
  by (simp_all add: round_shift_def Let_def)

lemma fl_round_canonical:
  assumes "1 \<le> prec F" "emin F \<le> emax F"
  shows "canonical F (fl_round F s m e)"
proof (cases "m = 0")
  case True
  then show ?thesis using assms by (simp add: fl_round_def)
next
  case False
  define p sh where "p = prec F" and "sh = max (int (bitlen m) - int p) (emin F - e)"
  define m1 where "m1 = (if sh \<le> 0 then m * 2 ^ nat (- sh) else round_shift m (nat sh))"
  have p: "1 \<le> p" using assms(1) by (simp add: p_def)
  have bl: "1 \<le> bitlen m" using False by (simp add: bitlen.simps)
  have hi: "m < 2 ^ bitlen m" by (rule bitlen_less)
  have lo: "2 ^ (bitlen m - 1) \<le> m" using False by (rule bitlen_lower)
  have up: "m1 \<le> 2 ^ p"
  proof (cases "sh \<le> 0")
    case True
    have "m1 \<le> 2 ^ bitlen m * 2 ^ nat (- sh)" using hi True by (simp add: m1_def)
    also have "\<dots> = 2 ^ (bitlen m + nat (- sh))" by (simp add: power_add)
    also have "\<dots> \<le> 2 ^ p" using True by (intro power_increasing) (auto simp: sh_def)
    finally show ?thesis .
  next
    case False
    have "2 ^ bitlen m \<le> (2 :: nat) ^ (p + nat sh)"
      using False by (intro power_increasing) (auto simp: sh_def)
    then have "m < 2 ^ p * 2 ^ nat sh" using hi by (simp add: power_add)
    then have "m div 2 ^ nat sh < 2 ^ p" by (simp add: less_mult_imp_div_less)
    then show ?thesis using False round_shift_bounds(2) [of m "nat sh"] by (simp add: m1_def)
  qed
  have down: "e + sh \<noteq> emin F \<longrightarrow> 2 ^ (p - 1) \<le> m1"
  proof
    assume "e + sh \<noteq> emin F"
    then have sh: "sh = int (bitlen m) - int p" by (auto simp: sh_def)
    show "2 ^ (p - 1) \<le> m1"
    proof (cases "sh \<le> 0")
      case True
      have "p - 1 = (bitlen m - 1) + nat (- sh)" using True sh bl by simp
      then have "(2 :: nat) ^ (p - 1) = 2 ^ (bitlen m - 1) * 2 ^ nat (- sh)" by (simp add: power_add)
      then show ?thesis using True lo by (simp add: m1_def)
    next
      case False
      have "bitlen m - 1 = (p - 1) + nat sh" using False sh p by simp
      then have "(2 :: nat) ^ (p - 1) * 2 ^ nat sh \<le> m" using lo by (simp add: power_add)
      then have "2 ^ (p - 1) \<le> m div 2 ^ nat sh" by (simp add: less_eq_div_iff_mult_less_eq)
      then show ?thesis using False round_shift_bounds(1) [where m = m and k = "nat sh"] by (simp add: m1_def)
    qed
  qed
  have em: "emin F \<le> e + sh" by (simp add: sh_def)
  have "fl_round F s m e = (if m1 = 2 ^ p then (if e + sh + 1 > emax F then Inf s else Num s (2 ^ (p - 1)) (e + sh + 1))
      else (if e + sh > emax F then Inf s else Num s m1 (e + sh)))"
    using False by (simp add: fl_round_def Let_def p_def sh_def m1_def)
  then show ?thesis using up down em p by (auto simp: p_def [symmetric] not_less intro: power_strict_increasing)
qed

section \<open>Rounding depends on the value only\<close>

lemma bitlen_shift: "m \<noteq> 0 \<Longrightarrow> bitlen (m * 2 ^ k) = bitlen m + k"
  by (induction k) (simp_all add: bitlen.simps [of "2 * (m * 2 ^ k)" for k] mult.left_commute [of m 2])

lemma round_shift_shift: "round_shift (m * 2 ^ k) (n + k) = round_shift m n"
  by (simp add: round_shift_def power_add mult.commute [of _ "2 ^ k"] mult_mod_right [symmetric] Let_def
      mult.left_commute [of 2 "2 ^ k"])

lemma round_shift_within: "n \<le> k \<Longrightarrow> round_shift (m * 2 ^ k) n = m * 2 ^ (k - n)"
proof -
  assume "n \<le> k"
  then have "m * 2 ^ k = m * 2 ^ (k - n) * 2 ^ n" by (simp flip: power_add)
  then show ?thesis by (simp only: round_shift_def Let_def) simp
qed

lemma fl_round_shift: "fl_round F s (m * 2 ^ k) (e - int k) = fl_round F s m e"
proof (cases "m = 0")
  case False
  define sh where "sh = max (int (bitlen m) - int (prec F)) (emin F - e)"
  have sh': "max (int (bitlen (m * 2 ^ k)) - int (prec F)) (emin F - (e - int k)) = sh + int k"
    using False by (simp add: bitlen_shift sh_def)
  have "(if sh + int k \<le> 0 then m * 2 ^ k * 2 ^ nat (- (sh + int k)) else round_shift (m * 2 ^ k) (nat (sh + int k))) =
    (if sh \<le> 0 then m * 2 ^ nat (- sh) else round_shift m (nat sh))"
  proof -
    consider "sh + int k \<le> 0" | "sh \<le> 0" "0 < sh + int k" | "0 < sh" by linarith
    then show ?thesis
    proof cases
      case 1
      then have "nat (- sh) = k + nat (- (sh + int k))" by simp
      then show ?thesis using 1 by (simp add: power_add)
    next
      case 2
      then have "nat (- sh) = k - nat (sh + int k)" by simp
      then show ?thesis using 2 by (simp add: round_shift_within)
    next
      case 3
      then have "nat (sh + int k) = nat sh + k" by simp
      then show ?thesis using 3 by (simp add: round_shift_shift)
    qed
  qed
  then show ?thesis
    using False unfolding fl_round_def sh' sh_def [symmetric] Let_def by simp
qed (simp add: fl_round_def)

section \<open>Bit patterns\<close>

lemma sign_word:
  assumes "k < 2 ^ 31"
  shows "(if s then 0x80000000 else 0) OR of_nat k = (of_nat ((if s then 2 ^ 31 else 0) + k) :: u32)"
proof -
  have t: "take_bit 31 (of_nat k :: u32) = of_nat k" 
    using assms by (simp add: take_bit_nat_eq_self flip: of_nat_take_bit)
  have "\<not> bit (push_bit 31 1 :: u32) n \<or> \<not> bit (of_nat k :: u32) n" for n
    by (subst t [symmetric]) (simp only: bit_push_bit_iff bit_take_bit_iff bit_1_iff, auto)
  from disjunctive_add [OF this] show ?thesis by (simp add: push_bit_eq_mult)
qed

lemma fl_of_bits32_of_nat:
  assumes "x < 256" "f < 2 ^ 23"
  shows "fl_of_bits32 (of_nat ((if s then 2 ^ 31 else 0) + (x * 2 ^ 23 + f))) =
    (if x = 255 then (if f = 0 then Inf s else NaN)
     else if x = 0 then Num s f (-149) else Num s (f + 2 ^ 23) (int x - 150))"
proof -
  define n w where "n = (if s then 2 ^ 31 else 0) + (x * 2 ^ 23 + f)" and "w = (of_nat n :: u32)"
  have "n < 2 ^ 32" using assms by (auto simp: n_def)
  then have u: "unat w = n" by (simp add: w_def unat_of_nat)
  have m: "0xff = (mask 8 :: u32)" "0x7fffff = (mask 23 :: u32)" by (simp_all add: mask_eq_exp_minus_1)
  have "unat (drop_bit 23 w AND 0xff) = n div 2 ^ 23 mod 2 ^ 8"
    by (simp only: m flip: take_bit_eq_mask) (simp add: u take_bit_eq_mod drop_bit_eq_div unat_div_distrib unat_mod_distrib)
  moreover have nf: "n = f + ((if s then 256 else 0) + x) * 2 ^ 23" by (simp add: n_def)
  then have "n div 2 ^ 23 = (if s then 256 else 0) + x" using assms by (simp only: div_mult_self1) simp
  then have "n div 2 ^ 23 mod 2 ^ 8 = x" using assms by simp
  moreover have "unat (w AND 0x7fffff) = n mod 2 ^ 23"
    by (simp only: m flip: take_bit_eq_mask) (simp add: u take_bit_eq_mod unat_mod_distrib)
  moreover have "n mod 2 ^ 23 = f" using assms unfolding nf by (simp only: mod_mult_self1) simp
  moreover have "bit w 31 = s"
    using assms bit_unsigned_iff [where 'a = nat, of w 31] by (cases s) (auto simp: u n_def bit_iff_odd)
  ultimately show ?thesis
    unfolding fl_of_bits32_def Let_def n_def [symmetric] w_def [symmetric] by (simp only:)
qed

lemma bits32_round_trip:
  assumes "canonical binary32 x"
  shows "fl_of_bits32 (bits32_of_fl x) = x"
proof (cases x)
  case NaN
  then show ?thesis using fl_of_bits32_of_nat [of 255 "2 ^ 22" False] by simp
next
  case (Inf s)
  then show ?thesis using fl_of_bits32_of_nat [of 255 0 s] by (cases s) simp_all
next
  case (Num s m e)
  show ?thesis
  proof (cases "m < 2 ^ 23")
    case True
    then show ?thesis using Num assms fl_of_bits32_of_nat [of 0 m s]
      by (simp add: sign_word fmt_defs)
  next
    case False
    have c: "m < 2 ^ 24" "- 149 \<le> e" "e \<le> 104" using Num assms by (simp_all add: fmt_defs)
    define k where "k = nat (e + 150) * 2 ^ 23 + (m - 2 ^ 23)"
    have "k < 2 ^ 31" using c False by (simp add: k_def)
    then have "bits32_of_fl x = of_nat ((if s then 2 ^ 31 else 0) + k)"
      using Num False by (simp only: bits32_of_fl.simps if_False k_def [symmetric] sign_word)
    moreover have "nat (e + 150) < 256" "m - 2 ^ 23 < 2 ^ 23" using c False by simp_all
    note fl_of_bits32_of_nat [OF this, of s, folded k_def]
    ultimately show ?thesis using Num False c by simp
  qed
qed

section \<open>Exact conversions\<close>

lemma abs_val: "\<bar>val (Num s m e)\<bar> = real m * 2 powi e"
  by (simp add: abs_mult)

text \<open>A number whose value a canonical number of the format has is rounded to that value.\<close>

lemma fl_round_representable:
  assumes "canonical F (Num t n f)" "val (Num s m e) = val (Num t n f)"
  shows "finite_fl (fl_round F s m e) \<and> val (fl_round F s m e) = val (Num s m e)"
proof (cases "m = 0")
  case True
  then show ?thesis by (simp add: fl_round_def)
next
  case False
  have c: "n < 2 ^ prec F" "emin F \<le> f" "f \<le> emax F" using assms(1) by simp_all
  have eq: "real m * 2 powi e = real n * 2 powi f"
    using assms(2) abs_val [of s m e] abs_val [of t n f] by simp
  show ?thesis
  proof (cases "e \<le> f")
    case True
    have "real m = real n * 2 powi (f - e)" using eq by (simp add: power_int_diff divide_simps)
    also have "\<dots> = real (n * 2 ^ nat (f - e))" using True by (simp add: power_int_def)
    finally have "m = n * 2 ^ nat (f - e)" by (simp only: of_nat_eq_iff)
    then have "fl_round F s m e = fl_round F s n f"
      using fl_round_shift [of F s n "nat (f - e)" f] True by simp
    then show ?thesis using fl_round_exact [OF c, of s] eq by simp
  next
    case False
    have "real n = real m * 2 powi (e - f)" using eq by (simp add: power_int_diff divide_simps)
    also have "\<dots> = real (m * 2 ^ nat (e - f))" using False by (simp add: power_int_def)
    finally have "n = m * 2 ^ nat (e - f)" by (simp only: of_nat_eq_iff)
    then have "fl_round F s m e = fl_round F s n f"
      using fl_round_shift [of F s m "nat (e - f)" e] False by simp
    then show ?thesis using fl_round_exact [OF c, of s] eq by simp
  qed
qed

lemma canonical_of_bits32: "canonical binary32 (fl_of_bits32 w)"
proof -
  have "unat (drop_bit 23 w AND 0xff) \<le> 255" "unat (w AND 0x7fffff) \<le> 0x7fffff"
    using word_and_le1 [of "drop_bit 23 w" "0xff"] word_and_le1 [of w "0x7fffff"]
    by (simp_all add: word_le_nat_alt)
  moreover have "canonical binary32 (let s = bit w 31 in
      if x = 255 then (if f = 0 then Inf s else NaN)
      else if x = 0 then Num s f (-149) else Num s (f + 2 ^ 23) (int x - 150))"
    if "x \<le> 255" "f \<le> 0x7fffff" for x f
    using that by (auto simp: Let_def fmt_defs)
  ultimately show ?thesis by (simp only: fl_of_bits32_def Let_def)
qed

lemma widen_exact:
  assumes "canonical binary32 (Num s m e)"
  shows "finite_fl (fl_convert binary64 (Num s m e)) \<and> val (fl_convert binary64 (Num s m e)) = val (Num s m e)"
  using assms fl_round_exact [of m binary64 e s] by (simp add: fmt_defs)

text \<open>If any float has the value of the double, rounding the double to a float keeps the value.\<close>

lemma narrow_exact:
  assumes "canonical binary32 g" "fl_eq (fl_convert binary64 g) x"
  shows "fl_eq (fl_convert binary64 (fl_convert binary32 x)) x"
proof (cases g)
  case NaN
  then show ?thesis using assms(2) by simp
next
  case (Inf s)
  then show ?thesis using assms(2) by (cases x) auto
next
  case (Num s m e)
  note w = widen_exact [OF assms(1) [unfolded Num]]
  obtain t n f where x: "x = Num t n f"
    using assms(2) w by (cases "fl_convert binary64 g"; cases x) (auto simp: Num)
  have "val x = val g" using assms(2) w fl_compare_val(2) [of "fl_convert binary64 g" x] by (simp add: x Num)
  then have r: "finite_fl (fl_convert binary32 x)" "val (fl_convert binary32 x) = val x"
    using fl_round_representable [of binary32 s m e t n f] assms(1) by (simp_all add: x Num)
  have "canonical binary32 (fl_convert binary32 x)" by (simp add: x fl_round_canonical fmt_defs)
  then have "finite_fl (fl_convert binary64 (fl_convert binary32 x)) \<and>
    val (fl_convert binary64 (fl_convert binary32 x)) = val x"
    using r widen_exact by (cases "fl_convert binary32 x") auto
  then show ?thesis using fl_compare_val(2) [of _ x] by (simp add: x)
qed

section \<open>The property\<close>

text \<open>C15. \<open>cw_pack_real\<close> writes the shortest encoding and loses nothing: if some float has the value
  of the double, the five bytes of such a float are written, otherwise (a NaN included) the nine
  bytes of the double itself.\<close>

theorem pack_real_exact:
  assumes "no_wrap 9 s"
  shows "if \<exists>f. fl_eq (fl_convert binary64 (fl_of_bits32 f)) (fl_of_bits64 d)
    then \<exists>f. cw_pack_real None d s = pack_bytes (encode old (MFloat f)) s \<and>
      fl_eq (fl_convert binary64 (fl_of_bits32 f)) (fl_of_bits64 d)
    else cw_pack_real None d s = pack_bytes (encode old (MDouble d)) s"
proof -
  define x where "x = fl_convert binary32 (fl_of_bits64 d)"
  have n: "no_wrap 5 s" using assms by (simp add: no_wrap_def)
  have "canonical binary32 x"
    unfolding x_def by (cases "fl_of_bits64 d") (simp_all add: fl_round_canonical fmt_defs)
  then have b: "fl_of_bits32 (bits32_of_fl x) = x" by (rule bits32_round_trip)
  show ?thesis
  proof (cases "fl_eq (fl_convert binary64 x) (fl_of_bits64 d)")
    case True
    then have "cw_pack_real None d s = pack_bytes (encode old (MFloat (bits32_of_fl x))) s"
      using n by (simp add: cw_pack_real_def x_def [symmetric] cw_pack_simple_refines)
    then show ?thesis using True b by (metis (full_types))
  next
    case False
    then have "\<not> fl_eq (fl_convert binary64 (fl_of_bits32 f)) (fl_of_bits64 d)" for f
      using narrow_exact [OF canonical_of_bits32] by (auto simp: x_def)
    then show ?thesis
      using False assms by (simp add: cw_pack_real_def x_def [symmetric] cw_pack_simple_refines)
  qed
qed

theorem pack_real_exact_witness:
  "let s = snd (cw_pack_context_init (\<lambda>_. 0) 0x1000 64) in
   no_wrap 9 s \<and> (\<exists>f. cw_pack_real None 0x3ff8000000000000 s = pack_bytes (encode False (MFloat f)) s)"
proof -
  have n: "no_wrap 9 (snd (cw_pack_context_init (\<lambda>_. 0) 0x1000 64))"
    by (simp add: no_wrap_def cw_pack_context_init_def)
  have "fl_eq (fl_convert binary64 (fl_of_bits32 0x3fc00000)) (fl_of_bits64 0x3ff8000000000000)"
    by (simp add: fl_of_bits32_def fl_of_bits64_def bit_iff_odd_drop_bit fl_round_def fmt_defs bitlen.simps
        scaled_def)
  then show ?thesis
    using n pack_real_exact [OF n, of "0x3ff8000000000000" False] unfolding Let_def
    by (meson)
qed

end
