(* ===== verification/ChTime.thy ===== *)
theory ChTime
  imports Prelude
begin

text \<open>
  System time (\<^verbatim>\<open>os/rt/include/chtime.h\<close>): 32-bit tick counts at 10 kHz, 32-bit intervals and
  the conversions between ticks and seconds, milliseconds and microseconds, computed in 64 bits
  as the header does. A failed \<open>chDbgAssert\<close> halts the system; it is the result \<open>None\<close>.
\<close>

type_synonym systime = u32
type_synonym sysinterval = u32
type_synonym time_conv = u64

definition CH_CFG_ST_FREQUENCY :: time_conv where "CH_CFG_ST_FREQUENCY = 10000"
definition TIME_IMMEDIATE :: sysinterval where "TIME_IMMEDIATE = 0"
definition TIME_INFINITE :: sysinterval where "TIME_INFINITE = -1"
definition TIME_MAX_INTERVAL :: sysinterval where "TIME_MAX_INTERVAL = -2"

text \<open>\<open>chDbgAssert(c, _)\<close> followed by \<open>return v\<close>.\<close>

definition asserted :: "bool \<Rightarrow> 'a \<Rightarrow> 'a option" where
  "asserted c v = (if c then Some v else None)"

definition TIME_S2I :: "u32 \<Rightarrow> sysinterval" where
  "TIME_S2I secs = ucast ((ucast secs :: time_conv) * CH_CFG_ST_FREQUENCY)"

definition TIME_MS2I :: "u32 \<Rightarrow> sysinterval" where
  "TIME_MS2I msecs = ucast (((ucast msecs :: time_conv) * CH_CFG_ST_FREQUENCY + 999) div 1000)"

definition TIME_US2I :: "u32 \<Rightarrow> sysinterval" where
  "TIME_US2I usecs = ucast (((ucast usecs :: time_conv) * CH_CFG_ST_FREQUENCY + 999999) div 1000000)"

definition TIME_I2S :: "sysinterval \<Rightarrow> u32" where
  "TIME_I2S interval = ucast (((ucast interval :: time_conv) + CH_CFG_ST_FREQUENCY - 1) div CH_CFG_ST_FREQUENCY)"

definition TIME_I2MS :: "sysinterval \<Rightarrow> u32" where
  "TIME_I2MS interval =
     ucast (((ucast interval :: time_conv) * 1000 + CH_CFG_ST_FREQUENCY - 1) div CH_CFG_ST_FREQUENCY)"

definition TIME_I2US :: "sysinterval \<Rightarrow> u32" where
  "TIME_I2US interval =
     ucast (((ucast interval :: time_conv) * 1000000 + CH_CFG_ST_FREQUENCY - 1) div CH_CFG_ST_FREQUENCY)"

definition chTimeS2I :: "u32 \<Rightarrow> sysinterval option" where
  "chTimeS2I secs = (let ticks = (ucast secs :: time_conv) * CH_CFG_ST_FREQUENCY in
     asserted (ticks \<le> ucast TIME_MAX_INTERVAL) (ucast ticks))"

definition chTimeMS2I :: "u32 \<Rightarrow> sysinterval option" where
  "chTimeMS2I msec = (let ticks = ((ucast msec :: time_conv) * CH_CFG_ST_FREQUENCY + 999) div 1000 in
     asserted (ticks \<le> ucast TIME_MAX_INTERVAL) (ucast ticks))"

definition chTimeUS2I :: "u32 \<Rightarrow> sysinterval option" where
  "chTimeUS2I usec = (let ticks = ((ucast usec :: time_conv) * CH_CFG_ST_FREQUENCY + 999999) div 1000000 in
     asserted (ticks \<le> ucast TIME_MAX_INTERVAL) (ucast ticks))"

definition chTimeI2S :: "sysinterval \<Rightarrow> u32 option" where
  "chTimeI2S interval =
     (let secs = ((ucast interval :: time_conv) + CH_CFG_ST_FREQUENCY - 1) div CH_CFG_ST_FREQUENCY in
      asserted (secs < ucast (-1 :: u32)) (ucast secs))"

definition chTimeI2MS :: "sysinterval \<Rightarrow> u32 option" where
  "chTimeI2MS interval =
     (let msecs = ((ucast interval :: time_conv) * 1000 + CH_CFG_ST_FREQUENCY - 1) div CH_CFG_ST_FREQUENCY in
      asserted (msecs < ucast (-1 :: u32)) (ucast msecs))"

definition chTimeI2US :: "sysinterval \<Rightarrow> u32 option" where
  "chTimeI2US interval =
     (let usecs = ((ucast interval :: time_conv) * 1000000 + CH_CFG_ST_FREQUENCY - 1) div CH_CFG_ST_FREQUENCY in
      asserted (usecs \<le> ucast (-1 :: u32)) (ucast usecs))"

definition chTimeAddX :: "systime \<Rightarrow> sysinterval \<Rightarrow> systime" where
  "chTimeAddX systime interval = systime + interval"

definition chTimeDiffX :: "systime \<Rightarrow> systime \<Rightarrow> sysinterval" where
  "chTimeDiffX start e = e - start"

definition chTimeIsInRangeX :: "systime \<Rightarrow> systime \<Rightarrow> systime \<Rightarrow> bool" where
  "chTimeIsInRangeX time start e \<longleftrightarrow> time - start < e - start"

section \<open>The conversions in natural numbers\<close>

lemma conv_mult_add:
  fixes x :: u32
  assumes "k \<le> 10000000" "c \<le> 10000000"
  shows "unat ((ucast x :: time_conv) * of_nat k + of_nat c) = unat x * k + c"
proof -
  have x: "unat x < 2 ^ 32" using unsigned_less [of x, where ?'a = nat] by simp
  have "unat x * k \<le> 2 ^ 32 * 10000000" using x assms(1) by (intro mult_mono) auto
  then have b: "unat x * k + c < 2 ^ 64" using assms(2) by simp
  have "unat (ucast x :: time_conv) = unat x" by (simp add: unat_ucast_up)
  moreover have "unat (of_nat k :: time_conv) = k" "unat (of_nat c :: time_conv) = c"
    using assms by (simp_all add: unat_of_nat)
  ultimately show ?thesis using b by (simp add: unat_word_ariths)
qed

lemma frequency_nat: "CH_CFG_ST_FREQUENCY = of_nat 10000"
  by (simp add: CH_CFG_ST_FREQUENCY_def)

lemma to_ticks_nat:
  fixes ms us sec :: u32
  shows
  "unat (((ucast ms :: time_conv) * CH_CFG_ST_FREQUENCY + 999) div 1000) = (unat ms * 10000 + 999) div 1000"
  "unat (((ucast us :: time_conv) * CH_CFG_ST_FREQUENCY + 999999) div 1000000) = (unat us * 10000 + 999999) div 1000000"
  "unat ((ucast sec :: time_conv) * CH_CFG_ST_FREQUENCY) = unat sec * 10000"
  using conv_mult_add [of 10000 999 ms] conv_mult_add [of 10000 999999 us] conv_mult_add [of 10000 0 sec]
  by (simp_all add: unat_div CH_CFG_ST_FREQUENCY_def)

lemma from_ticks_nat:
  fixes i :: u32
  shows
  "unat (((ucast i :: time_conv) * 1000 + CH_CFG_ST_FREQUENCY - 1) div CH_CFG_ST_FREQUENCY) =
     (unat i * 1000 + 9999) div 10000"
  "unat (((ucast i :: time_conv) * 1000000 + CH_CFG_ST_FREQUENCY - 1) div CH_CFG_ST_FREQUENCY) =
     (unat i * 1000000 + 9999) div 10000"
  "unat (((ucast i :: time_conv) + CH_CFG_ST_FREQUENCY - 1) div CH_CFG_ST_FREQUENCY) = (unat i + 9999) div 10000"
  using conv_mult_add [of 1000 9999 i] conv_mult_add [of 1000000 9999 i] conv_mult_add [of 1 9999 i]
  by (simp_all add: unat_div CH_CFG_ST_FREQUENCY_def add_diff_eq [symmetric])

text \<open>A conversion that does not fail is the rounded-up quotient of natural numbers.\<close>

lemma chTimeMS2I_eq:
  "chTimeMS2I ms = (if unat ms * 10 \<le> 2 ^ 32 - 2 then Some (of_nat (unat ms * 10)) else None)"
proof -
  have "(unat ms * 10000 + 999) div 1000 = unat ms * 10" by simp
  then have t: "unat (((ucast ms :: time_conv) * CH_CFG_ST_FREQUENCY + 999) div 1000) = unat ms * 10"
    by (simp add: to_ticks_nat)
  have "ucast (((ucast ms :: time_conv) * CH_CFG_ST_FREQUENCY + 999) div 1000) = (of_nat (unat ms * 10) :: u32)"
    by (simp flip: t)
  then show ?thesis by (simp add: chTimeMS2I_def asserted_def Let_def word_le_nat_alt t TIME_MAX_INTERVAL_def)
qed

text \<open>C13. Converting milliseconds to ticks and back returns the milliseconds whenever the conversion
  does not run into its overflow assertion.\<close>

theorem time_ms_round_trip:
  assumes "chTimeMS2I ms = Some ticks"
  shows "unat ticks = unat ms * 10 \<and> chTimeI2MS ticks = Some ms"
proof -
  have le: "unat ms * 10 \<le> 2 ^ 32 - 2" and t: "ticks = of_nat (unat ms * 10)"
    using assms by (simp_all add: chTimeMS2I_eq split: if_splits)
  then have u: "unat ticks = unat ms * 10" by (simp only: t unat_of_nat take_bit_nat_eq_self) simp
  let ?m = "((ucast ticks :: time_conv) * 1000 + CH_CFG_ST_FREQUENCY - 1) div CH_CFG_ST_FREQUENCY"
  have m: "unat ?m = unat ms" by (simp add: from_ticks_nat u)
  then have "(ucast ?m :: u32) = ms" by (metis of_nat_unat ucast_id)
  moreover have "(-1 :: u32) = 0xffffffff" by simp
  then have "?m < ucast (-1 :: u32)" using le by (simp only: word_less_nat_alt m) simp
  ultimately show ?thesis using u by (simp add: chTimeI2MS_def asserted_def Let_def)
qed

theorem time_ms_round_trip_witness:
  "chTimeMS2I 20 = Some 200 \<and> chTimeI2MS 200 = Some 20"
proof -
  have "chTimeMS2I 20 = Some 200" by (simp add: chTimeMS2I_eq)
  with time_ms_round_trip [OF this] show ?thesis by simp
qed


end
