(* ===== verification/Tach.thy ===== *)
theory Tach
  imports Prelude
begin

text \<open>
  Hall sensors and tachometer (\<^verbatim>\<open>src/src/hall_sensors.c\<close>, \<^verbatim>\<open>src/src/tach.c\<close>): the three sensor lines give
  a state, the state one of six segments of the electrical revolution, and the tachometer counts
  segments with sign. A line is read through \<open>palReadLine\<close>, here the argument \<open>read\<close>.
\<close>

record hall_sensors =
  line_a :: u32
  line_b :: u32
  line_c :: u32

type_synonym hall_state = u32

definition HALL_SENSOR_STATE_LOW :: hall_state where "HALL_SENSOR_STATE_LOW = 0b000"
definition HALL_SENSOR_STATE_0 :: hall_state where "HALL_SENSOR_STATE_0 = 0b001"
definition HALL_SENSOR_STATE_60 :: hall_state where "HALL_SENSOR_STATE_60 = 0b101"
definition HALL_SENSOR_STATE_120 :: hall_state where "HALL_SENSOR_STATE_120 = 0b100"
definition HALL_SENSOR_STATE_180 :: hall_state where "HALL_SENSOR_STATE_180 = 0b110"
definition HALL_SENSOR_STATE_240 :: hall_state where "HALL_SENSOR_STATE_240 = 0b010"
definition HALL_SENSOR_STATE_300 :: hall_state where "HALL_SENSOR_STATE_300 = 0b011"
definition HALL_SENSOR_STATE_HIGH :: hall_state where "HALL_SENSOR_STATE_HIGH = 0b111"

lemmas hall_state_defs = HALL_SENSOR_STATE_LOW_def HALL_SENSOR_STATE_0_def HALL_SENSOR_STATE_60_def
  HALL_SENSOR_STATE_120_def HALL_SENSOR_STATE_180_def HALL_SENSOR_STATE_240_def
  HALL_SENSOR_STATE_300_def HALL_SENSOR_STATE_HIGH_def

definition HallSensorsGetState :: "(u32 \<Rightarrow> bool) \<Rightarrow> hall_sensors \<Rightarrow> hall_state" where
  "HallSensorsGetState read hs =
     (if read (line_a hs) then 0b001 else 0b000) OR
     (if read (line_b hs) then 0b010 else 0b000) OR
     (if read (line_c hs) then 0b100 else 0b000)"

definition HallSensorsStateToSegment :: "hall_state \<Rightarrow> int" where
  "HallSensorsStateToSegment state =
     (if state = HALL_SENSOR_STATE_60 then 1
      else if state = HALL_SENSOR_STATE_120 then 2
      else if state = HALL_SENSOR_STATE_180 then 3
      else if state = HALL_SENSOR_STATE_240 then 4
      else if state = HALL_SENSOR_STATE_300 then 5
      else 0)"

text \<open>The counter is a 32-bit \<open>int\<close>; it is kept as the word it is stored in.\<close>

record tach =
  current_segment :: int
  counter :: u32

definition TachInit :: "hall_state \<Rightarrow> tach \<Rightarrow> tach" where
  "TachInit initial_state t = t\<lparr>current_segment := HallSensorsStateToSegment initial_state\<rparr>"

definition TachUpdate :: "hall_state \<Rightarrow> tach \<Rightarrow> u32 \<times> tach" where
  "TachUpdate current_state t =
     (let new_segment = HallSensorsStateToSegment current_state;
          segment_diff = new_segment - current_segment t;
          segment_diff = (if segment_diff > 2 then segment_diff - 6 else segment_diff);
          segment_diff = (if segment_diff < -2 then segment_diff + 6 else segment_diff);
          t' = t\<lparr>counter := counter t + of_int segment_diff, current_segment := new_segment\<rparr>
      in (counter t', t'))"

section \<open>Counting segments\<close>

definition tach_ok :: "tach \<Rightarrow> bool" where
  "tach_ok t \<longleftrightarrow> 0 \<le> current_segment t \<and> current_segment t < 6"

text \<open>The signed number of segments between two segments, at most half a turn.\<close>

definition turn :: "int \<Rightarrow> int \<Rightarrow> int" where
  "turn a b = (let d = b - a; d = (if d > 2 then d - 6 else d) in if d < -2 then d + 6 else d)"

lemma segment_range: "0 \<le> HallSensorsStateToSegment st" "HallSensorsStateToSegment st < 6"
  by (simp_all add: HallSensorsStateToSegment_def)

lemma TachUpdate_turn:
  "snd (TachUpdate st t) = \<lparr>current_segment = HallSensorsStateToSegment st,
     counter = counter t + of_int (turn (current_segment t) (HallSensorsStateToSegment st))\<rparr>"
  by (cases t) (simp add: TachUpdate_def turn_def Let_def)

lemma TachUpdate_ok: "tach_ok (snd (TachUpdate st t))"
  by (simp add: TachUpdate_turn tach_ok_def segment_range)

text \<open>The sensor state of a rotor position, counted in segments from the reference.\<close>

definition state_of_position :: "int \<Rightarrow> hall_state" where
  "state_of_position p =
     [HALL_SENSOR_STATE_0, HALL_SENSOR_STATE_60, HALL_SENSOR_STATE_120, HALL_SENSOR_STATE_180,
      HALL_SENSOR_STATE_240, HALL_SENSOR_STATE_300] ! nat (p mod 6)"

lemma segment_of_position: "HallSensorsStateToSegment (state_of_position p) = p mod 6"
proof -
  have "p mod 6 \<in> {0, 1, 2, 3, 4, 5}" by auto
  then show ?thesis
    by (elim insertE emptyE; simp add: state_of_position_def HallSensorsStateToSegment_def hall_state_defs)
qed

lemma turn_mod:
  assumes "\<bar>q - p\<bar> \<le> 2"
  shows "turn (p mod 6) (q mod 6) = q - p"
proof -
  define d where "d = q - p"
  have q: "q mod 6 = (p mod 6 + d) mod 6" by (simp add: d_def mod_simps)
  have "d \<in> {-2, -1, 0, 1, 2}" "p mod 6 \<in> {0, 1, 2, 3, 4, 5}" using assms by (auto simp: d_def)
  then show ?thesis unfolding q d_def [symmetric] by (elim insertE emptyE; simp add: turn_def)
qed

fun slow_path :: "int \<Rightarrow> int list \<Rightarrow> bool" where
  "slow_path p [] = True"
| "slow_path p (q # qs) = (\<bar>q - p\<bar> \<le> 2 \<and> slow_path q qs)"

definition tach_run :: "hall_state list \<Rightarrow> tach \<Rightarrow> tach" where
  "tach_run sts t = fold (\<lambda>st t. snd (TachUpdate st t)) sts t"

text \<open>C8. As long as the rotor moves by at most two segments between updates, the counter of the
  tachometer changes by exactly the distance travelled (modulo the width of \<open>int\<close>), over any
  number of updates, in both directions and across the segment wrap.\<close>

theorem tach_tracks_position:
  assumes "slow_path p qs"
  shows "tach_run (map state_of_position qs) (TachInit (state_of_position p) t) =
     \<lparr>current_segment = last (p # qs) mod 6, counter = counter t + of_int (last (p # qs) - p)\<rparr>"
proof -
  have "tach_run (map state_of_position qs) \<lparr>current_segment = p mod 6, counter = c\<rparr> =
     \<lparr>current_segment = last (p # qs) mod 6, counter = c + of_int (last (p # qs) - p)\<rparr>" for c
    using assms
    by (induction qs arbitrary: p c)
      (simp_all add: tach_run_def TachUpdate_turn segment_of_position turn_mod algebra_simps)
  then show ?thesis by (cases t) (simp add: TachInit_def segment_of_position)
qed

theorem tach_tracks_position_witness:
  "tach_run (map state_of_position [1, 2, 3, 4, 5, 6, 7, 5]) (TachInit (state_of_position 0)
      \<lparr>current_segment = 0, counter = 0\<rparr>) = \<lparr>current_segment = 5, counter = 5\<rparr>"
  using tach_tracks_position [of 0 "[1, 2, 3, 4, 5, 6, 7, 5]" "\<lparr>current_segment = 0, counter = 0\<rparr>"]
  by simp

text \<open>C9. An invalid reading (all sensors low or all high) is taken for segment 0, and the next valid
  reading turns the counter back, except in segment 3: there the reading and its recovery both
  count three segments forward, so one glitch adds a full revolution of six segments.\<close>

theorem tach_glitch:
  assumes "bad \<in> {HALL_SENSOR_STATE_LOW, HALL_SENSOR_STATE_HIGH}"
    and "st = state_of_position p" "current_segment t = HallSensorsStateToSegment st"
  shows "tach_run [bad, st] t = t\<lparr>counter := counter t + (if p mod 6 = 3 then 6 else 0)\<rparr>"
proof -
  have bad: "HallSensorsStateToSegment bad = 0"
    using assms(1) by (auto simp: HallSensorsStateToSegment_def hall_state_defs)
  have "turn (p mod 6) 0 + turn 0 (p mod 6) = (if p mod 6 = 3 then 6 else 0)"
  proof -
    have "p mod 6 \<in> {0, 1, 2, 3, 4, 5}" by auto
    then show ?thesis by (elim insertE emptyE; simp add: turn_def)
  qed
  then have "(of_int (turn (p mod 6) 0) + of_int (turn 0 (p mod 6)) :: u32) = (if p mod 6 = 3 then 6 else 0)"
    by (simp flip: of_int_add)
  then show ?thesis using assms(3)
    by (cases t) (simp add: tach_run_def TachUpdate_turn assms(2) segment_of_position bad add.assoc)
qed

theorem tach_glitch_witness:
  "tach_run [HALL_SENSOR_STATE_LOW, HALL_SENSOR_STATE_180] \<lparr>current_segment = 3, counter = 0\<rparr> =
     \<lparr>current_segment = 3, counter = 6\<rparr>"
proof -
  have st: "state_of_position 3 = HALL_SENSOR_STATE_180" by (simp add: state_of_position_def)
  show ?thesis
    using tach_glitch [of HALL_SENSOR_STATE_LOW HALL_SENSOR_STATE_180 3 "\<lparr>current_segment = 3, counter = 0\<rparr>"]
    by (simp add: st [symmetric] segment_of_position)
qed

end
