(* ===== verification/Util.thy ===== *)
theory Util
  imports Prelude
begin

text \<open>
  Hexadecimal identity of the controller (\<^verbatim>\<open>src/src/util.c\<close>): the 96-bit device id in flash is printed
  once into a static buffer, which later calls return unchanged.
\<close>

definition STM32_UUID :: addr where "STM32_UUID = 0x1FFF7A10"
definition STM32_UUID_LEN :: nat where "STM32_UUID_LEN = 12"

text \<open>The characters of \<open>"0123456789ABCDEF"\<close>.\<close>

definition hex_digits :: "u8 list" where
  "hex_digits = [0x30, 0x31, 0x32, 0x33, 0x34, 0x35, 0x36, 0x37, 0x38, 0x39, 0x41, 0x42, 0x43, 0x44, 0x45, 0x46]"

definition nibbleToHex :: "u8 \<Rightarrow> u8" where
  "nibbleToHex nibble = hex_digits ! unat (nibble AND 0xF)"

text \<open>The loop of \<open>bytesToHex\<close> from index \<open>i\<close> on, with \<open>n\<close> rounds left.\<close>

fun bytesToHex_from :: "nat \<Rightarrow> nat \<Rightarrow> addr \<Rightarrow> addr \<Rightarrow> mem \<Rightarrow> mem" where
  "bytesToHex_from i 0 buffer bytes m = m"
| "bytesToHex_from i (Suc n) buffer bytes m =
     (let m = m(buffer + 2 * of_nat i := nibbleToHex (drop_bit 4 (m (bytes + of_nat i))));
          m = m(buffer + 2 * of_nat i + 1 := nibbleToHex (m (bytes + of_nat i)))
      in bytesToHex_from (Suc i) n buffer bytes m)"

definition bytesToHex :: "addr \<Rightarrow> addr \<Rightarrow> nat \<Rightarrow> mem \<Rightarrow> mem" where
  "bytesToHex buffer bytes numBytes m = bytesToHex_from 0 numBytes buffer bytes m"

text \<open>The static variables of \<open>uniqueID\<close>: the pointer, \<open>None\<close> for \<open>NULL\<close>, and the buffer.\<close>

record uid_state =
  uid :: "addr option"
  uid_buffer :: addr
  uid_mem :: mem

definition uniqueID :: "uid_state \<Rightarrow> addr \<times> uid_state" where
  "uniqueID s =
     (case uid s of
        Some p \<Rightarrow> (p, s)
      | None \<Rightarrow>
          let s' = s\<lparr>uid_mem := bytesToHex (uid_buffer s) STM32_UUID STM32_UUID_LEN (uid_mem s),
                     uid := Some (uid_buffer s)\<rparr>
          in (uid_buffer s, s'))"

section \<open>What the loop writes\<close>

definition hex_of :: "u8 list \<Rightarrow> u8 list" where
  "hex_of bs = concat (map (\<lambda>b. [nibbleToHex (drop_bit 4 b), nibbleToHex b]) bs)"

lemma length_hex_of [simp]: "length (hex_of bs) = 2 * length bs"
  by (induction bs) (simp_all add: hex_of_def)

lemma hex_of_Cons: "hex_of (b # bs) = [nibbleToHex (drop_bit 4 b), nibbleToHex b] @ hex_of bs"
  by (simp add: hex_of_def)

text \<open>Source bytes outside the destination.\<close>

definition clear_of :: "addr \<Rightarrow> nat \<Rightarrow> addr \<Rightarrow> nat \<Rightarrow> bool" where
  "clear_of bytes n buffer k \<longleftrightarrow> (\<forall>i < n. k \<le> unat (bytes + of_nat i - buffer))"

lemma bytesToHex_from_write:
  assumes "clear_of bytes (i + n) buffer (2 * (i + n))" "2 * (i + n) \<le> 2 ^ 32"
  shows "bytesToHex_from i n buffer bytes m =
     mem_write m (buffer + 2 * of_nat i) (hex_of (bytes_at m (bytes + of_nat i) n))"
  using assms
proof (induction n arbitrary: i m)
  case (Suc n)
  let ?p = "buffer + 2 * of_nat i" and ?b = "m (bytes + of_nat i)"
  let ?h = "[nibbleToHex (drop_bit 4 ?b), nibbleToHex ?b]"
  let ?m1 = "m(?p := nibbleToHex (drop_bit 4 ?b))"
  have far: "unat (bytes + of_nat j - buffer) \<ge> 2 * (i + Suc n)" if "j < i + Suc n" for j
    using Suc.prems(1) that by (simp add: clear_of_def)
  have unp: "unat (bytes + of_nat j - ?p) \<ge> 2 * Suc n" if "j < i + Suc n" for j
  proof -
    have "?p = buffer + of_nat (2 * i)" by simp
    then have "unat (bytes + of_nat j - ?p) = unat (bytes + of_nat j - buffer) - 2 * i"
      using far [OF that] unat_shifted_diff [of "2 * i" "bytes + of_nat j" buffer] by simp
    moreover have "2 * Suc n \<le> x - 2 * i" if "2 * (i + Suc n) \<le> x" for x using that by simp
    ultimately show ?thesis using far [OF that] by simp
  qed
  have "bytes + of_nat i \<noteq> ?p" using unp [of i] by (auto simp: unat_eq_zero)
  then have "?m1(?p + 1 := nibbleToHex (?m1 (bytes + of_nat i))) = mem_write m ?p ?h"
    by (simp add: mem_write_Cons)
  then have step: "bytesToHex_from i (Suc n) buffer bytes m =
      bytesToHex_from (Suc i) n buffer bytes (mem_write m ?p ?h)" by (simp add: Let_def)
  have rest: "bytes_at (mem_write m ?p ?h) (bytes + of_nat (Suc i)) n = bytes_at m (bytes + of_nat (Suc i)) n"
  proof (rule bytes_at_disjoint)
    fix j assume "j < n"
    then show "length ?h \<le> unat (bytes + of_nat (Suc i) + of_nat j - ?p)"
      using unp [of "Suc i + j"] by (simp add: add.assoc)
  qed
  have "bytesToHex_from (Suc i) n buffer bytes (mem_write m ?p ?h) =
      mem_write (mem_write m ?p ?h) (buffer + 2 * of_nat (Suc i)) (hex_of (bytes_at m (bytes + of_nat (Suc i)) n))"
    using Suc.IH [of "Suc i" "mem_write m ?p ?h"] Suc.prems rest by simp
  also have "buffer + 2 * of_nat (Suc i) = ?p + of_nat (length ?h)" by simp
  also have "mem_write (mem_write m ?p ?h) (?p + of_nat (length ?h)) (hex_of (bytes_at m (bytes + of_nat (Suc i)) n)) =
      mem_write m ?p (?h @ hex_of (bytes_at m (bytes + of_nat (Suc i)) n))"
    using Suc.prems(2) by (intro mem_write_append) simp
  also have "?h @ hex_of (bytes_at m (bytes + of_nat (Suc i)) n) = hex_of (bytes_at m (bytes + of_nat i) (Suc n))"
    by (simp add: bytes_at_Suc hex_of_Cons add.assoc add.commute [of 1])
  finally show ?case unfolding step .
qed (simp add: hex_of_def)

section \<open>Reading the identity back\<close>

definition hex_value :: "u8 \<Rightarrow> u8" where
  "hex_value c = (if c \<ge> 0x41 then c - 0x41 + 10 else c - 0x30)"

fun hex_decode :: "u8 list \<Rightarrow> u8 list" where
  "hex_decode (h # l # cs) = (push_bit 4 (hex_value h) OR hex_value l) # hex_decode cs"
| "hex_decode _ = []"

lemma nibble_cases:
  fixes b :: u8
  shows "b AND 0xF \<in> {0, 1, 2, 3, 4, 5, 6, 7, 8, 9, 10, 11, 12, 13, 14, 15}"
proof -
  have "unat (b AND 0xF) < 16"
    using word_and_le1 [of b "0xF"] by (simp add: word_le_nat_alt)
  then have "unat (b AND 0xF) \<in> set [0..<16]" by simp
  moreover have "b AND 0xF = of_nat (unat (b AND 0xF))" by simp
  ultimately have "b AND 0xF \<in> of_nat ` set [0..<16]" by blast
  then show ?thesis by (simp add: upt_rec)
qed

lemma hex_value_nibble: "hex_value (nibbleToHex b) = b AND 0xF"
  using nibble_cases [of b]
  by (elim insertE emptyE; simp add: hex_value_def nibbleToHex_def hex_digits_def)

lemma hex_decode_hex_of: "hex_decode (hex_of bs) = bs"
proof (induction bs)
  case (Cons b bs)
  have "push_bit 4 (drop_bit 4 b AND 0xF) OR (b AND 0xF) = b"
    by (rule byte_eqI; simp add: bit_simps)
  then show ?case using Cons by (simp add: hex_of_Cons hex_value_nibble)
qed (simp add: hex_of_def)

section \<open>The properties\<close>

text \<open>C11. Printing bytes in hexadecimal can be undone: the buffer holds two characters per byte, from
  which the bytes are read back, and no other memory is changed.\<close>

theorem bytesToHex_round_trip:
  assumes "clear_of bytes n buffer (2 * n)" "2 * n \<le> 2 ^ 32"
  shows "hex_decode (bytes_at (bytesToHex buffer bytes n m) buffer (2 * n)) = bytes_at m bytes n \<and>
    (\<forall>a. 2 * n \<le> unat (a - buffer) \<longrightarrow> bytesToHex buffer bytes n m a = m a)"
proof -
  have w: "bytesToHex buffer bytes n m = mem_write m buffer (hex_of (bytes_at m bytes n))"
    using bytesToHex_from_write [of bytes 0 n buffer m] assms by (simp add: bytesToHex_def)
  have "bytes_at (mem_write m buffer (hex_of (bytes_at m bytes n))) buffer (length (hex_of (bytes_at m bytes n))) =
      hex_of (bytes_at m bytes n)"
    using assms(2) by (intro bytes_at_mem_write) simp
  then have "bytes_at (mem_write m buffer (hex_of (bytes_at m bytes n))) buffer (2 * n) = hex_of (bytes_at m bytes n)"
    by simp
  then show ?thesis by (simp add: w hex_decode_hex_of mem_write_outside)
qed

theorem bytesToHex_round_trip_witness:
  "hex_decode (bytes_at (bytesToHex 0x2000 0x1000 2 (\<lambda>a. ucast a)) 0x2000 4) = [0x00, 0x01]"
proof -
  have "clear_of 0x1000 2 0x2000 4" by (auto simp: clear_of_def less_2_cases_iff)
  then show ?thesis using bytesToHex_round_trip [of "0x1000" 2 "0x2000" "\<lambda>a. ucast a"]
    by (simp add: bytes_at_small)
qed

text \<open>C12. The first call of \<open>uniqueID\<close> prints the twelve bytes of the device id into the static buffer and
  later calls return the same pointer without writing again.\<close>

theorem uniqueID_cached:
  assumes "uid s = None" "clear_of STM32_UUID 12 (uid_buffer s) 24"
  shows "let (p, s') = uniqueID s in p = uid_buffer s \<and>
     hex_decode (bytes_at (uid_mem s') p 24) = bytes_at (uid_mem s) STM32_UUID 12 \<and>
     uniqueID s' = (p, s')"
proof -
  have w: "bytesToHex (uid_buffer s) STM32_UUID 12 (uid_mem s) =
      mem_write (uid_mem s) (uid_buffer s) (hex_of (bytes_at (uid_mem s) STM32_UUID 12))"
    using bytesToHex_from_write [of STM32_UUID 0 12 "uid_buffer s" "uid_mem s"] assms(2)
    by (simp add: bytesToHex_def)
  have "bytes_at (mem_write (uid_mem s) (uid_buffer s) (hex_of (bytes_at (uid_mem s) STM32_UUID 12)))
      (uid_buffer s) (length (hex_of (bytes_at (uid_mem s) STM32_UUID 12))) =
      hex_of (bytes_at (uid_mem s) STM32_UUID 12)"
    by (rule bytes_at_mem_write) simp
  then show ?thesis using assms(1)
    by (simp add: uniqueID_def Let_def STM32_UUID_LEN_def w hex_decode_hex_of)
qed

theorem uniqueID_cached_witness:
  "hex_decode (bytes_at (uid_mem (snd (uniqueID \<lparr>uid = None, uid_buffer = 0x20000000, uid_mem = (\<lambda>_. 0xA5)\<rparr>)))
     0x20000000 24) = replicate 12 0xA5"
proof -
  have "clear_of STM32_UUID 12 0x20000000 24"
    unfolding clear_of_def
  proof (intro allI impI)
    fix i :: nat assume "i < 12"
    then have "unat (0xFFFF7A10 + of_nat i :: addr) = 0xFFFF7A10 + i"
      by (simp add: unat_word_ariths unat_of_nat)
    moreover have "STM32_UUID + of_nat i - 0x20000000 = (0xFFFF7A10 + of_nat i :: addr)"
      by (simp add: STM32_UUID_def)
    ultimately show "24 \<le> unat (STM32_UUID + of_nat i - 0x20000000 :: addr)" by (simp only:)
  qed
  then show ?thesis
    using uniqueID_cached [of "\<lparr>uid = None, uid_buffer = 0x20000000, uid_mem = (\<lambda>_. 0xA5)\<rparr>"]
    by (auto simp: bytes_at_def map_replicate_const split: prod.splits)
qed

end
