(* ===== verification/Eeprom.thy ===== *)
theory Eeprom
  imports Prelude
begin

text \<open>
  The bit-banged driver of the 93AA46AE48 serial EEPROM (\<^verbatim>\<open>src/src/93AA46AE48.c\<close>), which holds the MAC
  address. The bus is the level of the four lines together with the bits the device has sampled
  from MOSI since it was selected; a device is a parameter \<open>dev\<close> that gives the level of MISO
  from the bits sampled so far. \<open>None\<close> is a failed \<open>osalDbgAssert\<close>, which halts the system.
\<close>

record bus =
  cs_line :: bool
  sck_line :: bool
  mosi_line :: bool
  sampled :: "bool list"

datatype bus_line = CS | SCK | MOSI

text \<open>
  Writing a line. The device samples MOSI on a rising clock while selected, and starts a new
  command when it is selected.
\<close>

fun palWriteLine :: "bus_line \<Rightarrow> bool \<Rightarrow> bus \<Rightarrow> bus" where
  "palWriteLine CS v b = b\<lparr>cs_line := v, sampled := (if v \<and> \<not> cs_line b then [] else sampled b)\<rparr>"
| "palWriteLine SCK v b = b\<lparr>sck_line := v, sampled := (if v \<and> \<not> sck_line b \<and> cs_line b then sampled b @ [mosi_line b] else sampled b)\<rparr>"
| "palWriteLine MOSI v b = b\<lparr>mosi_line := v\<rparr>"

type_synonym serial_device = "bool list \<Rightarrow> bool"

definition palReadMiso :: "serial_device \<Rightarrow> bus \<Rightarrow> u8" where
  "palReadMiso dev b = (if dev (sampled b) then 1 else 0)"

definition transfer_bit :: "serial_device \<Rightarrow> u8 \<Rightarrow> bus \<Rightarrow> u8 \<times> bus" where
  "transfer_bit dev v b =
     (let b = palWriteLine MOSI (v \<noteq> 0) b;
          b = palWriteLine SCK True b;
          b = palWriteLine SCK False b
      in (palReadMiso dev b, b))"

text \<open>The loop over the address bits, from index \<open>i\<close> on.\<close>

fun write_address_from :: "serial_device \<Rightarrow> nat \<Rightarrow> nat \<Rightarrow> u8 \<Rightarrow> bus \<Rightarrow> bus" where
  "write_address_from dev 0 i address b = b"
| "write_address_from dev (Suc n) i address b =
     write_address_from dev n (Suc i) address
       (snd (transfer_bit dev (drop_bit (6 - i) address AND 0x01) b))"

definition write_address :: "serial_device \<Rightarrow> u8 \<Rightarrow> u8 \<Rightarrow> bus \<Rightarrow> bus" where
  "write_address dev opcode address b =
     (let b = snd (transfer_bit dev 1 b);
          b = snd (transfer_bit dev (if opcode AND 0b10 \<noteq> 0 then 1 else 0) b);
          b = snd (transfer_bit dev (if opcode AND 0b01 \<noteq> 0 then 1 else 0) b)
      in write_address_from dev 7 0 address b)"

fun read_byte_from :: "serial_device \<Rightarrow> nat \<Rightarrow> u8 \<Rightarrow> bus \<Rightarrow> u8 \<times> bus" where
  "read_byte_from dev 0 v b = (v, b)"
| "read_byte_from dev (Suc n) v b =
     (let v = push_bit 1 v; (w, b) = transfer_bit dev 0 b in read_byte_from dev n (v OR w) b)"

definition read_byte :: "serial_device \<Rightarrow> bus \<Rightarrow> u8 \<times> bus" where
  "read_byte dev b = read_byte_from dev 8 0 b"

definition Mc94AA46AE58Init :: "bus \<Rightarrow> bus" where
  "Mc94AA46AE58Init b = palWriteLine CS False b"

fun read_mac :: "serial_device \<Rightarrow> nat \<Rightarrow> bus \<Rightarrow> u8 list \<times> bus" where
  "read_mac dev 0 b = ([], b)"
| "read_mac dev (Suc n) b =
     (let (v, b) = read_byte dev b; (vs, b) = read_mac dev n b in (v # vs, b))"

definition Mc94AA46AE58GetID :: "serial_device \<Rightarrow> bus \<Rightarrow> (u8 list \<times> bus) option" where
  "Mc94AA46AE58GetID dev b =
     (let b = palWriteLine CS True b;
          b = write_address dev 0b10 0x00 b;
          (epi, b) = read_byte dev b
      in if epi = 0xa5
         then let (mac, b) = read_mac dev 6 b in Some (mac, palWriteLine CS False b)
         else None)"

section \<open>What the device sees\<close>

definition bus_idle :: "bus \<Rightarrow> bool" where
  "bus_idle b \<longleftrightarrow> cs_line b \<and> \<not> sck_line b"

lemma transfer_bit_idle:
  assumes "bus_idle b"
  shows "transfer_bit dev v b =
     (if dev (sampled b @ [v \<noteq> 0]) then 1 else 0, b\<lparr>mosi_line := (v \<noteq> 0), sampled := sampled b @ [v \<noteq> 0]\<rparr>)"
  using assms by (cases b) (simp add: transfer_bit_def bus_idle_def palReadMiso_def)

lemma idle_update [simp]: "bus_idle (b\<lparr>mosi_line := v, sampled := xs\<rparr>) = bus_idle b"
  by (simp add: bus_idle_def)

text \<open>The bits of a byte, most significant first.\<close>

definition bits8 :: "u8 \<Rightarrow> bool list" where
  "bits8 v = map (\<lambda>i. bit v (7 - i)) [0..<8]"

text \<open>
  The documented read command of the device: once the start bit, the opcode \<open>10\<close> and the address
  \<open>0\<close> have been clocked in, each further clock shifts out the next bit of the memory from address
  0 on, most significant bit first.
\<close>

definition reads_memory :: "serial_device \<Rightarrow> u8 list \<Rightarrow> bool" where
  "reads_memory dev mem \<longleftrightarrow>
     (\<forall>k < 8 * length mem. dev ([True, True, False] @ replicate 7 False @ replicate (Suc k) False) =
        concat (map bits8 mem) ! k)"

lemma write_command:
  assumes "bus_idle b" "sampled b = []"
  shows "sampled (write_address dev 0b10 0x00 b) = [True, True, False] @ replicate 7 False"
    "bus_idle (write_address dev 0b10 0x00 b)"
  using assms by (simp_all add: write_address_def transfer_bit_idle numeral_eq_Suc Let_def)

text \<open>Reading shifts the device's answers into the accumulator.\<close>

lemma read_byte_from_idle:
  assumes "bus_idle b"
  shows "read_byte_from dev n v b =
     (fold (\<lambda>i v. push_bit 1 v OR (if dev (sampled b @ replicate (Suc i) False) then 1 else 0)) [0..<n] v,
      b\<lparr>mosi_line := (if n = 0 then mosi_line b else False), sampled := sampled b @ replicate n False\<rparr>)"
  using assms
proof (induction n arbitrary: v b)
  case (Suc n)
  let ?b = "b\<lparr>mosi_line := False, sampled := sampled b @ [False]\<rparr>"
  let ?f = "\<lambda>s i v. push_bit 1 v OR (if dev (s @ replicate (Suc i) False) then 1 else (0 :: u8))"
  have idle: "bus_idle ?b" using Suc.prems by simp
  have "fold (?f (sampled b)) [0..<Suc n] v = fold (?f (sampled b)) (0 # map Suc [0..<n]) v"
    by (simp add: upt_conv_Cons map_Suc_upt del: upt_Suc)
  also have "\<dots> = fold (?f (sampled b @ [False])) [0..<n] (?f (sampled b) 0 v)"
    by (simp add: fold_map comp_def)
  finally show ?case using Suc.IH [OF idle] Suc.prems by (simp add: transfer_bit_idle Let_def)
qed simp

lemma read_byte_value:
  assumes "bus_idle b" "\<And>i. i < 8 \<Longrightarrow> dev (sampled b @ replicate (Suc i) False) = bit v (7 - i)"
  shows "read_byte dev b = (v, b\<lparr>mosi_line := False, sampled := sampled b @ replicate 8 False\<rparr>)"
proof -
  have "fold (\<lambda>i v. push_bit 1 v OR (if dev (sampled b @ replicate (Suc i) False) then 1 else 0)) [0..<8] 0 =
      fold (\<lambda>i a. push_bit 1 a OR (if bit v (7 - i) then 1 else 0)) [0..<8] (0 :: u8)"
    by (rule fold_cong) (simp_all add: assms(2) del: replicate_Suc)
  also have "\<dots> = v" by (rule byte_eqI; simp add: upt_rec bit_simps)
  finally show ?thesis using read_byte_from_idle [OF assms(1), of dev 8 0] by (simp add: read_byte_def)
qed

lemma concat_bits_nth: "j < length xs \<Longrightarrow> i < 8 \<Longrightarrow> concat (map bits8 xs) ! (8 * j + i) = bit (xs ! j) (7 - i)"
proof (induction xs arbitrary: j)
  case (Cons x xs)
  have len: "length (bits8 x) = 8" by (simp add: bits8_def)
  show ?case
  proof (cases j)
    case 0
    then show ?thesis using Cons.prems len by (simp add: nth_append bits8_def)
  next
    case (Suc k)
    then show ?thesis using Cons len by (simp add: nth_append)
  qed
qed simp

definition read_command :: "bool list" where
  "read_command = [True, True, False] @ replicate 7 False"

lemma read_byte_memory:
  assumes "reads_memory dev mem" "j < length mem" "bus_idle b" "sampled b = read_command @ replicate (8 * j) False"
  shows "read_byte dev b = (mem ! j, b\<lparr>mosi_line := False, sampled := read_command @ replicate (8 * Suc j) False\<rparr>)"
proof -
  have "dev (sampled b @ replicate (Suc i) False) = bit (mem ! j) (7 - i)" if "i < 8" for i
  proof -
    have "sampled b @ replicate (Suc i) False =
        [True, True, False] @ replicate 7 False @ replicate (Suc (8 * j + i)) False"
      unfolding assms(4) read_command_def append.assoc replicate_add [symmetric] by (simp add: add.commute)
    moreover have "8 * j + i < 8 * length mem" using assms(2) that by simp
    ultimately show ?thesis
      using assms(1) concat_bits_nth [OF assms(2) that] unfolding reads_memory_def by metis
  qed
  from read_byte_value [OF assms(3) this]
  show ?thesis by (simp add: assms(4) replicate_add [symmetric] add.commute del: replicate_Suc)
qed

lemma read_mac_memory:
  assumes "reads_memory dev mem" "j + n \<le> length mem" "bus_idle b" "sampled b = read_command @ replicate (8 * j) False"
  shows "\<exists>b'. read_mac dev n b = (take n (drop j mem), b') \<and> bus_idle b'"
  using assms
proof (induction n arbitrary: j b)
  case (Suc n)
  then have j: "j < length mem" by simp
  let ?b = "b\<lparr>mosi_line := False, sampled := read_command @ replicate (8 * Suc j) False\<rparr>"
  have "\<exists>b'. read_mac dev n ?b = (take n (drop (Suc j) mem), b') \<and> bus_idle b'"
    using Suc.prems by (intro Suc.IH) simp_all
  moreover have "take (Suc n) (drop j mem) = mem ! j # take n (drop (Suc j) mem)"
    using j by (simp add: take_Suc_conv_app_nth Cons_nth_drop_Suc [symmetric])
  ultimately show ?case
    using read_byte_memory [OF Suc.prems(1) j Suc.prems(3,4)] by (auto simp: Let_def)
qed auto

text \<open>C10. With a device that answers the read command as documented, the driver returns the six bytes
  behind the marker byte of the memory, deselects the device, and halts instead of returning a
  wrong address when the marker is not \<open>0xa5\<close>.\<close>

theorem eeprom_reads_mac:
  assumes "reads_memory dev mem" "7 \<le> length mem" "\<not> cs_line b" "\<not> sck_line b"
  shows "if mem ! 0 = 0xa5
    then \<exists>b'. Mc94AA46AE58GetID dev b = Some (take 6 (drop 1 mem), b') \<and> \<not> cs_line b'
    else Mc94AA46AE58GetID dev b = None"
proof -
  let ?b = "palWriteLine CS True b" and ?w = "write_address dev 0b10 0x00 (palWriteLine CS True b)"
  have w: "sampled ?w = read_command @ replicate (8 * 0) False" "bus_idle ?w"
    using write_command [of ?b dev] assms(3,4) by (simp_all add: bus_idle_def read_command_def)
  have j: "0 < length mem" using assms(2) by linarith
  let ?r = "?w\<lparr>mosi_line := False, sampled := read_command @ replicate (8 * Suc 0) False\<rparr>"
  have r: "read_byte dev ?w = (mem ! 0, ?r)" by (rule read_byte_memory [OF assms(1) j w(2,1)])
  obtain b' where "read_mac dev 6 ?r = (take 6 (drop (Suc 0) mem), b')" "bus_idle b'"
    using read_mac_memory [OF assms(1), of "Suc 0" 6 ?r] assms(2) w(2) by auto
  then show ?thesis using r by (auto simp: Mc94AA46AE58GetID_def Let_def)
qed

theorem eeprom_reads_mac_witness:
  "let mem = [0xa5, 0x00, 0x04, 0xa3, 0x11, 0x22, 0x33];
     dev = (\<lambda>s. concat (map bits8 mem) ! (length s - 11)) in
   \<exists>b'. Mc94AA46AE58GetID dev \<lparr>cs_line = False, sck_line = False, mosi_line = False, sampled = []\<rparr> =
     Some ([0x00, 0x04, 0xa3, 0x11, 0x22, 0x33], b') \<and> \<not> cs_line b'"
proof -
  let ?mem = "[0xa5, 0x00, 0x04, 0xa3, 0x11, 0x22, 0x33] :: u8 list"
  have "reads_memory (\<lambda>s. concat (map bits8 ?mem) ! (length s - 11)) ?mem"
    by (simp add: reads_memory_def)
  from eeprom_reads_mac [OF this, of "\<lparr>cs_line = False, sck_line = False, mosi_line = False, sampled = []\<rparr>"]
  show ?thesis by (simp add: Let_def)
qed

end
