(* ===== verification/Motor.thy ===== *)
theory Motor
  imports IEEE
begin

text \<open>
  The current controller: the biquad compensator (\<^verbatim>\<open>src/src/biquad.c\<close>), the frequency-response
  measurement that is superimposed on its input (\<^verbatim>\<open>src/src/freq_response.c\<close>) and the control
  interrupt (\<^verbatim>\<open>src/src/motor_control.c\<close>). The functions of the C mathematics library are the parameter
  \<open>libm\<close>; the timer, the bridge line and the ADC status register are part of the state.
\<close>

abbreviation f_add :: "fl \<Rightarrow> fl \<Rightarrow> fl" where "f_add \<equiv> fl_add binary32"
abbreviation f_sub :: "fl \<Rightarrow> fl \<Rightarrow> fl" where "f_sub \<equiv> fl_sub binary32"
abbreviation f_mul :: "fl \<Rightarrow> fl \<Rightarrow> fl" where "f_mul \<equiv> fl_mul binary32"
abbreviation f_div :: "fl \<Rightarrow> fl \<Rightarrow> fl" where "f_div \<equiv> fl_div binary32"

definition f_zero :: fl where "f_zero = Num False 0 (-149)"

section \<open>Biquad filter\<close>

record biquad =
  bq_b0 :: fl
  bq_b1 :: fl
  bq_b2 :: fl
  bq_a1 :: fl
  bq_a2 :: fl
  bq_in1 :: fl
  bq_in2 :: fl
  bq_out1 :: fl
  bq_out2 :: fl

definition MIN_fl :: "fl \<Rightarrow> fl \<Rightarrow> fl" where
  "MIN_fl x y = (if fl_lt x y then x else y)"

definition MAX_fl :: "fl \<Rightarrow> fl \<Rightarrow> fl" where
  "MAX_fl x y = (if fl_lt y x then x else y)"

definition BiquadReset :: "biquad \<Rightarrow> biquad" where
  "BiquadReset b = b\<lparr>bq_in1 := f_zero, bq_in2 := f_zero, bq_out1 := f_zero, bq_out2 := f_zero\<rparr>"

definition BiquadInit :: "fl \<Rightarrow> fl \<Rightarrow> fl \<Rightarrow> fl \<Rightarrow> fl \<Rightarrow> biquad \<Rightarrow> biquad" where
  "BiquadInit b0 b1 b2 a1 a2 b =
     BiquadReset (b\<lparr>bq_b0 := b0, bq_b1 := b1, bq_b2 := b2, bq_a1 := a1, bq_a2 := a2\<rparr>)"

definition out_raw :: "biquad \<Rightarrow> fl \<Rightarrow> fl" where
  "out_raw b input =
     f_sub (f_sub (f_add (f_add (f_mul (bq_b0 b) input) (f_mul (bq_b1 b) (bq_in1 b)))
                         (f_mul (bq_b2 b) (bq_in2 b)))
                  (f_mul (bq_a1 b) (bq_out1 b)))
           (f_mul (bq_a2 b) (bq_out2 b))"

definition BiquadUpdateLim :: "fl \<Rightarrow> fl \<Rightarrow> fl \<Rightarrow> biquad \<Rightarrow> fl \<times> biquad" where
  "BiquadUpdateLim input lim_low lim_high b =
     (let out = MIN_fl (MAX_fl (out_raw b input) lim_low) lim_high
      in (out, b\<lparr>bq_in2 := bq_in1 b, bq_in1 := input, bq_out2 := bq_out1 b, bq_out1 := out\<rparr>))"

definition FLT_MIN :: fl where "FLT_MIN = Num False (2 ^ 23) (-149)"
definition FLT_MAX :: fl where "FLT_MAX = Num False (2 ^ 24 - 1) 104"

definition BiquadUpdate :: "fl \<Rightarrow> biquad \<Rightarrow> fl \<times> biquad" where
  "BiquadUpdate input b = BiquadUpdateLim input FLT_MIN FLT_MAX b"

section \<open>Frequency response measurement\<close>

record libm =
  sinf :: "fl \<Rightarrow> fl"
  cosf :: "fl \<Rightarrow> fl"
  powf :: "fl \<Rightarrow> fl \<Rightarrow> fl"

record freq_response_result =
  r_freq :: fl
  r_real :: fl
  r_imag :: fl
  r_exc_real :: fl
  r_exc_imag :: fl

record freq_response =
  fr_fs :: fl
  fr_f_min :: fl
  fr_f_max :: fl
  frequencies_per_decade :: fl
  fr_magnitude :: fl
  wavelengths_per_frequency :: int
  fr_emit :: bool
  fr_f :: fl
  fr_theta :: fl
  theta_increment :: fl
  normalization_factor :: fl
  samples_remaining :: int
  sin_sum :: fl
  cos_sum :: fl
  sin_exc_sum :: fl
  cos_exc_sum :: fl

text \<open>\<open>M_PI\<close> is a \<open>double\<close>, so \<open>2.f * M_PI\<close> and what it is combined with are computed in binary64.\<close>

definition M_PI :: fl where "M_PI = Num False 7074237752028440 (-51)"

definition two_pi :: fl where "two_pi = fl_mul binary64 (fl_of_int binary64 2) M_PI"

text \<open>\<open>FreqResponse_Poll\<close> returns the result it passes to the \<open>emit\<close> callback, if it calls it.\<close>

definition fr_result :: "freq_response \<Rightarrow> freq_response_result" where
  "fr_result fr = \<lparr>r_freq = fr_f fr,
     r_real = f_mul (sin_sum fr) (normalization_factor fr),
     r_imag = f_mul (cos_sum fr) (normalization_factor fr),
     r_exc_real = f_mul (sin_exc_sum fr) (normalization_factor fr),
     r_exc_imag = f_mul (cos_exc_sum fr) (normalization_factor fr)\<rparr>"

definition next_frequency :: "libm \<Rightarrow> freq_response \<Rightarrow> fl" where
  "next_frequency lm fr =
     (let f = f_mul (fr_f fr) (powf lm (fl_of_int binary32 10)
                (f_div (fl_of_int binary32 1) (frequencies_per_decade fr)))
      in if fl_lt f (fr_f_min fr) \<or> fl_lt (fr_f_max fr) f then fr_f_min fr else f)"

definition FreqResponse_Poll :: "libm \<Rightarrow> freq_response \<Rightarrow> freq_response_result option \<times> freq_response" where
  "FreqResponse_Poll lm fr =
     (if samples_remaining fr \<noteq> 0 then (None, fr)
      else
        let emitted = (if fl_le (fr_f_min fr) (fr_f fr) \<and> fr_emit fr then Some (fr_result fr) else None);
            f = next_frequency lm fr;
            samples_per_wavelength = f_div (fr_fs fr) f;
            n = fl_to_i32 (f_mul (f_div (fr_fs fr) f) (fl_of_int binary32 (wavelengths_per_frequency fr)))
        in (emitted,
            fr\<lparr>fr_f := f,
               theta_increment := fl_convert binary32
                 (fl_div binary64 two_pi (fl_convert binary64 samples_per_wavelength)),
               fr_theta := f_zero, sin_sum := f_zero, cos_sum := f_zero,
               sin_exc_sum := f_zero, cos_exc_sum := f_zero,
               normalization_factor := f_div (fl_of_int binary32 2) (fl_of_int binary32 n),
               samples_remaining := n\<rparr>))"

definition FreqResponse_UpdateWithOffset :: "libm \<Rightarrow> fl \<Rightarrow> fl \<Rightarrow> freq_response \<Rightarrow> fl \<times> freq_response" where
  "FreqResponse_UpdateWithOffset lm sample offset fr =
     (if samples_remaining fr \<noteq> 0 then
        let theta = f_add (fr_theta fr) (theta_increment fr);
            theta = (if fl_lt two_pi (fl_convert binary64 theta)
                     then fl_convert binary32 (fl_sub binary64 (fl_convert binary64 theta) two_pi) else theta);
            sin_theta = sinf lm theta;
            cos_theta = cosf lm theta;
            excitation = f_add offset (f_mul sin_theta (fr_magnitude fr))
        in (excitation,
            fr\<lparr>fr_theta := theta,
               sin_sum := f_add (sin_sum fr) (f_mul sin_theta sample),
               cos_sum := f_add (cos_sum fr) (f_mul cos_theta sample),
               sin_exc_sum := f_add (sin_exc_sum fr) (f_mul sin_theta excitation),
               cos_exc_sum := f_add (cos_exc_sum fr) (f_mul cos_theta excitation),
               samples_remaining := samples_remaining fr - 1\<rparr>)
      else (sample, fr))"

definition FreqResponse_Update :: "libm \<Rightarrow> fl \<Rightarrow> freq_response \<Rightarrow> fl \<times> freq_response" where
  "FreqResponse_Update lm sample fr = FreqResponse_UpdateWithOffset lm sample sample fr"

section \<open>Motor control\<close>

text \<open>
  The controller's struct together with what it drives: the compare registers of the timer, the
  bridge line (\<open>fault_clear\<close>), the ADC status register, and the measurement \<open>ia_freq\<close>, which is
  a static variable of the file.
\<close>

record motor =
  enabled :: bool
  i_target :: fl
  error_count :: u32
  mc_i_a :: fl
  ia_compensator :: biquad
  pwm_freq :: u32
  clock_freq :: u32
  max_duty_count :: int
  cfg_frequency :: u32
  cfg_period :: u32
  ccr0 :: u32
  ccr1 :: u32
  ccr2 :: u32
  ch3_width :: u32
  fault_clear_high :: bool
  adc_sr :: u32
  ia_freq :: freq_response

definition ADC_SR_JEOC :: u32 where "ADC_SR_JEOC = 0x4"

definition max_duty :: fl where "max_duty = fl_of_bits32 0x3f733333"
definition adc_sample_duty :: fl where "adc_sample_duty = fl_of_bits32 0x3f7851ec"

text \<open>
  The initialisation: the compensator, the timer configuration and the trigger channel. The
  measurement thread it creates and the PWM driver it starts are outside this function's state.
\<close>

definition MotorControlInit :: "motor \<Rightarrow> motor" where
  "MotorControlInit m =
     (let m = m\<lparr>ia_compensator := BiquadInit (fl_of_bits32 0x4323d9b6) (fl_of_bits32 0x42449edb)
                  (fl_of_bits32 0xc2e56400) (fl_of_bits32 0xbfb33333) (fl_of_bits32 0x3ecccccd)
                  (ia_compensator m)\<rparr>;
          period = clock_freq m div pwm_freq m
      in m\<lparr>cfg_frequency := clock_freq m, cfg_period := period,
           max_duty_count := fl_to_i32 (f_mul (fl_of_int binary32 (uint period)) max_duty),
           ch3_width := fl_to_u32 (f_mul (fl_of_int binary32 (uint period)) adc_sample_duty)\<rparr>)"

definition MotorControlCb :: "libm \<Rightarrow> fl \<Rightarrow> fl \<Rightarrow> motor \<Rightarrow> motor" where
  "MotorControlCb lm i_a i_b m =
     (let m = (if adc_sr m AND ADC_SR_JEOC = 0 then m\<lparr>error_count := error_count m + 1\<rparr> else m);
          m = m\<lparr>adc_sr := 0\<rparr>;
          m = (if enabled m then
                 let (ia_error, fr) = FreqResponse_Update lm (f_sub (i_target m) i_a) (ia_freq m);
                     (va, bq) = BiquadUpdateLim ia_error (fl_of_int binary32 (- max_duty_count m))
                                  (fl_of_int binary32 (max_duty_count m)) (ia_compensator m)
                 in m\<lparr>ia_freq := fr, ia_compensator := bq, ccr0 := fl_to_u32 va, fault_clear_high := True\<rparr>
               else
                 m\<lparr>fault_clear_high := False, ccr0 := 0, ccr1 := 0, ccr2 := 0,
                   ia_compensator := BiquadReset (ia_compensator m)\<rparr>)
      in m\<lparr>mc_i_a := i_a\<rparr>)"

section \<open>The compensator stays in its limits\<close>

lemma limited:
  assumes "fl_le lo hi"
  shows "fl_le lo (MIN_fl (MAX_fl x lo) hi)" "fl_le (MIN_fl (MAX_fl x lo) hi) hi"
proof -
  have nn: "lo \<noteq> NaN" "hi \<noteq> NaN" using assms by (cases lo; cases hi; simp add: fl_le_def)+
  have "fl_le lo (MAX_fl x lo)" using fl_le_refl [OF nn(1)] by (simp add: MAX_fl_def fl_le_def)
  then show "fl_le lo (MIN_fl (MAX_fl x lo) hi)" using assms by (simp add: MIN_fl_def)
  show "fl_le (MIN_fl (MAX_fl x lo) hi) hi" using fl_le_refl [OF nn(2)] by (simp add: MIN_fl_def fl_le_def)
qed

lemma limited_finite:
  assumes "finite_fl lo" "finite_fl hi" "val lo \<le> val hi"
  shows "finite_fl (MIN_fl (MAX_fl x lo) hi)" "val lo \<le> val (MIN_fl (MAX_fl x lo) hi)"
    "val (MIN_fl (MAX_fl x lo) hi) \<le> val hi"
proof -
  have le: "fl_le lo hi" using assms by (simp add: fl_compare_val)
  show fin: "finite_fl (MIN_fl (MAX_fl x lo) hi)" by (rule fl_between_finite [OF limited [OF le] assms(1,2)])
  show "val lo \<le> val (MIN_fl (MAX_fl x lo) hi)" "val (MIN_fl (MAX_fl x lo) hi) \<le> val hi"
    using limited [OF le, of x] by (simp_all add: fl_compare_val fin assms(1,2))
qed

lemma duty_limits:
  assumes "0 \<le> d" "d < 2 ^ 24"
  shows "finite_fl (fl_of_int binary32 d)" "val (fl_of_int binary32 d) = real_of_int d"
    "finite_fl (fl_of_int binary32 (- d))" "val (fl_of_int binary32 (- d)) = - real_of_int d"
  using fl_of_int_exact [of d] fl_of_int_exact [of "- d"] assms by auto

lemma fl_to_u32_le:
  assumes "finite_fl x" "val x \<le> real_of_int d" "0 \<le> d" "d < 2 ^ 32"
  shows "uint (fl_to_u32 x) \<le> d"
proof -
  have x: "fl_to_u32 x = word_of_int (clamp 0 (2 ^ 32 - 1) (fl_trunc x))"
    using assms(1) by (cases x) simp_all
  have t: "fl_trunc x \<le> d"
  proof (cases "0 \<le> val x")
    case True
    then show ?thesis using assms(2) by (simp add: fl_trunc_floor [OF assms(1)] floor_le_iff)
  next
    case False
    then obtain m e where "x = Num True m e" using assms(1) by (cases x) (auto split: if_splits)
    then show ?thesis using assms(3) by simp
  qed
  have "0 \<le> clamp 0 (2 ^ 32 - 1) (fl_trunc x)" "clamp 0 (2 ^ 32 - 1) (fl_trunc x) \<le> 2 ^ 32 - 1"
    "clamp 0 (2 ^ 32 - 1) (fl_trunc x) \<le> d"
    using t assms(3,4) by (simp_all add: clamp_def)
  then show ?thesis by (simp add: x uint_word_of_int)
qed

text \<open>C18. The output of the compensator is a finite number between the limits for every input and
  every filter state, even if the unlimited output overflows or is not a number, and the filter
  remembers the limited output.\<close>

theorem biquad_limited:
  assumes "finite_fl lo" "finite_fl hi" "val lo \<le> val hi"
  shows "let (out, b') = BiquadUpdateLim input lo hi b in
    finite_fl out \<and> val lo \<le> val out \<and> val out \<le> val hi \<and>
    bq_out1 b' = out \<and> bq_out2 b' = bq_out1 b \<and> bq_in1 b' = input \<and> bq_in2 b' = bq_in1 b"
  using limited_finite [OF assms] by (simp add: BiquadUpdateLim_def Let_def)

theorem biquad_limited_witness:
  "finite_fl (fst (BiquadUpdateLim (fl_of_int binary32 1) (fl_of_int binary32 (-4)) (fl_of_int binary32 4)
     \<lparr>bq_b0 = Inf False, bq_b1 = NaN, bq_b2 = f_zero, bq_a1 = f_zero, bq_a2 = f_zero,
      bq_in1 = f_zero, bq_in2 = f_zero, bq_out1 = f_zero, bq_out2 = f_zero\<rparr>))"
  using biquad_limited [of "fl_of_int binary32 (-4)" "fl_of_int binary32 4" "fl_of_int binary32 1"
      "\<lparr>bq_b0 = Inf False, bq_b1 = NaN, bq_b2 = f_zero, bq_a1 = f_zero, bq_a2 = f_zero,
        bq_in1 = f_zero, bq_in2 = f_zero, bq_out1 = f_zero, bq_out2 = f_zero\<rparr>"] duty_limits [of 4]
  by (auto simp: Let_def split: prod.splits)

text \<open>C19. The unlimited variant passes \<open>FLT_MIN\<close>, the smallest positive normal number, as its lower
  limit: its output is positive whatever the input, so the filter can never produce zero or a
  negative value.\<close>

theorem biquad_update_never_negative:
  "let (out, b') = BiquadUpdate input b in finite_fl out \<and> 0 < val out"
proof -
  have "(1 / 2 :: real) ^ 149 \<le> 1" by (rule power_le_one) simp_all
  then have "val FLT_MIN \<le> val FLT_MAX" "0 < val FLT_MIN"
    by (simp_all add: FLT_MIN_def FLT_MAX_def power_int_def)
  then show ?thesis
    using limited_finite [of FLT_MIN FLT_MAX "out_raw b input"]
    by (simp add: BiquadUpdate_def BiquadUpdateLim_def Let_def FLT_MIN_def FLT_MAX_def)
qed

text \<open>C16. After every control interrupt the duty cycle of the driven phase is at most the configured
  maximum; while the controller is disabled all three phases are off, the bridge is disabled and
  the compensator is at rest. The sampled current is recorded in both cases, and a missing ADC
  conversion is counted.\<close>

theorem motor_cb_duty_bounded:
  assumes "0 \<le> max_duty_count m" "max_duty_count m < 2 ^ 24" "m' = MotorControlCb lm i_a i_b m"
  shows "uint (ccr0 m') \<le> max_duty_count m' \<and> max_duty_count m' = max_duty_count m \<and>
    (\<not> enabled m \<longrightarrow> ccr0 m' = 0 \<and> ccr1 m' = 0 \<and> ccr2 m' = 0 \<and> \<not> fault_clear_high m' \<and>
       BiquadReset (ia_compensator m') = ia_compensator m') \<and>
    (enabled m \<longrightarrow> fault_clear_high m') \<and> mc_i_a m' = i_a \<and> enabled m' = enabled m \<and>
    error_count m' = error_count m + (if adc_sr m AND ADC_SR_JEOC = 0 then 1 else 0)"
proof -
  let ?d = "max_duty_count m"
  note dl = duty_limits [OF assms(1,2)]
  have "uint (fl_to_u32 (MIN_fl (MAX_fl x (fl_of_int binary32 (- ?d))) (fl_of_int binary32 ?d))) \<le> ?d" for x
  proof (rule fl_to_u32_le)
    have le: "val (fl_of_int binary32 (- ?d)) \<le> val (fl_of_int binary32 ?d)" using assms(1) by (simp add: dl)
    note lim = limited_finite [OF dl(3,1) le, of x]
    show "finite_fl (MIN_fl (MAX_fl x (fl_of_int binary32 (- ?d))) (fl_of_int binary32 ?d))" by (rule lim)
    show "val (MIN_fl (MAX_fl x (fl_of_int binary32 (- ?d))) (fl_of_int binary32 ?d)) \<le> real_of_int ?d"
      using lim(3) by (simp only: dl(2))
  qed (use assms(1,2) in simp_all)
  then show ?thesis using assms(1)
    by (simp add: assms(3) MotorControlCb_def Let_def BiquadUpdateLim_def BiquadReset_def split: prod.splits)
qed

text \<open>C17. With the clocks of this board (168 MHz timer clock, 35 kHz PWM) the initialisation yields a
  period of 4800 counts, a maximum duty of 4560 counts (95 percent), the ADC trigger at 4656
  counts, behind the longest pulse, and a compensator at rest.\<close>

theorem motor_init_timing:
  assumes "clock_freq m = 168000000" "pwm_freq m = 35000"
  shows "cfg_period (MotorControlInit m) = 4800 \<and> max_duty_count (MotorControlInit m) = 4560 \<and>
    ch3_width (MotorControlInit m) = 4656 \<and>
    BiquadReset (ia_compensator (MotorControlInit m)) = ia_compensator (MotorControlInit m)"
proof -
  have p: "clock_freq m div pwm_freq m = 4800" by (simp add: assms)
  have f: "fl_of_int binary32 4800 = Num False 9830400 (-11)"
    by (simp add: fl_of_int_def fl_round_def binary32_def bitlen.simps)
  have d: "max_duty = Num False 15938355 (-24)" "adc_sample_duty = Num False 16273900 (-24)"
    by (simp_all add: max_duty_def adc_sample_duty_def fl_of_bits32_def)
  have "f_mul (Num False 9830400 (-11)) (Num False 15938355 (-24)) = Num False 9338880 (-11)"
    "f_mul (Num False 9830400 (-11)) (Num False 16273900 (-24)) = Num False 9535488 (-11)"
    by (simp_all add: fl_round_def binary32_def bitlen.simps round_shift_def)
  then have "fl_to_i32 (f_mul (fl_of_int binary32 4800) max_duty) = 4560"
    "fl_to_u32 (f_mul (fl_of_int binary32 4800) adc_sample_duty) = 4656"
    unfolding f d by (simp_all only:) (simp_all add: clamp_def)
  then show ?thesis
    by (simp add: MotorControlInit_def Let_def p BiquadInit_def BiquadReset_def del: fl_to_i32.simps fl_to_u32.simps)
qed

definition idle_freq :: freq_response where
  "idle_freq = \<lparr>fr_fs = f_zero, fr_f_min = f_zero, fr_f_max = f_zero, frequencies_per_decade = f_zero,
     fr_magnitude = f_zero, wavelengths_per_frequency = 0, fr_emit = False, fr_f = f_zero, fr_theta = f_zero,
     theta_increment = f_zero, normalization_factor = f_zero, samples_remaining = 0, sin_sum = f_zero,
     cos_sum = f_zero, sin_exc_sum = f_zero, cos_exc_sum = f_zero\<rparr>"

definition idle_biquad :: biquad where
  "idle_biquad = \<lparr>bq_b0 = f_zero, bq_b1 = f_zero, bq_b2 = f_zero, bq_a1 = f_zero, bq_a2 = f_zero,
     bq_in1 = f_zero, bq_in2 = f_zero, bq_out1 = f_zero, bq_out2 = f_zero\<rparr>"

definition idle_motor :: motor where
  "idle_motor = \<lparr>enabled = False, i_target = f_zero, error_count = 0, mc_i_a = f_zero,
     ia_compensator = idle_biquad, pwm_freq = 35000, clock_freq = 168000000, max_duty_count = 4560,
     cfg_frequency = 0, cfg_period = 0, ccr0 = 7, ccr1 = 8, ccr2 = 9, ch3_width = 0,
     fault_clear_high = True, adc_sr = 0, ia_freq = idle_freq\<rparr>"

theorem motor_init_timing_witness:
  "cfg_period (MotorControlInit idle_motor) = 4800 \<and> max_duty_count (MotorControlInit idle_motor) = 4560"
  using motor_init_timing [of idle_motor] by (simp add: idle_motor_def)

theorem motor_cb_duty_bounded_witness:
  "let lm = \<lparr>sinf = (\<lambda>x. x), cosf = (\<lambda>x. x), powf = (\<lambda>x y. x)\<rparr> in
   ccr0 (MotorControlCb lm f_zero f_zero idle_motor) = 0 \<and>
   error_count (MotorControlCb lm f_zero f_zero idle_motor) = 1"
  using motor_cb_duty_bounded [of idle_motor, OF _ _ refl,
      of "\<lparr>sinf = (\<lambda>x. x), cosf = (\<lambda>x. x), powf = (\<lambda>x y. x)\<rparr>" f_zero f_zero]
  by (simp add: idle_motor_def Let_def)

section \<open>The measurement\<close>

definition update_run :: "libm \<Rightarrow> fl list \<Rightarrow> freq_response \<Rightarrow> freq_response" where
  "update_run lm xs fr = fold (\<lambda>x fr. snd (FreqResponse_Update lm x fr)) xs fr"

lemma update_countdown:
  "0 < samples_remaining fr \<Longrightarrow> samples_remaining (snd (FreqResponse_Update lm x fr)) = samples_remaining fr - 1"
  by (simp add: FreqResponse_Update_def FreqResponse_UpdateWithOffset_def Let_def)

lemma update_idle: "samples_remaining fr = 0 \<Longrightarrow> FreqResponse_Update lm x fr = (x, fr)"
  by (simp add: FreqResponse_Update_def FreqResponse_UpdateWithOffset_def)

text \<open>C20. A measurement of \<open>n\<close> samples takes exactly \<open>n\<close> updates: then no samples remain, and until the
  next poll every further update hands its sample through unchanged and leaves the result alone.\<close>

theorem measurement_terminates:
  assumes "samples_remaining fr = int (length xs)"
  shows "samples_remaining (update_run lm xs fr) = 0 \<and>
    update_run lm (xs @ ys) fr = update_run lm xs fr \<and>
    FreqResponse_Update lm x (update_run lm (xs @ ys) fr) = (x, update_run lm xs fr)"
proof -
  have z: "samples_remaining (update_run lm xs fr) = 0"
    using assms
    by (induction xs arbitrary: fr) (simp_all add: update_run_def update_countdown)
  moreover have "update_run lm ys fr' = fr'" if "samples_remaining fr' = 0" for fr'
    using that by (induction ys) (simp_all add: update_run_def update_idle)
  ultimately have "update_run lm (xs @ ys) fr = update_run lm xs fr" by (simp add: update_run_def)
  then show ?thesis using z by (simp add: update_idle)
qed

theorem measurement_terminates_witness:
  "samples_remaining (update_run \<lparr>sinf = (\<lambda>x. x), cosf = (\<lambda>x. x), powf = (\<lambda>x y. x)\<rparr> [f_zero, f_zero]
     (idle_freq\<lparr>samples_remaining := 2\<rparr>)) = 0"
  using measurement_terminates [of "idle_freq\<lparr>samples_remaining := 2\<rparr>" "[f_zero, f_zero]"] by simp



end
