(* ===== verification/Fifo.thy ===== *)
theory Fifo
  imports Prelude
begin

text \<open>
  The contract of a bounded first-in first-out buffer, which several components implement with a
  circular array: a view of the buffer as a list, oldest element first, and its capacity. Clients
  (message builders, mailboxes) rely on these laws only.
\<close>

locale fifo_put =
  fixes inv :: "'s \<Rightarrow> bool" and view :: "'s \<Rightarrow> 'a list" and cap :: "'s \<Rightarrow> nat" and put :: "'a \<Rightarrow> 's \<Rightarrow> 's"
  assumes put_inv: "inv s \<Longrightarrow> length (view s) < cap s \<Longrightarrow> inv (put x s)"
    and put_view: "inv s \<Longrightarrow> length (view s) < cap s \<Longrightarrow> view (put x s) = view s @ [x]"
    and put_cap: "cap (put x s) = cap s"
    and bounded: "inv s \<Longrightarrow> length (view s) \<le> cap s"
begin

text \<open>A run of elements that fits is appended as a whole.\<close>

lemma put_all:
  "inv s \<Longrightarrow> length (view s) + length xs \<le> cap s \<Longrightarrow>
   inv (fold put xs s) \<and> view (fold put xs s) = view s @ xs \<and> cap (fold put xs s) = cap s"
  by (induction xs arbitrary: s) (simp_all add: put_inv put_view put_cap)

lemma put_all_view: "inv s \<Longrightarrow> length (view s) + length xs \<le> cap s \<Longrightarrow> view (fold put xs s) = view s @ xs"
  using put_all by blast

lemma put_all_inv: "inv s \<Longrightarrow> length (view s) + length xs \<le> cap s \<Longrightarrow> inv (fold put xs s)"
  using put_all by blast

lemma put_all_cap: "cap (fold put xs s) = cap s"
  by (induction xs arbitrary: s) (simp_all add: put_cap)

end

locale fifo = fifo_put inv view cap put
  for inv :: "'s \<Rightarrow> bool" and view :: "'s \<Rightarrow> 'a list" and cap :: "'s \<Rightarrow> nat" and put :: "'a \<Rightarrow> 's \<Rightarrow> 's" +
  fixes get :: "'s \<Rightarrow> 'a \<times> 's"
  assumes get_inv: "inv s \<Longrightarrow> view s \<noteq> [] \<Longrightarrow> inv (snd (get s))"
    and get_view: "inv s \<Longrightarrow> view s \<noteq> [] \<Longrightarrow> view s = fst (get s) # view (snd (get s))"
    and get_cap: "cap (snd (get s)) = cap s"
begin

text \<open>Reading \<open>n\<close> elements one after the other.\<close>

fun get_many :: "nat \<Rightarrow> 's \<Rightarrow> 'a list \<times> 's" where
  "get_many 0 s = ([], s)"
| "get_many (Suc n) s = (let (x, s') = get s; (xs, s'') = get_many n s' in (x # xs, s''))"

lemma get_many_view:
  "inv s \<Longrightarrow> n \<le> length (view s) \<Longrightarrow>
   inv (snd (get_many n s)) \<and> view s = fst (get_many n s) @ view (snd (get_many n s)) \<and>
   length (fst (get_many n s)) = n"
proof (induction n arbitrary: s)
  case (Suc n)
  then have ne: "view s \<noteq> []" by auto
  note g = get_inv [OF Suc(2) ne] get_view [OF Suc(2) ne]
  have "n \<le> length (view (snd (get s)))" using Suc(3) g(2) by simp
  from Suc(1) [OF g(1) this] show ?case using g(2) by (simp add: case_prod_beta)
qed simp

text \<open>What has been put comes out in order behind what was there before.\<close>

lemma put_then_get:
  assumes "inv s" "length (view s) + length xs \<le> cap s"
  shows "fst (get_many (length (view s) + length xs) (fold put xs s)) = view s @ xs"
proof -
  note p = put_all [OF assms]
  have "length (view s) + length xs \<le> length (view (fold put xs s))" using p by simp
  from get_many_view [OF _ this] p show ?thesis by (metis append_eq_append_conv append_self_conv length_append)
qed

end

end
