(* ===== verification/MqttRing.thy ===== *)
theory MqttRing
  imports Fifo
begin

text \<open>
  The output side of the MQTT client (\<^verbatim>\<open>ext/lwip/src/apps/mqtt/mqtt.c\<close>): the ring buffer with its free
  running 16-bit indices, the routines that append the parts of a message, the space check and
  \<open>mqtt_output_send\<close>, which hands the buffered bytes to the TCP connection. The TCP stack is a
  parameter: \<open>'p\<close> is the state of a connection and \<open>tcp_ops\<close> the calls the client makes on it.
\<close>

datatype err_t =
    ERR_OK | ERR_MEM | ERR_BUF | ERR_TIMEOUT | ERR_RTE | ERR_INPROGRESS | ERR_VAL | ERR_WOULDBLOCK
  | ERR_USE | ERR_ALREADY | ERR_ISCONN | ERR_CONN | ERR_IF | ERR_ABRT | ERR_RST | ERR_CLSD | ERR_ARG

record 'p tcp_ops =
  tcp_sndbuf :: "'p \<Rightarrow> u16"
  tcp_write :: "'p \<Rightarrow> u8 list \<Rightarrow> bool \<Rightarrow> err_t \<times> 'p"
  tcp_output :: "'p \<Rightarrow> 'p"
  tcp_recved :: "'p \<Rightarrow> nat \<Rightarrow> 'p"
  tcp_recv :: "'p \<Rightarrow> bool \<Rightarrow> 'p"
  tcp_sent :: "'p \<Rightarrow> bool \<Rightarrow> 'p"
  tcp_poll :: "'p \<Rightarrow> bool \<Rightarrow> 'p"
  tcp_err :: "'p \<Rightarrow> bool \<Rightarrow> 'p"
  tcp_close :: "'p \<Rightarrow> err_t"
  tcp_new :: "'p option"
  tcp_bind :: "'p \<Rightarrow> err_t \<times> 'p"
  tcp_connect :: "'p \<Rightarrow> err_t \<times> 'p"

section \<open>Ring buffer\<close>

record mqtt_ringbuf =
  rb_put :: u16
  rb_get :: u16
  rb_buf :: "u8 list"

definition MQTT_OUTPUT_RINGBUF_SIZE :: nat where "MQTT_OUTPUT_RINGBUF_SIZE = 256"
definition MQTT_RINGBUF_IDX_MASK :: u16 where "MQTT_RINGBUF_IDX_MASK = 0xff"

definition mqtt_ringbuf_put :: "u8 \<Rightarrow> mqtt_ringbuf \<Rightarrow> mqtt_ringbuf" where
  "mqtt_ringbuf_put item rb =
     rb\<lparr>rb_buf := (rb_buf rb)[unat (rb_put rb AND MQTT_RINGBUF_IDX_MASK) := item], rb_put := rb_put rb + 1\<rparr>"

definition mqtt_ringbuf_len :: "mqtt_ringbuf \<Rightarrow> u16" where
  "mqtt_ringbuf_len rb = rb_put rb - rb_get rb"

definition mqtt_ringbuf_free :: "mqtt_ringbuf \<Rightarrow> int" where
  "mqtt_ringbuf_free rb = int MQTT_OUTPUT_RINGBUF_SIZE - uint (mqtt_ringbuf_len rb)"

definition mqtt_ringbuf_get_idx :: "mqtt_ringbuf \<Rightarrow> nat" where
  "mqtt_ringbuf_get_idx rb = unat (rb_get rb AND MQTT_RINGBUF_IDX_MASK)"

definition mqtt_ringbuf_linear_read_length :: "mqtt_ringbuf \<Rightarrow> nat" where
  "mqtt_ringbuf_linear_read_length rb =
     min (unat (mqtt_ringbuf_len rb)) (MQTT_OUTPUT_RINGBUF_SIZE - mqtt_ringbuf_get_idx rb)"

definition mqtt_ringbuf_advance_get_idx :: "nat \<Rightarrow> mqtt_ringbuf \<Rightarrow> mqtt_ringbuf" where
  "mqtt_ringbuf_advance_get_idx l rb = rb\<lparr>rb_get := rb_get rb + of_nat l\<rparr>"

section \<open>Sending\<close>

definition output_sent :: "'p tcp_ops \<Rightarrow> nat \<Rightarrow> mqtt_ringbuf \<Rightarrow> err_t \<times> 'p \<Rightarrow> mqtt_ringbuf \<times> 'p" where
  "output_sent T send_len rb r =
     (case r of (err, p) \<Rightarrow>
       if err = ERR_OK then (mqtt_ringbuf_advance_get_idx send_len rb, tcp_output T p) else (rb, p))"

definition ring_bytes :: "mqtt_ringbuf \<Rightarrow> nat \<Rightarrow> u8 list" where
  "ring_bytes rb l = take l (drop (mqtt_ringbuf_get_idx rb) (rb_buf rb))"

definition mqtt_output_send :: "'p tcp_ops \<Rightarrow> mqtt_ringbuf \<Rightarrow> 'p \<Rightarrow> mqtt_ringbuf \<times> 'p" where
  "mqtt_output_send T rb p =
     (let lin_len = mqtt_ringbuf_linear_read_length rb; sndbuf = unat (tcp_sndbuf T p) in
      if sndbuf = 0 \<or> lin_len = 0 then (rb, p)
      else
        let send_len = (if sndbuf > lin_len then lin_len else sndbuf);
            wrap = (sndbuf > lin_len \<and> unat (mqtt_ringbuf_len rb) > lin_len);
            (err, p') = tcp_write T p (ring_bytes rb send_len) wrap
        in if err = ERR_OK \<and> wrap then
             let rb' = mqtt_ringbuf_advance_get_idx send_len rb;
                 send_len' = min (unat (tcp_sndbuf T p')) (mqtt_ringbuf_linear_read_length rb')
             in output_sent T send_len' rb' (tcp_write T p' (ring_bytes rb' send_len') False)
           else output_sent T send_len rb (err, p'))"

section \<open>Building messages\<close>

definition mqtt_output_append_u8 :: "u8 \<Rightarrow> mqtt_ringbuf \<Rightarrow> mqtt_ringbuf" where
  "mqtt_output_append_u8 v rb = mqtt_ringbuf_put v rb"

definition mqtt_output_append_u16 :: "u16 \<Rightarrow> mqtt_ringbuf \<Rightarrow> mqtt_ringbuf" where
  "mqtt_output_append_u16 v rb = mqtt_ringbuf_put (ucast (v AND 0xff)) (mqtt_ringbuf_put (ucast (drop_bit 8 v)) rb)"

text \<open>The source passes a pointer and a length; here the bytes they denote.\<close>

definition mqtt_output_append_buf :: "u8 list \<Rightarrow> mqtt_ringbuf \<Rightarrow> mqtt_ringbuf" where
  "mqtt_output_append_buf bs rb = fold mqtt_ringbuf_put bs rb"

definition mqtt_output_append_string :: "u8 list \<Rightarrow> u16 \<Rightarrow> mqtt_ringbuf \<Rightarrow> mqtt_ringbuf" where
  "mqtt_output_append_string str l rb =
     fold mqtt_ringbuf_put (take (unat l) str)
       (mqtt_ringbuf_put (ucast (l AND 0xff)) (mqtt_ringbuf_put (ucast (drop_bit 8 l)) rb))"

lemma drop_bit_decreases: "drop_bit 7 r > 0 \<Longrightarrow> unat (drop_bit 7 r) < unat (r :: u16)"
proof -
  assume "drop_bit 7 r > 0"
  then have "unat r \<noteq> 0" by (auto simp: unat_eq_0)
  then show ?thesis by (simp add: drop_bit_eq_div unat_div_distrib)
qed

function append_remaining_length :: "u16 \<Rightarrow> mqtt_ringbuf \<Rightarrow> mqtt_ringbuf" where
  "append_remaining_length r_length rb =
     (let rb' = mqtt_output_append_u8 (ucast (r_length AND 0x7f) OR (if r_length \<ge> 128 then 0x80 else 0)) rb;
          r' = drop_bit 7 r_length
      in if r' > 0 then append_remaining_length r' rb' else rb')"
  by pat_completeness auto
termination by (relation "measure (\<lambda>(r, rb). unat r)") (auto intro: drop_bit_decreases)

definition fixed_header_byte :: "u8 \<Rightarrow> u8 \<Rightarrow> u8 \<Rightarrow> u8 \<Rightarrow> u8" where
  "fixed_header_byte msg_type dup qos retain =
     push_bit 4 (msg_type AND 0x0f) OR push_bit 3 (dup AND 1) OR push_bit 1 (qos AND 3) OR (retain AND 1)"

definition mqtt_output_append_fixed_header :: "u8 \<Rightarrow> u8 \<Rightarrow> u8 \<Rightarrow> u8 \<Rightarrow> u16 \<Rightarrow> mqtt_ringbuf \<Rightarrow> mqtt_ringbuf" where
  "mqtt_output_append_fixed_header msg_type dup qos retain r_length rb =
     append_remaining_length r_length (mqtt_output_append_u8 (fixed_header_byte msg_type dup qos retain) rb)"

function count_length_bytes :: "u16 \<Rightarrow> u16 \<Rightarrow> u16" where
  "count_length_bytes total_len r_length =
     (let r' = drop_bit 7 r_length in
      if r' > 0 then count_length_bytes (total_len + 1) r' else total_len + 1)"
  by pat_completeness auto
termination by (relation "measure (\<lambda>(t, r). unat r)") (auto intro: drop_bit_decreases)

definition mqtt_output_check_space :: "u16 \<Rightarrow> mqtt_ringbuf \<Rightarrow> bool" where
  "mqtt_output_check_space r_length rb \<longleftrightarrow>
     uint (count_length_bytes (1 + r_length) r_length) \<le> mqtt_ringbuf_free rb"

declare append_remaining_length.simps [simp del] count_length_bytes.simps [simp del]

section \<open>The ring buffer is a FIFO\<close>

definition ring_ok :: "mqtt_ringbuf \<Rightarrow> bool" where
  "ring_ok rb \<longleftrightarrow> length (rb_buf rb) = 256 \<and> unat (mqtt_ringbuf_len rb) \<le> 256"

definition ring_view :: "mqtt_ringbuf \<Rightarrow> u8 list" where
  "ring_view rb = map (\<lambda>i. rb_buf rb ! ((unat (rb_get rb) + i) mod 256)) [0..<unat (mqtt_ringbuf_len rb)]"

lemma length_ring_view [simp]: "length (ring_view rb) = unat (mqtt_ringbuf_len rb)"
  by (simp add: ring_view_def)

lemma mask_index: "unat (w AND MQTT_RINGBUF_IDX_MASK) = unat w mod 256"
proof -
  have "w AND MQTT_RINGBUF_IDX_MASK = take_bit 8 w"
    by (simp add: MQTT_RINGBUF_IDX_MASK_def take_bit_eq_mask mask_eq_exp_minus_1)
  then show ?thesis by (simp add: take_bit_eq_mod unat_mod_distrib)
qed

lemma unat_add_mod_256: "unat (w + of_nat i :: u16) mod 256 = (unat w + i) mod 256"
proof -
  have "unat (w + of_nat i :: u16) = (unat w + i) mod 65536"
    by (simp add: unat_word_ariths unat_of_nat mod_add_right_eq)
  then show ?thesis by (simp add: mod_mod_cancel)
qed

lemma rb_put_eq: "rb_put rb = rb_get rb + of_nat (unat (mqtt_ringbuf_len rb))"
  by (simp add: mqtt_ringbuf_len_def)

lemma put_index: "unat (rb_put rb AND MQTT_RINGBUF_IDX_MASK) = (unat (rb_get rb) + unat (mqtt_ringbuf_len rb)) mod 256"
  unfolding mask_index by (subst rb_put_eq) (rule unat_add_mod_256)

lemma ring_len_put:
  assumes "unat (mqtt_ringbuf_len rb) < 256"
  shows "unat (mqtt_ringbuf_len (mqtt_ringbuf_put x rb)) = unat (mqtt_ringbuf_len rb) + 1"
proof -
  have "mqtt_ringbuf_len (mqtt_ringbuf_put x rb) = mqtt_ringbuf_len rb + 1"
    by (simp add: mqtt_ringbuf_len_def mqtt_ringbuf_put_def)
  then show ?thesis using assms by (simp add: unat_word_ariths)
qed

lemma mod_256_neq:
  assumes "i < n" "n < i + 256"
  shows "(g + i) mod 256 \<noteq> (g + n) mod (256 :: nat)"
proof
  assume "(g + i) mod 256 = (g + n) mod 256"
  then have "256 dvd (n - i)" using assms mod_eq_dvd_iff_nat [of "g + i" "g + n" 256] by simp
  then show False using assms by (auto dest: dvd_imp_le)
qed

interpretation out: fifo_put ring_ok ring_view "\<lambda>_. 256" mqtt_ringbuf_put
proof
  fix s x
  assume ok: "ring_ok s" and room: "length (ring_view s) < 256"
  then have l: "unat (mqtt_ringbuf_len s) < 256" "length (rb_buf s) = 256" by (simp_all add: ring_ok_def)
  show "ring_ok (mqtt_ringbuf_put x s)"
    using l ring_len_put [OF l(1)] by (simp add: ring_ok_def mqtt_ringbuf_put_def)
  show "ring_view (mqtt_ringbuf_put x s) = ring_view s @ [x]"
  proof (rule nth_equalityI)
    fix i assume i: "i < length (ring_view (mqtt_ringbuf_put x s))"
    show "ring_view (mqtt_ringbuf_put x s) ! i = (ring_view s @ [x]) ! i"
    proof (cases "i < unat (mqtt_ringbuf_len s)")
      case True
      then have "(unat (rb_get s) + i) mod 256 \<noteq> (unat (rb_get s) + unat (mqtt_ringbuf_len s)) mod 256"
        using l by (intro mod_256_neq) simp_all
      then show ?thesis
        using True l i by (simp add: ring_len_put ring_view_def nth_append put_index)
          (simp add: put_index mqtt_ringbuf_put_def)
    next
      case False
      then have "i = unat (mqtt_ringbuf_len s)" using i l by (simp add: ring_len_put)
      then show ?thesis using l i by (simp add: ring_len_put ring_view_def nth_append put_index)
          (simp add: put_index mqtt_ringbuf_put_def)
    qed
  qed (simp add: ring_len_put l)
qed (simp_all add: ring_ok_def)

lemma ring_view_advance:
  assumes "l \<le> unat (mqtt_ringbuf_len rb)"
  shows "ring_view (mqtt_ringbuf_advance_get_idx l rb) = drop l (ring_view rb)"
    "unat (mqtt_ringbuf_len (mqtt_ringbuf_advance_get_idx l rb)) = unat (mqtt_ringbuf_len rb) - l"
proof -
  have l: "l < 65536" using assms unsigned_less [of "mqtt_ringbuf_len rb", where 'a = nat] by simp
  have e: "mqtt_ringbuf_len (mqtt_ringbuf_advance_get_idx l rb) = mqtt_ringbuf_len rb - of_nat l"
    by (simp add: mqtt_ringbuf_len_def mqtt_ringbuf_advance_get_idx_def)
  show len: "unat (mqtt_ringbuf_len (mqtt_ringbuf_advance_get_idx l rb)) = unat (mqtt_ringbuf_len rb) - l"
    unfolding e using assms l by (subst unat_sub) (simp_all add: word_le_nat_alt unat_of_nat)
  have g: "unat (rb_get rb + of_nat l) mod 256 = (unat (rb_get rb) + l) mod 256" by (rule unat_add_mod_256)
  have "(unat (rb_get rb + of_nat l) + i) mod 256 = (unat (rb_get rb) + (l + i)) mod 256" for i
    using mod_add_cong [OF g, of i i] by (simp add: add.assoc)
  then show "ring_view (mqtt_ringbuf_advance_get_idx l rb) = drop l (ring_view rb)"
    by (intro nth_equalityI, simp_all add: len) (simp add: ring_view_def len, simp add: mqtt_ringbuf_advance_get_idx_def)
qed

lemma ring_ok_advance:
  "ring_ok rb \<Longrightarrow> l \<le> unat (mqtt_ringbuf_len rb) \<Longrightarrow> ring_ok (mqtt_ringbuf_advance_get_idx l rb)"
  by (auto simp: ring_ok_def ring_view_advance) (simp add: mqtt_ringbuf_advance_get_idx_def)

lemma linear_le: "mqtt_ringbuf_linear_read_length rb \<le> unat (mqtt_ringbuf_len rb)"
  by (simp add: mqtt_ringbuf_linear_read_length_def)

lemma ring_bytes_view:
  assumes "ring_ok rb" "l \<le> mqtt_ringbuf_linear_read_length rb"
  shows "ring_bytes rb l = take l (ring_view rb)"
proof -
  define g where "g = unat (rb_get rb) mod 256"
  have l: "l \<le> unat (mqtt_ringbuf_len rb)" "l \<le> 256 - g" "length (rb_buf rb) = 256" "g < 256"
    using assms by (simp_all add: ring_ok_def mqtt_ringbuf_linear_read_length_def g_def
        mqtt_ringbuf_get_idx_def mask_index MQTT_OUTPUT_RINGBUF_SIZE_def)
  have "(unat (rb_get rb) + i) mod 256 = g + i" if "i < l" for i
    using that l mod_add_left_eq [of "unat (rb_get rb)" 256 i] by (simp add: g_def)
  then show ?thesis
    using l by (intro nth_equalityI)
      (simp_all add: ring_bytes_def ring_view_def mqtt_ringbuf_get_idx_def mask_index flip: g_def)
qed

section \<open>The bytes of a message\<close>

text \<open>The remaining length in base 128, least significant digit first.\<close>

fun rl_bytes :: "nat \<Rightarrow> u8 list" where
  "rl_bytes n = (if n < 128 then [of_nat n] else (of_nat (n mod 128) OR 0x80) # rl_bytes (n div 128))"

declare rl_bytes.simps [simp del]

lemma unat_drop_7: "unat (drop_bit 7 r :: u16) = unat r div 128"
  by (simp add: drop_bit_eq_div unat_div_distrib)

lemma low_digit: "ucast (r AND 0x7f :: u16) = (of_nat (unat r mod 128) :: u8)"
proof -
  have "r AND 0x7f = take_bit 7 r" by (simp add: take_bit_eq_mask mask_eq_exp_minus_1)
  then have "unat (r AND 0x7f) = unat r mod 128" by (simp add: take_bit_eq_mod unat_mod_distrib)
  then show ?thesis by (metis of_nat_unat)
qed

lemma more_digits: "(0 < (drop_bit 7 r :: u16)) = (128 \<le> unat r)" "(128 \<le> (r :: u16)) = (128 \<le> unat r)"
  by (simp_all add: word_less_nat_alt word_le_nat_alt unat_drop_7 div_greater_zero_iff)

lemma append_remaining_length_fold: "append_remaining_length r rb = fold mqtt_ringbuf_put (rl_bytes (unat r)) rb"
proof (induction r rb rule: append_remaining_length.induct)
  case (1 r rb)
  show ?case
  proof (cases "128 \<le> unat r")
    case True
    then show ?thesis
      using 1 by (subst append_remaining_length.simps, subst rl_bytes.simps)
        (simp add: Let_def more_digits unat_drop_7 low_digit mqtt_output_append_u8_def)
  next
    case False
    then show ?thesis
      by (subst append_remaining_length.simps, subst rl_bytes.simps)
        (simp add: Let_def more_digits low_digit mqtt_output_append_u8_def)
  qed
qed

lemma count_length_bytes_eq: "count_length_bytes t r = t + of_nat (length (rl_bytes (unat r)))"
proof (induction t r rule: count_length_bytes.induct)
  case (1 t r)
  show ?case
    using 1 by (subst count_length_bytes.simps, subst rl_bytes.simps)
      (simp add: Let_def more_digits unat_drop_7)
qed

lemma rl_bytes_length: "n < 65536 \<Longrightarrow> 1 \<le> length (rl_bytes n) \<and> length (rl_bytes n) \<le> 3"
  by (simp add: rl_bytes.simps [of n] rl_bytes.simps [of "n div 128"] rl_bytes.simps [of "n div 16384"]
      div_mult2_eq [symmetric])

text \<open>The appending routines write these bytes.\<close>

lemma output_append_fold:
  "mqtt_output_append_u8 v rb = fold mqtt_ringbuf_put [v] rb"
  "mqtt_output_append_u16 w rb = fold mqtt_ringbuf_put (be16 w) rb"
  "mqtt_output_append_buf bs rb = fold mqtt_ringbuf_put bs rb"
  "mqtt_output_append_string str l rb = fold mqtt_ringbuf_put (be16 l @ take (unat l) str) rb"
  "mqtt_output_append_fixed_header t d q r n rb =
     fold mqtt_ringbuf_put (fixed_header_byte t d q r # rl_bytes (unat n)) rb"
proof -
  have low: "ucast (w AND 0xff :: u16) = (ucast w :: u8)" for w
    by (rule byte_eqI) (simp_all add: bit_simps)
  show "mqtt_output_append_u16 w rb = fold mqtt_ringbuf_put (be16 w) rb"
    by (simp add: mqtt_output_append_u16_def be16_def low)
  show "mqtt_output_append_string str l rb = fold mqtt_ringbuf_put (be16 l @ take (unat l) str) rb"
    by (simp add: mqtt_output_append_string_def be16_def low)
qed (simp_all add: mqtt_output_append_u8_def mqtt_output_append_buf_def mqtt_output_append_fixed_header_def
      append_remaining_length_fold)

text \<open>
  The space check is exact unless the 16-bit sum of the message length wraps.
\<close>

lemma check_space_exact:
  assumes "unat r + length (rl_bytes (unat r)) < 65535"
  shows "mqtt_output_check_space r rb \<longleftrightarrow>
    unat (mqtt_ringbuf_len rb) + 1 + length (rl_bytes (unat r)) + unat r \<le> 256"
proof -
  have "unat (1 + r + of_nat (length (rl_bytes (unat r)))) = 1 + unat r + length (rl_bytes (unat r))"
    using assms by (simp add: unat_word_ariths unat_of_nat)
  then have "uint (1 + r + of_nat (length (rl_bytes (unat r)))) = int (1 + unat r + length (rl_bytes (unat r)))"
    by (metis uint_nat)
  then show ?thesis
    by (simp add: mqtt_output_check_space_def count_length_bytes_eq mqtt_ringbuf_free_def
        MQTT_OUTPUT_RINGBUF_SIZE_def uint_nat del: of_nat_unat) linarith
qed

section \<open>Sending is faithful\<close>

text \<open>
  What the client relies on of \<open>tcp_write\<close> and \<open>tcp_output\<close>: with \<open>ERR_OK\<close> the bytes are queued behind
  those queued before, otherwise nothing is queued. \<open>snt\<close> is the stream queued so far.
\<close>

definition tcp_stream :: "'p tcp_ops \<Rightarrow> ('p \<Rightarrow> u8 list) \<Rightarrow> bool" where
  "tcp_stream T snt \<longleftrightarrow>
     (\<forall>p d f. snt (snd (tcp_write T p d f)) = (if fst (tcp_write T p d f) = ERR_OK then snt p @ d else snt p)) \<and>
     (\<forall>p. snt (tcp_output T p) = snt p)"

lemma output_sent_stream:
  assumes "tcp_stream T snt" "ring_ok rb" "l \<le> mqtt_ringbuf_linear_read_length rb"
    "output_sent T l rb (tcp_write T p (ring_bytes rb l) f) = (rb', p')"
  shows "ring_ok rb' \<and> snt p' @ ring_view rb' = snt p @ ring_view rb"
proof -
  have l: "l \<le> unat (mqtt_ringbuf_len rb)" using assms(3) linear_le [of rb] by linarith
  show ?thesis
    using assms l by (auto simp: output_sent_def case_prod_beta tcp_stream_def ring_bytes_view
        ring_view_advance ring_ok_advance split: if_splits)
qed

lemma output_send_stream:
  assumes "tcp_stream T snt" "ring_ok rb" "mqtt_output_send T rb p = (rb', p')"
  shows "ring_ok rb' \<and> snt p' @ ring_view rb' = snt p @ ring_view rb"
proof -
  define lin where "lin = mqtt_ringbuf_linear_read_length rb"
  define l where "l = (if unat (tcp_sndbuf T p) > lin then lin else unat (tcp_sndbuf T p))"
  define wrap where "wrap = (unat (tcp_sndbuf T p) > lin \<and> unat (mqtt_ringbuf_len rb) > lin)"
  define w where "w = tcp_write T p (ring_bytes rb l) wrap"
  have l: "l \<le> mqtt_ringbuf_linear_read_length rb" by (simp add: l_def lin_def)
  then have l': "l \<le> unat (mqtt_ringbuf_len rb)" using linear_le [of rb] by linarith
  show ?thesis
  proof (cases "unat (tcp_sndbuf T p) = 0 \<or> lin = 0")
    case True
    then show ?thesis using assms(2,3) by (auto simp: mqtt_output_send_def lin_def Let_def)
  next
    case nz: False
    show ?thesis
    proof (cases "fst w = ERR_OK \<and> wrap")
      case True
      define rb1 where "rb1 = mqtt_ringbuf_advance_get_idx l rb"
      define l1 where "l1 = min (unat (tcp_sndbuf T (snd w))) (mqtt_ringbuf_linear_read_length rb1)"
      have e: "output_sent T l1 rb1 (tcp_write T (snd w) (ring_bytes rb1 l1) False) = (rb', p')"
        using assms(3) nz True unfolding mqtt_output_send_def Let_def lin_def [symmetric] l_def [symmetric]
          wrap_def [symmetric] w_def [symmetric] by (simp add: case_prod_beta l1_def rb1_def)
      have ok: "ring_ok rb1" using assms(2) l' by (simp add: rb1_def ring_ok_advance)
      have "l1 \<le> mqtt_ringbuf_linear_read_length rb1" by (simp add: l1_def)
      from output_sent_stream [OF assms(1) ok this e]
      have "ring_ok rb'" "snt p' @ ring_view rb' = snt (snd w) @ ring_view rb1" by simp_all
      moreover have "snt (snd w) = (if fst w = ERR_OK then snt p @ ring_bytes rb l else snt p)"
        using assms(1) unfolding w_def tcp_stream_def by blast
      then have "snt (snd w) = snt p @ take l (ring_view rb)"
        using True ring_bytes_view [OF assms(2) l] by simp
      ultimately show ?thesis using l' by (simp add: rb1_def ring_view_advance)
    next
      case False
      have "output_sent T l rb w = (rb', p')"
        using assms(3) nz False unfolding mqtt_output_send_def Let_def lin_def [symmetric] l_def [symmetric]
          wrap_def [symmetric] w_def [symmetric] by (simp add: case_prod_beta)
      from output_sent_stream [OF assms(1,2) l this [unfolded w_def]] show ?thesis .
    qed
  qed
qed

text \<open>Whatever TCP does, the ring buffer stays well-formed.\<close>

lemma output_send_ring_ok:
  assumes "ring_ok rb"
  shows "ring_ok (fst (mqtt_output_send T rb p))"
proof -
  have adv: "ring_ok (fst (output_sent T l rb' r))" if "ring_ok rb'" "l \<le> mqtt_ringbuf_linear_read_length rb'" for l rb' r
    using that linear_le [of rb'] by (auto simp: output_sent_def ring_ok_advance split: prod.splits)
  have "ring_ok (mqtt_ringbuf_advance_get_idx l rb)" if "l \<le> mqtt_ringbuf_linear_read_length rb" for l
    using that assms linear_le [of rb] by (intro ring_ok_advance) simp_all
  then show ?thesis
    using assms by (auto simp: mqtt_output_send_def Let_def case_prod_beta intro!: adv)
qed

text \<open>A connection that accepts everything, for concrete runs: its state is the stream.\<close>

definition loop_tcp :: "u8 list tcp_ops" where
  "loop_tcp = \<lparr>tcp_sndbuf = \<lambda>p. 1000, tcp_write = \<lambda>p d f. (ERR_OK, p @ d), tcp_output = \<lambda>p. p, tcp_recved = \<lambda>p n. p,
     tcp_recv = \<lambda>p f. p, tcp_sent = \<lambda>p f. p, tcp_poll = \<lambda>p f. p, tcp_err = \<lambda>p f. p, tcp_close = \<lambda>p. ERR_OK,
     tcp_new = Some [], tcp_bind = \<lambda>p. (ERR_OK, p), tcp_connect = \<lambda>p. (ERR_OK, p)\<rparr>"

lemma loop_tcp_stream: "tcp_stream loop_tcp (\<lambda>p. p)"
  by (simp add: tcp_stream_def loop_tcp_def)

section \<open>The property\<close>

text \<open>C26. \<open>mqtt_output_send\<close> neither loses, duplicates nor reorders bytes: what it has queued on the
  TCP connection followed by what is left in the ring buffer is what had been queued before followed
  by what was in the ring buffer, for every outcome of the one or two TCP writes it makes.\<close>

theorem output_send_keeps_stream:
  assumes "tcp_stream T snt" "ring_ok rb" "mqtt_output_send T rb p = (rb', p')"
  shows "ring_ok rb' \<and> snt p' @ ring_view rb' = snt p @ ring_view rb"
  using assms by (rule output_send_stream)

definition wrapped_ring :: mqtt_ringbuf where
  "wrapped_ring = \<lparr>rb_put = 258, rb_get = 255, rb_buf = 2 # 3 # replicate 253 0 @ [1]\<rparr>"

theorem output_send_keeps_stream_witness:
  "ring_view wrapped_ring = [1, 2, 3] \<and>
   snd (mqtt_output_send loop_tcp wrapped_ring [9]) @ ring_view (fst (mqtt_output_send loop_tcp wrapped_ring [9])) = [9, 1, 2, 3]"
proof -
  have v: "ring_view wrapped_ring = [1, 2, 3]"
    by (simp add: ring_view_def wrapped_ring_def mqtt_ringbuf_len_def upt_rec nth_append)
  have "ring_ok wrapped_ring" by (simp add: ring_ok_def wrapped_ring_def mqtt_ringbuf_len_def)
  from output_send_keeps_stream [OF loop_tcp_stream this, of "[9]"] show ?thesis
    by (cases "mqtt_output_send loop_tcp wrapped_ring [9]") (simp add: v)
qed

end
