(* ===== verification/MqttReq.thy ===== *)
theory MqttReq
  imports MqttRing
begin

text \<open>
  The request queue of the MQTT client (\<^verbatim>\<open>mqtt.c\<close>): a fixed array of request slots, linked through
  \<open>next\<close> pointers into the queue of pending requests, where a slot that points to itself is free and
  each timeout is stored relative to the request before it. A pointer to a slot is its index, with
  \<open>None\<close> for a null pointer; a callback is its identity. A loop over the list takes fuel for one more
  round than there are slots; \<open>None\<close> as a result means that it would not end, or that an assertion
  halts the system.
\<close>

record mqtt_request =
  rq_next :: "nat option"
  rq_cb :: "nat option"
  rq_arg :: addr
  rq_pkt_id :: u16
  rq_timeout_diff :: u16

type_synonym req_list = "mqtt_request list"

text \<open>A call of a request callback with its argument and the error code.\<close>

type_synonym req_call = "nat \<times> addr \<times> err_t"

definition MQTT_REQ_MAX_IN_FLIGHT :: nat where "MQTT_REQ_MAX_IN_FLIGHT = 4"
definition MQTT_REQ_TIMEOUT :: int where "MQTT_REQ_TIMEOUT = 30"

definition set_next :: "nat \<Rightarrow> nat option \<Rightarrow> req_list \<Rightarrow> req_list" where
  "set_next i p rs = rs[i := (rs ! i)\<lparr>rq_next := p\<rparr>]"

definition set_diff :: "nat \<Rightarrow> u16 \<Rightarrow> req_list \<Rightarrow> req_list" where
  "set_diff i d rs = rs[i := (rs ! i)\<lparr>rq_timeout_diff := d\<rparr>]"

definition mqtt_create_request :: "u16 \<Rightarrow> nat option \<Rightarrow> addr \<Rightarrow> req_list \<Rightarrow> nat option \<times> req_list" where
  "mqtt_create_request pkt_id cb arg rs =
     (case find (\<lambda>n. rq_next (rs ! n) = Some n) [0..<MQTT_REQ_MAX_IN_FLIGHT] of
        None \<Rightarrow> (None, rs)
      | Some n \<Rightarrow> (Some n, rs[n := (rs ! n)\<lparr>rq_next := None, rq_cb := cb, rq_arg := arg, rq_pkt_id := pkt_id\<rparr>]))"

fun append_loop :: "nat \<Rightarrow> req_list \<Rightarrow> nat option \<Rightarrow> nat option \<Rightarrow> u16 \<Rightarrow> (nat option \<times> u16) option" where
  "append_loop 0 rs iter head time_before = None"
| "append_loop (Suc n) rs None head time_before = Some (head, time_before)"
| "append_loop (Suc n) rs (Some i) head time_before =
     append_loop n rs (rq_next (rs ! i)) (Some i) (time_before + rq_timeout_diff (rs ! i))"

definition mqtt_append_request :: "nat \<Rightarrow> nat option \<times> req_list \<Rightarrow> (nat option \<times> req_list) option" where
  "mqtt_append_request r q =
     (case q of (tail, rs) \<Rightarrow>
       (case append_loop (Suc (length rs)) rs tail None 0 of
          None \<Rightarrow> None
        | Some (head, time_before) \<Rightarrow>
            if sint time_before \<le> MQTT_REQ_TIMEOUT then
              (let rs = set_diff r (word_of_int MQTT_REQ_TIMEOUT - time_before) rs in
               case head of None \<Rightarrow> Some (Some r, rs) | Some h \<Rightarrow> Some (tail, set_next h (Some r) rs))
            else None))"

definition mqtt_delete_request :: "nat option \<Rightarrow> req_list \<Rightarrow> req_list" where
  "mqtt_delete_request r rs = (case r of None \<Rightarrow> rs | Some i \<Rightarrow> set_next i (Some i) rs)"

fun take_loop :: "nat \<Rightarrow> req_list \<Rightarrow> u16 \<Rightarrow> nat option \<Rightarrow> nat option \<Rightarrow> (nat option \<times> nat option) option" where
  "take_loop 0 rs pkt_id iter prev = None"
| "take_loop (Suc n) rs pkt_id None prev = Some (None, prev)"
| "take_loop (Suc n) rs pkt_id (Some i) prev =
     (if rq_pkt_id (rs ! i) = pkt_id then Some (Some i, prev)
      else take_loop n rs pkt_id (rq_next (rs ! i)) (Some i))"

definition mqtt_take_request :: "u16 \<Rightarrow> nat option \<times> req_list \<Rightarrow> (nat option \<times> nat option \<times> req_list) option" where
  "mqtt_take_request pkt_id q =
     (case q of (tail, rs) \<Rightarrow>
       (case take_loop (Suc (length rs)) rs pkt_id tail None of
          None \<Rightarrow> None
        | Some (None, prev) \<Rightarrow> Some (None, tail, rs)
        | Some (Some i, prev) \<Rightarrow>
            (let nxt = rq_next (rs ! i);
                 (tail', rs1) = (case prev of None \<Rightarrow> (nxt, rs) | Some p \<Rightarrow> (tail, set_next p nxt rs));
                 rs2 = (case nxt of None \<Rightarrow> rs1
                        | Some k \<Rightarrow> set_diff k (rq_timeout_diff (rs1 ! k) + rq_timeout_diff (rs1 ! i)) rs1)
             in Some (Some i, tail', set_next i None rs2))))"

definition call_cb :: "mqtt_request \<Rightarrow> err_t \<Rightarrow> req_call list" where
  "call_cb r err = (case rq_cb r of None \<Rightarrow> [] | Some f \<Rightarrow> [(f, rq_arg r, err)])"

fun elapsed_loop :: "nat \<Rightarrow> u8 \<Rightarrow> nat option \<times> req_list \<Rightarrow> (req_call list \<times> nat option \<times> req_list) option" where
  "elapsed_loop 0 t q = None"
| "elapsed_loop (Suc n) t (None, rs) = Some ([], None, rs)"
| "elapsed_loop (Suc n) t (Some r, rs) =
     (if t > 0 then
        if uint t \<ge> uint (rq_timeout_diff (rs ! r)) then
          map_option (\<lambda>(calls, q). (call_cb (rs ! r) ERR_TIMEOUT @ calls, q))
            (elapsed_loop n (t - ucast (rq_timeout_diff (rs ! r)))
               (rq_next (rs ! r), mqtt_delete_request (Some r) rs))
        else Some ([], Some r, set_diff r (rq_timeout_diff (rs ! r) - ucast t) rs)
      else Some ([], Some r, rs))"

definition mqtt_request_time_elapsed ::
    "u8 \<Rightarrow> nat option \<times> req_list \<Rightarrow> (req_call list \<times> nat option \<times> req_list) option" where
  "mqtt_request_time_elapsed t q = elapsed_loop (Suc (length (snd q))) t q"

fun clear_loop :: "nat \<Rightarrow> nat option \<Rightarrow> req_list \<Rightarrow> req_list option" where
  "clear_loop 0 iter rs = None"
| "clear_loop (Suc n) None rs = Some rs"
| "clear_loop (Suc n) (Some i) rs = clear_loop n (rq_next (rs ! i)) (mqtt_delete_request (Some i) rs)"

definition mqtt_clear_requests :: "nat option \<times> req_list \<Rightarrow> (nat option \<times> req_list) option" where
  "mqtt_clear_requests q =
     (case q of (tail, rs) \<Rightarrow> map_option (Pair None) (clear_loop (Suc (length rs)) tail rs))"

definition mqtt_init_requests :: "req_list \<Rightarrow> req_list" where
  "mqtt_init_requests rs = fold (\<lambda>n rs. set_next n (Some n) rs) [0..<MQTT_REQ_MAX_IN_FLIGHT] rs"

section \<open>The queue as a list\<close>

text \<open>A run of linked slots from pointer \<open>p\<close> up to pointer \<open>q\<close>.\<close>

fun linked :: "req_list \<Rightarrow> nat option \<Rightarrow> nat list \<Rightarrow> nat option \<Rightarrow> bool" where
  "linked rs p [] q = (p = q)"
| "linked rs p (i # is) q = (p = Some i \<and> i < length rs \<and> linked rs (rq_next (rs ! i)) is q)"

lemma linked_append: "linked rs p (xs @ ys) q \<longleftrightarrow> (\<exists>r. linked rs p xs r \<and> linked rs r ys q)"
  by (induction xs arbitrary: p) auto

lemma linked_cong:
  "length rs' = length rs \<Longrightarrow> (\<And>i. i \<in> set is \<Longrightarrow> rq_next (rs' ! i) = rq_next (rs ! i)) \<Longrightarrow>
   linked rs' p is q = linked rs p is q"
  by (induction "is" arbitrary: p) auto

lemma linked_in_range: "linked rs p is q \<Longrightarrow> i \<in> set is \<Longrightarrow> i < length rs"
  by (induction "is" arbitrary: p) auto

text \<open>The pending requests in order, each with the time left until it expires.\<close>

fun pending :: "req_list \<Rightarrow> nat \<Rightarrow> nat list \<Rightarrow> (nat \<times> nat) list" where
  "pending rs t [] = []"
| "pending rs t (i # is) = (i, t + unat (rq_timeout_diff (rs ! i))) # pending rs (t + unat (rq_timeout_diff (rs ! i))) is"

definition time_sum :: "req_list \<Rightarrow> nat list \<Rightarrow> nat" where
  "time_sum rs is = (\<Sum>i\<leftarrow>is. unat (rq_timeout_diff (rs ! i)))"

lemma time_sum_simps [simp]: "time_sum rs [] = 0" "time_sum rs (i # is) = unat (rq_timeout_diff (rs ! i)) + time_sum rs is"
  "time_sum rs (xs @ ys) = time_sum rs xs + time_sum rs ys"
  by (simp_all add: time_sum_def)

lemma pending_append: "pending rs t (xs @ ys) = pending rs t xs @ pending rs (t + time_sum rs xs) ys"
  by (induction xs arbitrary: t) (simp_all add: add.assoc)

lemma pending_cong:
  "(\<And>i. i \<in> set is \<Longrightarrow> rq_timeout_diff (rs' ! i) = rq_timeout_diff (rs ! i)) \<Longrightarrow> pending rs' t is = pending rs t is"
  by (induction "is" arbitrary: t) auto

lemma time_sum_cong:
  "(\<And>i. i \<in> set is \<Longrightarrow> rq_timeout_diff (rs' ! i) = rq_timeout_diff (rs ! i)) \<Longrightarrow> time_sum rs' is = time_sum rs is"
  by (induction "is") auto

lemma map_fst_pending [simp]: "map fst (pending rs t is) = is"
  by (induction "is" arbitrary: t) auto

text \<open>
  The invariant: the queue is a list of distinct slots, all timeouts together are at most the
  timeout of a request.
\<close>

definition queue_ok :: "nat option \<times> req_list \<Rightarrow> nat list \<Rightarrow> bool" where
  "queue_ok q is \<longleftrightarrow> length (snd q) = MQTT_REQ_MAX_IN_FLIGHT \<and> linked (snd q) (fst q) is None \<and> distinct is \<and>
     time_sum (snd q) is \<le> nat MQTT_REQ_TIMEOUT"

lemma queue_ok_length:
  assumes "queue_ok q is"
  shows "length is < Suc (length (snd q))"
proof -
  have "set is \<subseteq> {..<length (snd q)}" using assms linked_in_range unfolding queue_ok_def by blast
  then have "card (set is) \<le> length (snd q)" using card_mono [of "{..<length (snd q)}"] by simp
  then show ?thesis using assms by (simp add: queue_ok_def distinct_card)
qed

lemma nth_set [simp]:
  "length (set_next i p rs) = length rs" "length (set_diff i d rs) = length rs"
  "i < length rs \<Longrightarrow> set_next i p rs ! i = (rs ! i)\<lparr>rq_next := p\<rparr>"
  "i < length rs \<Longrightarrow> set_diff i d rs ! i = (rs ! i)\<lparr>rq_timeout_diff := d\<rparr>"
  "i \<noteq> j \<Longrightarrow> set_next i p rs ! j = rs ! j" "i \<noteq> j \<Longrightarrow> set_diff i d rs ! j = rs ! j"
  by (simp_all add: set_next_def set_diff_def)

lemma rq_diff_set_next [simp]: "rq_timeout_diff (set_next i p rs ! j) = rq_timeout_diff (rs ! j)"
  by (cases "i < length rs"; cases "i = j") (simp_all add: set_next_def list_update_beyond)

lemma rq_next_set_diff [simp]: "rq_next (set_diff i d rs ! j) = rq_next (rs ! j)"
  by (cases "i < length rs"; cases "i = j") (simp_all add: set_diff_def list_update_beyond)

lemma rq_fields_set [simp]:
  "rq_pkt_id (set_next i p rs ! j) = rq_pkt_id (rs ! j)" "rq_cb (set_next i p rs ! j) = rq_cb (rs ! j)"
  "rq_arg (set_next i p rs ! j) = rq_arg (rs ! j)" "rq_pkt_id (set_diff i d rs ! j) = rq_pkt_id (rs ! j)"
  "rq_cb (set_diff i d rs ! j) = rq_cb (rs ! j)" "rq_arg (set_diff i d rs ! j) = rq_arg (rs ! j)"
  by (cases "i < length rs"; cases "i = j"; simp add: set_next_def set_diff_def list_update_beyond)+

text \<open>What identifies the request in a slot.\<close>

definition request_of :: "mqtt_request \<Rightarrow> nat option \<times> addr \<times> u16" where
  "request_of r = (rq_cb r, rq_arg r, rq_pkt_id r)"

lemma request_of_set [simp]:
  "request_of (set_next i p rs ! j) = request_of (rs ! j)" "request_of (set_diff i d rs ! j) = request_of (rs ! j)"
  by (simp_all add: request_of_def)

section \<open>Appending\<close>

lemma append_loop_linked:
  "linked rs p is None \<Longrightarrow> length is < n \<Longrightarrow>
   append_loop n rs p h t = Some (if is = [] then h else Some (last is), t + of_nat (time_sum rs is))"
proof (induction "is" arbitrary: n p h t)
  case Nil
  then show ?case by (cases n) simp_all
next
  case (Cons i "is")
  then show ?case by (cases n) (simp_all add: add.assoc)
qed

text \<open>Redirecting the last slot of a run.\<close>

lemma linked_last:
  "linked rs p is q0 \<Longrightarrow> is \<noteq> [] \<Longrightarrow> distinct is \<Longrightarrow> length rs' = length rs \<Longrightarrow>
   (\<And>j. j \<in> set is \<Longrightarrow> rq_next (rs' ! j) = (if j = last is then q else rq_next (rs ! j))) \<Longrightarrow> linked rs' p is q"
proof (induction "is" arbitrary: p)
  case (Cons i "is")
  show ?case
  proof (cases "is = []")
    case False
    then have "i \<noteq> last is" using Cons(4) by auto
    then show ?thesis using Cons False by auto
  qed (use Cons in simp)
qed simp

text \<open>A new request goes behind the others and has the full timeout left.\<close>

lemma append_request:
  assumes ok: "queue_ok (tail, rs) is" and r: "r \<notin> set is" "r < MQTT_REQ_MAX_IN_FLIGHT" "rq_next (rs ! r) = None"
  obtains tail' rs' where "mqtt_append_request r (tail, rs) = Some (tail', rs')" "queue_ok (tail', rs') (is @ [r])"
    "pending rs' 0 (is @ [r]) = pending rs 0 is @ [(r, nat MQTT_REQ_TIMEOUT)]"
    "\<And>i. request_of (rs' ! i) = request_of (rs ! i)"
    "\<And>i. i \<notin> set is \<Longrightarrow> rq_next (rs' ! i) = rq_next (rs ! i)"
proof -
  have lk: "linked rs tail is None" "distinct is" "time_sum rs is \<le> 30" "length rs = 4"
    using ok by (simp_all add: queue_ok_def MQTT_REQ_TIMEOUT_def MQTT_REQ_MAX_IN_FLIGHT_def)
  define tb :: u16 where "tb = of_nat (time_sum rs is)"
  have tb: "unat tb = time_sum rs is" using lk(3) by (simp add: tb_def unat_of_nat)
  then have "uint tb = int (time_sum rs is)" by (metis uint_nat)
  then have "sint tb \<le> MQTT_REQ_TIMEOUT" using lk(3) by (simp add: sint_cases MQTT_REQ_TIMEOUT_def)
  moreover define d where "d = word_of_int MQTT_REQ_TIMEOUT - tb"
  have d: "unat d = 30 - time_sum rs is"
    using lk(3) tb unfolding d_def MQTT_REQ_TIMEOUT_def by (subst unat_sub) (simp_all add: word_le_nat_alt)
  moreover have "append_loop (Suc (length rs)) rs tail None 0 = Some (if is = [] then None else Some (last is), tb)"
    using append_loop_linked [OF lk(1)] queue_ok_length [OF ok] by (simp add: tb_def)
  ultimately have e: "mqtt_append_request r (tail, rs) =
      Some (if is = [] then (Some r, set_diff r d rs) else (tail, set_next (last is) (Some r) (set_diff r d rs)))"
    by (simp add: mqtt_append_request_def d_def)
  define rs' where "rs' = (if is = [] then set_diff r d rs else set_next (last is) (Some r) (set_diff r d rs))"
  have rl: "r < length rs" using r(2) lk(4) by (simp add: MQTT_REQ_MAX_IN_FLIGHT_def)
  have diff: "rq_timeout_diff (rs' ! i) = (if i = r then d else rq_timeout_diff (rs ! i))" for i
    using rl by (simp add: rs'_def)
  have "linked rs' (if is = [] then Some r else tail) (is @ [r]) None"
  proof (cases "is = []")
    case True
    then show ?thesis using r rl by (simp add: rs'_def)
  next
    case False
    have "last is < length rs" using linked_in_range [OF lk(1)] False by simp
    then have "linked rs' tail is (Some r)" using False by (intro linked_last [OF lk(1) False lk(2)]) (auto simp: rs'_def)
    moreover have "last is \<noteq> r" using last_in_set [OF False] r(1) by auto
    ultimately show ?thesis using False r rl by (simp add: linked_append) (simp add: rs'_def)
  qed
  moreover have sum: "time_sum rs' is = time_sum rs is" using r(1) by (intro time_sum_cong) (auto simp: diff)
  ultimately have "queue_ok (if is = [] then Some r else tail, rs') (is @ [r])"
    using lk r(1) by (simp add: queue_ok_def diff d MQTT_REQ_TIMEOUT_def MQTT_REQ_MAX_IN_FLIGHT_def) (simp add: rs'_def)
  moreover have "pending rs' 0 is = pending rs 0 is" using r(1) by (intro pending_cong) (auto simp: diff)
  then have "pending rs' 0 (is @ [r]) = pending rs 0 is @ [(r, nat MQTT_REQ_TIMEOUT)]"
    using lk(3) by (simp add: pending_append diff d sum MQTT_REQ_TIMEOUT_def)
  moreover have "rq_next (rs' ! i) = rq_next (rs ! i)" if "i \<notin> set is" for i
  proof (cases "is = []")
    case False
    then have "last is \<noteq> i" using last_in_set [OF False] that by auto
    then show ?thesis using False by (simp add: rs'_def)
  qed (simp add: rs'_def)
  moreover have "request_of (rs' ! i) = request_of (rs ! i)" for i by (simp add: rs'_def)
  ultimately show ?thesis using e by (intro that [of "if is = [] then Some r else tail" rs']) (simp_all add: rs'_def)
qed

section \<open>Taking a request out\<close>

lemma take_loop_found:
  "linked rs p (xs @ i # ys) None \<Longrightarrow> \<forall>j \<in> set xs. rq_pkt_id (rs ! j) \<noteq> pkt_id \<Longrightarrow> rq_pkt_id (rs ! i) = pkt_id \<Longrightarrow>
   length xs < n \<Longrightarrow> take_loop n rs pkt_id p prev = Some (Some i, if xs = [] then prev else Some (last xs))"
proof (induction xs arbitrary: n p prev)
  case Nil
  then show ?case by (cases n) simp_all
next
  case (Cons j xs)
  then show ?case by (cases n) simp_all
qed

lemma take_loop_missing:
  "linked rs p is None \<Longrightarrow> \<forall>j \<in> set is. rq_pkt_id (rs ! j) \<noteq> pkt_id \<Longrightarrow> length is < n \<Longrightarrow>
   \<exists>prev'. take_loop n rs pkt_id p prev = Some (None, prev')"
proof (induction "is" arbitrary: n p prev)
  case Nil
  then show ?case by (cases n) simp_all
next
  case (Cons j xs)
  then show ?case by (cases n) simp_all
qed

lemma take_request_missing:
  assumes "queue_ok (tail, rs) is" "\<forall>j \<in> set is. rq_pkt_id (rs ! j) \<noteq> pkt_id"
  shows "mqtt_take_request pkt_id (tail, rs) = Some (None, tail, rs)"
  using take_loop_missing [of rs tail "is" pkt_id "Suc (length rs)" None] assms queue_ok_length [OF assms(1)]
  by (auto simp: mqtt_take_request_def queue_ok_def)

lemma linked_head: "linked rs p is None \<Longrightarrow> p = (if is = [] then None else Some (hd is))"
  by (cases "is") simp_all

text \<open>The others keep their order and the time they have left.\<close>

lemma take_request_found:
  assumes ok: "queue_ok (tail, rs) (xs @ i # ys)"
    and i: "\<forall>j \<in> set xs. rq_pkt_id (rs ! j) \<noteq> pkt_id" "rq_pkt_id (rs ! i) = pkt_id"
  obtains tail' rs' where "mqtt_take_request pkt_id (tail, rs) = Some (Some i, tail', rs')"
    "queue_ok (tail', rs') (xs @ ys)"
    "pending rs' 0 (xs @ ys) = filter (\<lambda>(j, t). j \<noteq> i) (pending rs 0 (xs @ i # ys))"
    "\<And>j. request_of (rs' ! j) = request_of (rs ! j)" "rq_next (rs' ! i) = None"
    "\<And>j. j \<notin> set (xs @ i # ys) \<Longrightarrow> rq_next (rs' ! j) = rq_next (rs ! j)"
proof -
  have lk: "linked rs tail (xs @ i # ys) None" "distinct (xs @ i # ys)" "time_sum rs (xs @ i # ys) \<le> 30" "length rs = 4"
    using ok by (simp_all add: queue_ok_def MQTT_REQ_TIMEOUT_def MQTT_REQ_MAX_IN_FLIGHT_def)
  define nxt where "nxt = rq_next (rs ! i)"
  define rs1 where "rs1 = (if xs = [] then rs else set_next (last xs) nxt rs)"
  define rs2 where "rs2 = (if ys = [] then rs1 else set_diff (hd ys) (rq_timeout_diff (rs ! hd ys) + rq_timeout_diff (rs ! i)) rs1)"
  define rs' tail' where "rs' = set_next i None rs2" and "tail' = (if xs = [] then nxt else tail)"
  have seg: "linked rs tail xs (Some i)" "i < length rs" "linked rs nxt ys None"
    using lk(1) by (auto simp: linked_append nxt_def)
  have nx: "nxt = (if ys = [] then None else Some (hd ys))" by (rule linked_head [OF seg(3)])
  have "take_loop (Suc (length rs)) rs pkt_id tail None = Some (Some i, if xs = [] then None else Some (last xs))"
    using take_loop_found [OF lk(1) i, of "Suc (length rs)" None] queue_ok_length [OF ok] by simp
  then have e: "mqtt_take_request pkt_id (tail, rs) = Some (Some i, tail', rs')"
    by (simp add: mqtt_take_request_def Let_def nxt_def [symmetric] nx rs'_def tail'_def rs2_def rs1_def)
  have next': "rq_next (rs' ! j) = (if j = i then None else if xs \<noteq> [] \<and> j = last xs then nxt else rq_next (rs ! j))" for j
  proof -
    have "xs \<noteq> [] \<Longrightarrow> last xs < length rs" using linked_in_range [OF seg(1)] by simp
    then show ?thesis using seg(2) by (cases "j = i"; cases "xs = []"; cases "j = last xs")
        (simp_all add: rs'_def rs2_def rs1_def)
  qed
  have diff: "rq_timeout_diff (rs' ! j) =
      (if ys \<noteq> [] \<and> j = hd ys then rq_timeout_diff (rs ! hd ys) + rq_timeout_diff (rs ! i) else rq_timeout_diff (rs ! j))" for j
  proof -
    have "ys \<noteq> [] \<Longrightarrow> hd ys < length rs" using linked_in_range [OF seg(3)] by simp
    then show ?thesis by (simp add: rs'_def rs2_def rs1_def)
  qed
  have len: "length rs' = length rs" by (simp add: rs'_def rs2_def rs1_def)
  have "linked rs' tail' xs nxt"
  proof (cases "xs = []")
    case False
    then show ?thesis
      using lk(2) unfolding tail'_def by (simp, intro linked_last [OF seg(1)]) (auto simp: len next')
  qed (simp add: tail'_def)
  moreover have "xs = [] \<or> last xs \<notin> set ys" using lk(2) last_in_set [of xs] by (auto simp: disjoint_iff)
  then have "linked rs' nxt ys None = linked rs nxt ys None"
    using lk(2) by (intro linked_cong) (auto simp: len next')
  ultimately have lk': "linked rs' tail' (xs @ ys) None" using seg(3) by (auto simp: linked_append)
  have "ys = [] \<or> hd ys \<notin> set xs" using lk(2) hd_in_set [of ys] by (auto simp: disjoint_iff)
  then have xs: "time_sum rs' xs = time_sum rs xs" "pending rs' t xs = pending rs t xs" for t
    by (auto intro!: time_sum_cong pending_cong simp: diff)
  have ys: "time_sum rs' ys + (if ys = [] then unat (rq_timeout_diff (rs ! i)) else 0) = unat (rq_timeout_diff (rs ! i)) + time_sum rs ys"
    "pending rs' t ys = pending rs (t + unat (rq_timeout_diff (rs ! i))) ys" for t
  proof (atomize (full), cases ys)
    case (Cons k zs)
    have z: "time_sum rs' zs = time_sum rs zs" "pending rs' u zs = pending rs u zs" for u
      using lk(2) Cons by (auto intro!: time_sum_cong pending_cong simp: diff)
    have "unat (rq_timeout_diff (rs ! k) + rq_timeout_diff (rs ! i)) = unat (rq_timeout_diff (rs ! k)) + unat (rq_timeout_diff (rs ! i))"
      using lk(3) Cons by (simp add: unat_word_ariths)
    then show "(time_sum rs' ys + (if ys = [] then unat (rq_timeout_diff (rs ! i)) else 0) =
        unat (rq_timeout_diff (rs ! i)) + time_sum rs ys) \<and>
        pending rs' t ys = pending rs (t + unat (rq_timeout_diff (rs ! i))) ys"
      using z Cons by (simp add: diff add_ac)
  qed simp
  have "queue_ok (tail', rs') (xs @ ys)"
    using lk lk' ys(1) xs(1) len by (simp add: queue_ok_def MQTT_REQ_TIMEOUT_def MQTT_REQ_MAX_IN_FLIGHT_def split: if_splits)
  moreover have "filter (\<lambda>(j, t). j \<noteq> i) (pending rs u zs) = pending rs u zs" if "i \<notin> set zs" for u zs
    using that by (induction zs arbitrary: u) auto
  then have "pending rs' 0 (xs @ ys) = filter (\<lambda>(j, t). j \<noteq> i) (pending rs 0 (xs @ i # ys))"
    using lk(2) by (simp add: pending_append xs ys(2))
  moreover have "request_of (rs' ! j) = request_of (rs ! j)" for j by (simp add: rs'_def rs2_def rs1_def)
  moreover have "rq_next (rs' ! j) = rq_next (rs ! j)" if "j \<notin> set (xs @ i # ys)" for j
    using that by (auto simp: next')
  ultimately show ?thesis using e by (intro that [of tail' rs']) (simp_all add: next')
qed

section \<open>Timeouts\<close>

lemma pending_shift: "pending rs (a + t) is = map (\<lambda>(i, d). (i, d + a)) (pending rs t is)"
  by (induction "is" arbitrary: t) (auto simp: add.assoc)

lemma pending_ge: "(i, d) \<in> set (pending rs t is) \<Longrightarrow> t \<le> d"
  by (induction "is" arbitrary: t) (fastforce dest: order_trans [rotated])+

text \<open>Requests that are given up: their callbacks run in order and their slots become free.\<close>

definition expire :: "nat list \<Rightarrow> req_list \<Rightarrow> req_list" where
  "expire is rs = fold (\<lambda>i rs. set_next i (Some i) rs) is rs"

lemma expire_simps [simp]:
  "length (expire is rs) = length rs" "rq_timeout_diff (expire is rs ! j) = rq_timeout_diff (rs ! j)"
  "request_of (expire is rs ! j) = request_of (rs ! j)" "j \<notin> set is \<Longrightarrow> expire is rs ! j = rs ! j"
  by (induction "is" arbitrary: rs) (simp_all add: expire_def)

lemma expire_next: "j \<in> set is \<Longrightarrow> j < length rs \<Longrightarrow> rq_next (expire is rs ! j) = Some j"
proof (induction "is" arbitrary: rs)
  case (Cons i "is")
  show ?case
  proof (cases "j \<in> set is")
    case False
    then have "j = i" "expire (i # is) rs = expire is (set_next i (Some i) rs)"
      using Cons(2) by (simp_all add: expire_def)
    then show ?thesis using False Cons(3) by simp
  qed (use Cons in \<open>simp add: expire_def\<close>)
qed simp

text \<open>
  After \<open>t\<close> seconds exactly a prefix of the queue has expired: every request with less than \<open>t\<close>
  seconds left is in it, no request with more than \<open>t\<close> seconds left is, and the others have \<open>t\<close>
  seconds less.
\<close>

lemma elapsed_loop_linked:
  "linked rs p is None \<Longrightarrow> distinct is \<Longrightarrow> time_sum rs is \<le> 30 \<Longrightarrow> length is < n \<Longrightarrow>
   \<exists>xs ys p' rs'. is = xs @ ys \<and>
     elapsed_loop n t (p, rs) = Some (concat (map (\<lambda>i. call_cb (rs ! i) ERR_TIMEOUT) xs), p', rs') \<and>
     linked rs' p' ys None \<and> length rs' = length rs \<and>
     pending rs' 0 ys = map (\<lambda>(i, d). (i, d - unat t)) (drop (length xs) (pending rs 0 is)) \<and>
     (\<forall>(i, d) \<in> set (take (length xs) (pending rs 0 is)). d \<le> unat t) \<and>
     (\<forall>(i, d) \<in> set (drop (length xs) (pending rs 0 is)). unat t \<le> d) \<and>
     (\<forall>i. request_of (rs' ! i) = request_of (rs ! i)) \<and>
     (\<forall>i. rq_next (rs' ! i) = (if i \<in> set xs then Some i else rq_next (rs ! i)))"
proof (induction "is" arbitrary: n p rs t)
  case Nil
  then show ?case by (cases n) (auto intro!: exI [of _ "[]"])
next
  case (Cons r rest)
  then obtain m where n: "n = Suc m" by (cases n) simp_all
  have r: "p = Some r" "r < length rs" "linked rs (rq_next (rs ! r)) rest None" "r \<notin> set rest" using Cons(2,3) by simp_all
  define d where "d = rq_timeout_diff (rs ! r)"
  have d30: "unat d \<le> 30" using Cons(4) by (simp add: d_def)
  have cmp: "uint t \<ge> uint d \<longleftrightarrow> unat d \<le> unat t" by (simp add: uint_nat del: of_nat_unat)
  consider "t = 0" | "t > 0" "unat d \<le> unat t" | "t > 0" "unat t < unat d" by (fastforce simp: word_gt_0)
  then show ?case
  proof cases
    case 1
    then show ?thesis using n r(1) Cons(2) by (intro exI [of _ "[]"] exI [of _ "r # rest"]) auto
  next
    case 2
    define rs1 where "rs1 = set_next r (Some r) rs"
    have "linked rs1 (rq_next (rs ! r)) rest None = linked rs (rq_next (rs ! r)) rest None"
      using r(4) by (intro linked_cong) (auto simp: rs1_def intro!: arg_cong [where f = rq_next] nth_set(5))
    moreover have s: "time_sum rs1 rest = time_sum rs rest" "pending rs1 v rest = pending rs v rest" for v
      by (auto intro!: time_sum_cong pending_cong simp: rs1_def)
    moreover have "unat (ucast d :: u8) = unat d" using d30 by (simp add: unat_ucast_small)
    then have t': "unat (t - ucast d) = unat t - unat d"
      using 2 by (subst unat_sub) (simp_all add: word_le_nat_alt)
    ultimately obtain xs ys p' rs' where I: "rest = xs @ ys"
      "elapsed_loop m (t - ucast d) (rq_next (rs ! r), rs1) = Some (concat (map (\<lambda>i. call_cb (rs1 ! i) ERR_TIMEOUT) xs), p', rs')"
      "linked rs' p' ys None" "length rs' = length rs1"
      "pending rs' 0 ys = map (\<lambda>(i, e). (i, e - (unat t - unat d))) (drop (length xs) (pending rs 0 rest))"
      "\<forall>(i, e) \<in> set (take (length xs) (pending rs 0 rest)). e \<le> unat t - unat d"
      "\<forall>(i, e) \<in> set (drop (length xs) (pending rs 0 rest)). unat t - unat d \<le> e"
      "\<forall>i. request_of (rs' ! i) = request_of (rs1 ! i)"
      "\<forall>i. rq_next (rs' ! i) = (if i \<in> set xs then Some i else rq_next (rs1 ! i))"
      using Cons(1) [of rs1 "rq_next (rs ! r)" m "t - ucast d"] Cons(3-5) n r(3) by auto
    have cb: "call_cb (rs1 ! i) e = call_cb (rs ! i) e" for i e by (simp add: call_cb_def rs1_def cong: option.case_cong)
    have "elapsed_loop n t (p, rs) = Some (concat (map (\<lambda>i. call_cb (rs ! i) ERR_TIMEOUT) (r # xs)), p', rs')"
      using 2 cmp I(2) by (simp add: n r(1) d_def [symmetric] mqtt_delete_request_def rs1_def [symmetric] cb)
    moreover have pd: "pending rs 0 (r # rest) = (r, unat d) # map (\<lambda>(i, e). (i, e + unat d)) (pending rs 0 rest)"
      using pending_shift [of rs "unat d" 0 rest] by (simp add: d_def)
    moreover have "pending rs' 0 ys = map (\<lambda>(i, e). (i, e - unat t)) (drop (length (r # xs)) (pending rs 0 (r # rest)))"
      using I(5) 2 unfolding pd by (auto simp: drop_map)
    moreover have "\<forall>(i, e) \<in> set (take (length (r # xs)) (pending rs 0 (r # rest))). e \<le> unat t"
      using I(6) 2 unfolding pd by (auto simp: take_map)
    moreover have "\<forall>(i, e) \<in> set (drop (length (r # xs)) (pending rs 0 (r # rest))). unat t \<le> e"
      using I(7) 2 unfolding pd by (auto simp: drop_map)
    moreover have "rq_next (rs' ! i) = (if i \<in> set (r # xs) then Some i else rq_next (rs ! i))" for i
      using I(9) r(2) by (cases "i = r") (simp_all add: rs1_def)
    ultimately show ?thesis using I(1,3,4,8)
      by (intro exI [of _ "r # xs"] exI [of _ ys] exI [of _ p'] exI [of _ rs']) (simp_all add: rs1_def)
  next
    case 3
    define rs' where "rs' = set_diff r (d - ucast t) rs"
    have "unat (ucast t :: u16) = unat t" by (simp add: unat_ucast_up)
    then have d': "unat (d - ucast t) = unat d - unat t" using 3 by (subst unat_sub) (simp_all add: word_le_nat_alt)
    have "linked rs' p (r # rest) None = linked rs p (r # rest) None" by (intro linked_cong) (auto simp: rs'_def)
    moreover have "pending rs' v rest = pending rs v rest" for v
      using r(4) by (intro pending_cong) (auto simp: rs'_def intro!: arg_cong [where f = rq_timeout_diff] nth_set(6))
    then have "pending rs' 0 (r # rest) = map (\<lambda>(i, e). (i, e - unat t)) (pending rs 0 (r # rest))"
      using 3 r(2) pending_shift [of rs "unat t" "unat d - unat t" rest]
      by (simp add: rs'_def d' d_def [symmetric]) (simp add: case_prod_beta comp_def)
    moreover have "\<forall>(i, e) \<in> set (pending rs 0 (r # rest)). unat t \<le> e"
      using 3 pending_ge [of _ _ rs "unat d" rest] by (fastforce simp: d_def)
    moreover have "elapsed_loop n t (p, rs) = Some ([], p, rs')"
      using 3 cmp by (simp add: n r(1) d_def [symmetric] rs'_def)
    moreover have "length rs' = length rs" "request_of (rs' ! i) = request_of (rs ! i)" "rq_next (rs' ! i) = rq_next (rs ! i)" for i
      by (simp_all add: rs'_def)
    ultimately show ?thesis using Cons(2)
      by - (rule exI [of _ "[]"], rule exI [of _ "r # rest"], rule exI [of _ p], rule exI [of _ rs'],
        simp del: pending.simps linked.simps)
  qed
qed

lemma time_sum_le:
  assumes "\<forall>(i, d) \<in> set (pending rs 0 is). d \<le> b"
  shows "time_sum rs is \<le> b"
proof (cases "is" rule: rev_cases)
  case (snoc xs x)
  then have "(x, time_sum rs is) \<in> set (pending rs 0 is)" by (simp add: pending_append)
  then show ?thesis using assms by blast
qed simp

lemma pending_le: "(i, d) \<in> set (pending rs t is) \<Longrightarrow> d \<le> t + time_sum rs is"
  by (induction "is" arbitrary: t) fastforce+

lemma request_time_elapsed:
  assumes "queue_ok (tail, rs) is"
  obtains xs ys tail' rs' where "is = xs @ ys"
    "mqtt_request_time_elapsed t (tail, rs) = Some (concat (map (\<lambda>i. call_cb (rs ! i) ERR_TIMEOUT) xs), tail', rs')"
    "queue_ok (tail', rs') ys"
    "pending rs' 0 ys = map (\<lambda>(i, d). (i, d - unat t)) (drop (length xs) (pending rs 0 is))"
    "\<forall>(i, d) \<in> set (take (length xs) (pending rs 0 is)). d \<le> unat t"
    "\<forall>(i, d) \<in> set (drop (length xs) (pending rs 0 is)). unat t \<le> d"
    "\<forall>i. request_of (rs' ! i) = request_of (rs ! i)"
    "\<forall>i. rq_next (rs' ! i) = (if i \<in> set xs then Some i else rq_next (rs ! i))"
proof -
  have q: "linked rs tail is None" "distinct is" "time_sum rs is \<le> 30" "length rs = 4" "length is < Suc (length rs)"
    using assms queue_ok_length [OF assms] by (simp_all add: queue_ok_def MQTT_REQ_TIMEOUT_def MQTT_REQ_MAX_IN_FLIGHT_def)
  from elapsed_loop_linked [OF q(1,2,3,5), of t] obtain xs ys p' rs' where I: "is = xs @ ys"
    "elapsed_loop (Suc (length rs)) t (tail, rs) = Some (concat (map (\<lambda>i. call_cb (rs ! i) ERR_TIMEOUT) xs), p', rs')"
    "linked rs' p' ys None" "length rs' = length rs"
    "pending rs' 0 ys = map (\<lambda>(i, d). (i, d - unat t)) (drop (length xs) (pending rs 0 is))"
    "\<forall>(i, d) \<in> set (take (length xs) (pending rs 0 is)). d \<le> unat t"
    "\<forall>(i, d) \<in> set (drop (length xs) (pending rs 0 is)). unat t \<le> d"
    "\<forall>i. request_of (rs' ! i) = request_of (rs ! i)"
    "\<forall>i. rq_next (rs' ! i) = (if i \<in> set xs then Some i else rq_next (rs ! i))" by blast
  have "time_sum rs' ys \<le> 30"
  proof (rule time_sum_le)
    show "\<forall>(i, d) \<in> set (pending rs' 0 ys). d \<le> 30"
      unfolding I(5) using pending_le [of _ _ rs 0 "is"] q(3) by (fastforce dest: in_set_dropD)
  qed
  then have "queue_ok (p', rs') ys"
    using I(1,3,4) q by (simp add: queue_ok_def MQTT_REQ_TIMEOUT_def MQTT_REQ_MAX_IN_FLIGHT_def)
  then show ?thesis using that I by (simp add: mqtt_request_time_elapsed_def)
qed

section \<open>Clearing and allocating\<close>

lemma clear_loop_linked:
  "linked rs p is None \<Longrightarrow> distinct is \<Longrightarrow> length is < n \<Longrightarrow> clear_loop n p rs = Some (expire is rs)"
proof (induction "is" arbitrary: n p rs)
  case Nil
  then show ?case by (cases n) (simp_all add: expire_def)
next
  case (Cons i "is")
  then obtain m where n: "n = Suc m" by (cases n) simp_all
  define rs1 where "rs1 = set_next i (Some i) rs"
  have "linked rs1 (rq_next (rs ! i)) is None = linked rs (rq_next (rs ! i)) is None"
    using Cons(3) by (intro linked_cong) (auto simp: rs1_def intro!: arg_cong [where f = rq_next] nth_set(5))
  then show ?case
    using Cons n by (simp add: mqtt_delete_request_def rs1_def [symmetric] expire_def)
qed

lemma clear_requests:
  assumes "queue_ok (tail, rs) is"
  shows "mqtt_clear_requests (tail, rs) = Some (None, expire is rs)" "queue_ok (None, expire is rs) []"
  using assms clear_loop_linked [of rs tail "is" "Suc (length rs)"] queue_ok_length [OF assms]
  by (simp_all add: mqtt_clear_requests_def queue_ok_def)

lemma linked_not_self:
  "linked rs p is None \<Longrightarrow> distinct is \<Longrightarrow> i \<in> set is \<Longrightarrow> rq_next (rs ! i) \<noteq> Some i"
proof (induction "is" arbitrary: p)
  case (Cons j "is")
  then show ?case by (cases "is") auto
qed simp

text \<open>A new request takes a slot that is not in the queue and leaves the queue as it is.\<close>

lemma create_request:
  assumes ok: "queue_ok (tail, rs) is" and c: "mqtt_create_request pkt_id cb arg rs = (Some n, rs')"
  shows "n \<notin> set is" "n < MQTT_REQ_MAX_IN_FLIGHT" "rq_next (rs' ! n) = None" "queue_ok (tail, rs') is"
    "request_of (rs' ! n) = (cb, arg, pkt_id)" "pending rs' t is = pending rs t is"
    "i \<noteq> n \<Longrightarrow> rs' ! i = rs ! i"
proof -
  have n: "n < 4" "rq_next (rs ! n) = Some n"
      "rs' = rs[n := (rs ! n)\<lparr>rq_next := None, rq_cb := cb, rq_arg := arg, rq_pkt_id := pkt_id\<rparr>]"
    using c by (auto simp: mqtt_create_request_def MQTT_REQ_MAX_IN_FLIGHT_def find_Some_iff simp flip: upt_conv_Cons
        split: option.splits)
  have len: "length rs = 4" using ok by (simp add: queue_ok_def MQTT_REQ_MAX_IN_FLIGHT_def)
  show nin: "n \<notin> set is" using linked_not_self [of rs tail "is" n] ok n(2) by (auto simp: queue_ok_def)
  show "n < MQTT_REQ_MAX_IN_FLIGHT" "rq_next (rs' ! n) = None" "request_of (rs' ! n) = (cb, arg, pkt_id)"
    using n len by (simp_all add: MQTT_REQ_MAX_IN_FLIGHT_def request_of_def)
  show other: "i \<noteq> n \<Longrightarrow> rs' ! i = rs ! i" for i using n(3) by simp
  have "linked rs' tail is None = linked rs tail is None"
    using nin other by (intro linked_cong, simp add: n(3)) metis
  moreover have "time_sum rs' is = time_sum rs is" using nin other by (intro time_sum_cong) metis
  ultimately show "queue_ok (tail, rs') is" using ok by (simp add: queue_ok_def n(3))
  show "pending rs' t is = pending rs t is" using nin other by (intro pending_cong) metis
qed

lemma init_requests:
  "length rs = MQTT_REQ_MAX_IN_FLIGHT \<Longrightarrow> queue_ok (None, mqtt_init_requests rs) []"
  by (simp add: mqtt_init_requests_def queue_ok_def MQTT_REQ_MAX_IN_FLIGHT_def upt_rec)

end
