(* ===== verification/Fault.thy ===== *)
theory Fault
  imports Main
begin

text \<open>
  Results of operations that can fail: a fault or a value, the sequencing of such operations, and the predicate
  that an operation does not halt on a failed assertion and that its result has a property.
  The build of the firmware enables the debug checks of ChibiOS and the assertions of lwIP; both end in
  \<open>chSysHalt\<close>, the fault \<open>Halt\<close> below.
\<close>

datatype fault =
    Halt        \<comment> \<open>a failed assertion or error check halts the system\<close>
  | Overrun     \<comment> \<open>access outside a buffer\<close>
  | NullCall    \<comment> \<open>call through a null function pointer\<close>
  | NullDeref   \<comment> \<open>access through a null pointer\<close>
  | DivZero     \<comment> \<open>remainder by zero\<close>
  | Garbage     \<comment> \<open>a union member is read that is not the one written last\<close>
  | Diverge     \<comment> \<open>the operation does not return\<close>
  | SignedOverflow \<comment> \<open>signed arithmetic leaves its range\<close>

type_synonym 'a result = "fault + 'a"

definition rbind :: "'a result \<Rightarrow> ('a \<Rightarrow> 'b result) \<Rightarrow> 'b result" where
  "rbind m f = (case m of Inl e \<Rightarrow> Inl e | Inr x \<Rightarrow> f x)"

lemma rbind_simps [simp]: "rbind (Inl e) f = Inl e" "rbind (Inr x) f = f x"
  by (simp_all add: rbind_def)

lemma rbind_Inr: "rbind m f = Inr y \<longleftrightarrow> (\<exists>x. m = Inr x \<and> f x = Inr y)"
  by (cases m) simp_all

definition or_halt :: "'a option \<Rightarrow> 'a result" where
  "or_halt x = (case x of None \<Rightarrow> Inl Halt | Some y \<Rightarrow> Inr y)"

lemma or_halt_simps [simp]: "or_halt None = Inl Halt" "or_halt (Some x) = Inr x"
  by (simp_all add: or_halt_def)

definition or_fault :: "fault \<Rightarrow> 'a option \<Rightarrow> 'a result" where
  "or_fault e x = (case x of None \<Rightarrow> Inl e | Some y \<Rightarrow> Inr y)"

lemma or_fault_simps [simp]: "or_fault e None = Inl e" "or_fault e (Some x) = Inr x"
  by (simp_all add: or_fault_def)

definition assert_or_halt :: "bool \<Rightarrow> unit result" where
  "assert_or_halt b = (if b then Inr () else Inl Halt)"

lemma assert_or_halt_simps [simp]: "assert_or_halt True = Inr ()" "assert_or_halt False = Inl Halt"
  by (simp_all add: assert_or_halt_def)

section \<open>Safe operations\<close>

text \<open>An operation is safe if it does not halt and its value, if there is one, has the property.\<close>

definition safe :: "('a \<Rightarrow> bool) \<Rightarrow> 'a result \<Rightarrow> bool" where
  "safe P m \<longleftrightarrow> (case m of Inl e \<Rightarrow> e \<noteq> Halt | Inr x \<Rightarrow> P x)"

lemma safe_simps [simp]: "safe P (Inr x) = P x" "safe P (Inl e) = (e \<noteq> Halt)"
  by (simp_all add: safe_def)

lemma safe_rbind: "safe Q m \<Longrightarrow> (\<And>x. Q x \<Longrightarrow> safe P (f x)) \<Longrightarrow> safe P (rbind m f)"
  by (cases m) simp_all

lemma safe_mono: "safe Q m \<Longrightarrow> (\<And>x. Q x \<Longrightarrow> P x) \<Longrightarrow> safe P m"
  by (cases m) simp_all

lemma if_both: "safe P x \<Longrightarrow> safe P y \<Longrightarrow> safe P (if b then x else y)"
  by simp

end
