(* ===== verification/MqttClient.thy ===== *)
theory MqttClient
  imports MqttReq Fault
begin

text \<open>
  The MQTT client proper (\<^verbatim>\<open>ext/lwip/src/apps/mqtt/mqtt.c\<close> and \<^verbatim>\<open>mqtt.h\<close>): connection state, the parser of
  incoming data, the handler of received messages, the TCP callbacks, the cyclic timer and the public
  operations. The client record has the fields of \<open>mqtt_client_t\<close> and two for its environment: the
  number of pending cyclic timeouts, and the calls made to the functions of the application in
  order. An application callback is given by its identity; it does not call back into the client.
  The result of an operation is a fault or a value (theory \<open>Fault\<close>).
\<close>

section \<open>State\<close>

datatype conn_state = TCP_DISCONNECTED | TCP_CONNECTING | MQTT_CONNECTING | MQTT_CONNECTED

definition MQTT_MSG_TYPE_CONNECT :: u8 where "MQTT_MSG_TYPE_CONNECT = 1"
definition MQTT_MSG_TYPE_CONNACK :: u8 where "MQTT_MSG_TYPE_CONNACK = 2"
definition MQTT_MSG_TYPE_PUBLISH :: u8 where "MQTT_MSG_TYPE_PUBLISH = 3"
definition MQTT_MSG_TYPE_PUBACK :: u8 where "MQTT_MSG_TYPE_PUBACK = 4"
definition MQTT_MSG_TYPE_PUBREC :: u8 where "MQTT_MSG_TYPE_PUBREC = 5"
definition MQTT_MSG_TYPE_PUBREL :: u8 where "MQTT_MSG_TYPE_PUBREL = 6"
definition MQTT_MSG_TYPE_PUBCOMP :: u8 where "MQTT_MSG_TYPE_PUBCOMP = 7"
definition MQTT_MSG_TYPE_SUBSCRIBE :: u8 where "MQTT_MSG_TYPE_SUBSCRIBE = 8"
definition MQTT_MSG_TYPE_SUBACK :: u8 where "MQTT_MSG_TYPE_SUBACK = 9"
definition MQTT_MSG_TYPE_UNSUBSCRIBE :: u8 where "MQTT_MSG_TYPE_UNSUBSCRIBE = 10"
definition MQTT_MSG_TYPE_UNSUBACK :: u8 where "MQTT_MSG_TYPE_UNSUBACK = 11"
definition MQTT_MSG_TYPE_PINGREQ :: u8 where "MQTT_MSG_TYPE_PINGREQ = 12"
definition MQTT_MSG_TYPE_PINGRESP :: u8 where "MQTT_MSG_TYPE_PINGRESP = 13"

lemmas msg_types = MQTT_MSG_TYPE_CONNECT_def MQTT_MSG_TYPE_CONNACK_def MQTT_MSG_TYPE_PUBLISH_def
  MQTT_MSG_TYPE_PUBACK_def MQTT_MSG_TYPE_PUBREC_def MQTT_MSG_TYPE_PUBREL_def MQTT_MSG_TYPE_PUBCOMP_def
  MQTT_MSG_TYPE_SUBSCRIBE_def MQTT_MSG_TYPE_SUBACK_def MQTT_MSG_TYPE_UNSUBSCRIBE_def
  MQTT_MSG_TYPE_UNSUBACK_def MQTT_MSG_TYPE_PINGREQ_def MQTT_MSG_TYPE_PINGRESP_def

text \<open>A connection status is a number, since any byte of a CONNACK is cast to it.\<close>

type_synonym mqtt_connection_status = nat

definition MQTT_CONNECT_ACCEPTED :: mqtt_connection_status where "MQTT_CONNECT_ACCEPTED = 0"
definition MQTT_CONNECT_DISCONNECTED :: mqtt_connection_status where "MQTT_CONNECT_DISCONNECTED = 256"
definition MQTT_CONNECT_TIMEOUT :: mqtt_connection_status where "MQTT_CONNECT_TIMEOUT = 257"

lemmas conn_statuses = MQTT_CONNECT_ACCEPTED_def MQTT_CONNECT_DISCONNECTED_def MQTT_CONNECT_TIMEOUT_def

definition MQTT_CTL_PACKET_TYPE :: "u8 \<Rightarrow> u8" where
  "MQTT_CTL_PACKET_TYPE b = drop_bit 4 (b AND 0xf0)"

definition MQTT_CTL_PACKET_QOS :: "u8 \<Rightarrow> u8" where
  "MQTT_CTL_PACKET_QOS b = drop_bit 1 (b AND 0x6)"

definition MQTT_VAR_HEADER_BUFFER_LEN :: nat where "MQTT_VAR_HEADER_BUFFER_LEN = 128"
definition MQTT_CYCLIC_TIMER_INTERVAL :: nat where "MQTT_CYCLIC_TIMER_INTERVAL = 5"
definition MQTT_CONNECT_TIMOUT :: nat where "MQTT_CONNECT_TIMOUT = 100"

text \<open>
  Calls into the application and the end of a connection. A topic is passed as a C string, that is
  up to its first null byte.
\<close>

datatype app_call =
    ConnectCb nat addr mqtt_connection_status
  | PubCb nat addr "u8 list" u32
  | DataCb nat addr "u8 list" bool
  | ReqCb nat addr err_t
  | TcpClose err_t

record 'p mqtt_client =
  cyclic_tick :: u16
  keep_alive :: u16
  server_watchdog :: u16
  pkt_id_seq :: u16
  inpub_pkt_id :: u16
  conn_state :: conn_state
  conn :: "'p option"
  connect_arg :: addr
  connect_cb :: "nat option"
  pend_req_queue :: "nat option"
  req_slots :: req_list
  inpub_arg :: addr
  data_cb :: "nat option"
  pub_cb :: "nat option"
  msg_idx :: u32
  rx_buffer :: "u8 list"
  out_rb :: mqtt_ringbuf
  timers :: nat
  calls :: "app_call list"

definition log_call :: "app_call list \<Rightarrow> 'p mqtt_client \<Rightarrow> 'p mqtt_client" where
  "log_call cs c = c\<lparr>calls := calls c @ cs\<rparr>"

definition req_calls :: "req_call list \<Rightarrow> app_call list" where
  "req_calls cs = map (\<lambda>(f, a, e). ReqCb f a e) cs"

definition queue_of :: "'p mqtt_client \<Rightarrow> nat option \<times> req_list" where
  "queue_of c = (pend_req_queue c, req_slots c)"

definition set_queue :: "nat option \<times> req_list \<Rightarrow> 'p mqtt_client \<Rightarrow> 'p mqtt_client" where
  "set_queue q c = c\<lparr>pend_req_queue := fst q, req_slots := snd q\<rparr>"

definition msg_generate_packet_id :: "'p mqtt_client \<Rightarrow> u16 \<times> 'p mqtt_client" where
  "msg_generate_packet_id c =
     (let c = c\<lparr>pkt_id_seq := pkt_id_seq c + 1\<rparr>;
          c = (if pkt_id_seq c = 0 then c\<lparr>pkt_id_seq := pkt_id_seq c + 1\<rparr> else c)
      in (pkt_id_seq c, c))"

section \<open>Closing, keep-alive\<close>

text \<open>\<open>mqtt_output_send\<close> on the connection of the client; it asserts that there is one.\<close>

definition client_send :: "'p tcp_ops \<Rightarrow> 'p mqtt_client \<Rightarrow> 'p mqtt_client result" where
  "client_send T c =
     (case conn c of
        None \<Rightarrow> Inl Halt
      | Some p \<Rightarrow> let (rb, p') = mqtt_output_send T (out_rb c) p in Inr (c\<lparr>out_rb := rb, conn := Some p'\<rparr>))"

definition close_conn :: "'p tcp_ops \<Rightarrow> 'p mqtt_client \<Rightarrow> 'p mqtt_client" where
  "close_conn T c =
     (case conn c of
        None \<Rightarrow> c
      | Some p \<Rightarrow> log_call [TcpClose (tcp_close T (tcp_sent T (tcp_err T (tcp_recv T p False) False) False))] (c\<lparr>conn := None\<rparr>))"

definition mqtt_close :: "'p tcp_ops \<Rightarrow> mqtt_connection_status \<Rightarrow> 'p mqtt_client \<Rightarrow> 'p mqtt_client result" where
  "mqtt_close T reason c =
     (let c = close_conn T c in
      rbind (or_halt (mqtt_clear_requests (queue_of c))) (\<lambda>q.
        let c = (set_queue q c)\<lparr>timers := timers c - 1\<rparr> in
        Inr (if conn_state c \<noteq> TCP_DISCONNECTED then
               let c = c\<lparr>conn_state := TCP_DISCONNECTED\<rparr> in
               (case connect_cb c of None \<Rightarrow> c | Some f \<Rightarrow> log_call [ConnectCb f (connect_arg c) reason] c)
             else c)))"

text \<open>The part of the timer for a connected client with keep-alive.\<close>

definition keep_alive_tick :: "'p tcp_ops \<Rightarrow> 'p mqtt_client \<Rightarrow> (bool \<times> 'p mqtt_client) result" where
  "keep_alive_tick T c =
     (let c = c\<lparr>server_watchdog := server_watchdog c + 1\<rparr> in
      rbind (if unat (server_watchdog c) * MQTT_CYCLIC_TIMER_INTERVAL > unat (keep_alive c) + unat (keep_alive c) div 2
             then rbind (mqtt_close T MQTT_CONNECT_TIMEOUT c) (\<lambda>c. Inr (False, c))
             else Inr (True, c)) (\<lambda>(restart, c).
        Inr (restart,
          if unat (cyclic_tick c) * MQTT_CYCLIC_TIMER_INTERVAL \<ge> unat (keep_alive c) then
            if mqtt_output_check_space 0 (out_rb c) then
              c\<lparr>out_rb := mqtt_output_append_fixed_header MQTT_MSG_TYPE_PINGREQ 0 0 0 0 (out_rb c), cyclic_tick := 0\<rparr>
            else c
          else c\<lparr>cyclic_tick := cyclic_tick c + 1\<rparr>)))"

definition mqtt_cyclic_timer :: "'p tcp_ops \<Rightarrow> 'p mqtt_client \<Rightarrow> 'p mqtt_client result" where
  "mqtt_cyclic_timer T c =
     rbind (case conn_state c of
         MQTT_CONNECTING \<Rightarrow>
           (let c = c\<lparr>cyclic_tick := cyclic_tick c + 1\<rparr> in
            if unat (cyclic_tick c) * MQTT_CYCLIC_TIMER_INTERVAL \<ge> MQTT_CONNECT_TIMOUT
            then rbind (mqtt_close T MQTT_CONNECT_TIMEOUT c) (\<lambda>c. Inr (False, c))
            else Inr (True, c))
       | MQTT_CONNECTED \<Rightarrow>
           rbind (or_halt (mqtt_request_time_elapsed (of_nat MQTT_CYCLIC_TIMER_INTERVAL) (queue_of c))) (\<lambda>(cs, q).
             let c = log_call (req_calls cs) (set_queue q c) in
             if keep_alive c > 0 then keep_alive_tick T c else Inr (True, c))
       | _ \<Rightarrow> Inr (False, c)) (\<lambda>(restart, c).
     Inr (if restart then c\<lparr>timers := timers c + 1\<rparr> else c))"

section \<open>Received messages\<close>

definition pub_ack_rec_rel_response :: "'p tcp_ops \<Rightarrow> u8 \<Rightarrow> u16 \<Rightarrow> u8 \<Rightarrow> 'p mqtt_client \<Rightarrow> (err_t \<times> 'p mqtt_client) result" where
  "pub_ack_rec_rel_response T msg pkt_id qos c =
     (if mqtt_output_check_space 2 (out_rb c) then
        rbind (client_send T (c\<lparr>out_rb := mqtt_output_append_u16 pkt_id
                 (mqtt_output_append_fixed_header msg 0 qos 0 2 (out_rb c))\<rparr>)) (\<lambda>c. Inr (ERR_OK, c))
      else Inr (ERR_MEM, c))"

definition mqtt_incomming_suback :: "mqtt_request \<Rightarrow> u8 \<Rightarrow> req_call list" where
  "mqtt_incomming_suback r res = call_cb r (if res < 3 then ERR_OK else ERR_ABRT)"

text \<open>Reading the receive buffer at an index counted from the end of the fixed header.\<close>

definition rx_at :: "'p mqtt_client \<Rightarrow> nat \<Rightarrow> u8 result" where
  "rx_at c i = (if i < MQTT_VAR_HEADER_BUFFER_LEN then Inr (rx_buffer c ! i) else Inl Overrun)"

definition cstring :: "u8 list \<Rightarrow> u8 list" where
  "cstring bs = takeWhile (\<lambda>b. b \<noteq> 0) bs"

definition word16 :: "u8 \<Rightarrow> u8 \<Rightarrow> u16" where
  "word16 h l = push_bit 8 (ucast h) + ucast l"

definition rx_bytes :: "'p mqtt_client \<Rightarrow> nat \<Rightarrow> nat \<Rightarrow> u8 list" where
  "rx_bytes c i n = take n (drop i (rx_buffer c))"

text \<open>
  The topic of an incoming publish: \<open>None\<close> if the packet has to be rejected, otherwise the offset
  of the payload. The byte behind the topic is replaced by a null byte during the call of \<open>pub_cb\<close> and
  restored, which is an access outside the buffer if it lies behind it.
\<close>

definition publish_topic :: "nat \<Rightarrow> u8 \<Rightarrow> u16 \<Rightarrow> u32 \<Rightarrow> 'p mqtt_client \<Rightarrow> (u16 \<times> 'p mqtt_client) option result" where
  "publish_topic hdr qos len remaining_length c =
     rbind (rx_at c hdr) (\<lambda>h. rbind (rx_at c (hdr + 1)) (\<lambda>l.
       let topic_len = word16 h l; after_topic = 2 + topic_len in
       if unat after_topic + (if qos \<noteq> 0 then 2 else 1) > unat len then Inr None
       else
         rbind (if qos > 0 then
                  rbind (rx_at c (hdr + unat after_topic)) (\<lambda>ih. rbind (rx_at c (hdr + unat after_topic + 1)) (\<lambda>il.
                    Inr (after_topic + 2, c\<lparr>inpub_pkt_id := word16 ih il\<rparr>)))
                else Inr (after_topic, c\<lparr>inpub_pkt_id := 0\<rparr>)) (\<lambda>(after_topic, c).
         rbind (rx_at c (hdr + 2 + unat topic_len)) (\<lambda>bkp.
           Inr (Some (after_topic,
             case pub_cb c of
               None \<Rightarrow> c
             | Some f \<Rightarrow> log_call [PubCb f (inpub_arg c) (cstring (rx_bytes c (hdr + 2) (unat topic_len)))
                 (remaining_length + ucast (len - after_topic))] c))))))"

definition publish_data :: "'p tcp_ops \<Rightarrow> nat \<Rightarrow> u8 \<Rightarrow> u16 \<Rightarrow> u16 \<Rightarrow> u32 \<Rightarrow> 'p mqtt_client \<Rightarrow> 'p mqtt_client result" where
  "publish_data T hdr qos payload_offset payload_length remaining_length c =
     (if payload_length > 0 \<or> remaining_length = 0 then
        (case data_cb c of
           None \<Rightarrow> Inl NullCall
         | Some f \<Rightarrow>
             (let c = log_call [DataCb f (inpub_arg c) (rx_bytes c (hdr + unat payload_offset) (unat payload_length))
                        (remaining_length = 0)] c in
              if remaining_length = 0 \<and> qos > 0 then
                rbind (pub_ack_rec_rel_response T (if qos = 1 then MQTT_MSG_TYPE_PUBACK else MQTT_MSG_TYPE_PUBREC)
                         (inpub_pkt_id c) 0 c) (\<lambda>(_, c). Inr c)
              else Inr c))
      else Inr c)"

definition receive_publish :: "'p tcp_ops \<Rightarrow> nat \<Rightarrow> u16 \<Rightarrow> u32 \<Rightarrow> 'p mqtt_client \<Rightarrow> (mqtt_connection_status \<times> 'p mqtt_client) result" where
  "receive_publish T hdr len remaining_length c =
     rbind (rx_at c 0) (\<lambda>b0.
       let qos = MQTT_CTL_PACKET_QOS b0 in
       rbind (if unat (msg_idx c) \<le> MQTT_VAR_HEADER_BUFFER_LEN then publish_topic hdr qos len remaining_length c
              else Inr (Some (0, c))) (\<lambda>r.
         case r of
           None \<Rightarrow> Inr (MQTT_CONNECT_DISCONNECTED, c)
         | Some (payload_offset, c) \<Rightarrow>
             rbind (publish_data T hdr qos payload_offset (len - payload_offset) remaining_length c)
               (\<lambda>c. Inr (MQTT_CONNECT_ACCEPTED, c))))"

text \<open>A response that carries a packet identifier.\<close>

definition receive_response :: "'p tcp_ops \<Rightarrow> u8 \<Rightarrow> nat \<Rightarrow> u16 \<Rightarrow> 'p mqtt_client \<Rightarrow> (mqtt_connection_status \<times> 'p mqtt_client) result" where
  "receive_response T pkt_type hdr len c =
     rbind (rx_at c hdr) (\<lambda>h. rbind (rx_at c (hdr + 1)) (\<lambda>l.
       let pkt_id = push_bit 8 (ucast h) OR ucast l in
       if pkt_id = 0 then Inr (MQTT_CONNECT_DISCONNECTED, c)
       else if pkt_type = MQTT_MSG_TYPE_PUBREC then
         rbind (pub_ack_rec_rel_response T MQTT_MSG_TYPE_PUBREL pkt_id 1 c) (\<lambda>(_, c). Inr (MQTT_CONNECT_ACCEPTED, c))
       else if pkt_type = MQTT_MSG_TYPE_PUBREL then
         rbind (pub_ack_rec_rel_response T MQTT_MSG_TYPE_PUBCOMP pkt_id 0 c) (\<lambda>(_, c). Inr (MQTT_CONNECT_ACCEPTED, c))
       else if pkt_type = MQTT_MSG_TYPE_SUBACK \<or> pkt_type = MQTT_MSG_TYPE_UNSUBACK \<or>
               pkt_type = MQTT_MSG_TYPE_PUBCOMP \<or> pkt_type = MQTT_MSG_TYPE_PUBACK then
         rbind (or_halt (mqtt_take_request pkt_id (queue_of c))) (\<lambda>(r, q).
           let c = set_queue q c in
           case r of
             None \<Rightarrow> Inr (MQTT_CONNECT_ACCEPTED, c)
           | Some i \<Rightarrow>
               if pkt_type = MQTT_MSG_TYPE_SUBACK \<and> len < 3 then Inr (MQTT_CONNECT_DISCONNECTED, c)
               else
                 rbind (if pkt_type = MQTT_MSG_TYPE_SUBACK
                        then rbind (rx_at c (hdr + 2)) (\<lambda>res. Inr (mqtt_incomming_suback (req_slots c ! i) res))
                        else Inr (call_cb (req_slots c ! i) ERR_OK)) (\<lambda>cs.
                   let c = log_call (req_calls cs) c in
                   Inr (MQTT_CONNECT_ACCEPTED, c\<lparr>req_slots := mqtt_delete_request (Some i) (req_slots c)\<rparr>)))
       else Inr (MQTT_CONNECT_DISCONNECTED, c)))"

definition receive_connack :: "nat \<Rightarrow> 'p mqtt_client \<Rightarrow> (mqtt_connection_status \<times> 'p mqtt_client) result" where
  "receive_connack hdr c =
     (if conn_state c = MQTT_CONNECTING then
        rbind (rx_at c (hdr + 1)) (\<lambda>b.
          let res = unat b in
          Inr (res,
            if res = MQTT_CONNECT_ACCEPTED then
              (let c = c\<lparr>cyclic_tick := 0, conn_state := MQTT_CONNECTED\<rparr> in
               case connect_cb c of None \<Rightarrow> c | Some f \<Rightarrow> log_call [ConnectCb f (connect_arg c) res] c)
            else c))
      else Inr (MQTT_CONNECT_ACCEPTED, c))"

definition mqtt_message_received ::
    "'p tcp_ops \<Rightarrow> nat \<Rightarrow> u16 \<Rightarrow> u32 \<Rightarrow> 'p mqtt_client \<Rightarrow> (mqtt_connection_status \<times> 'p mqtt_client) result" where
  "mqtt_message_received T fixed_hdr_idx len remaining_length c =
     rbind (rx_at c 0) (\<lambda>b0.
       let pkt_type = MQTT_CTL_PACKET_TYPE b0 in
       if pkt_type = MQTT_MSG_TYPE_CONNACK then receive_connack fixed_hdr_idx c
       else if pkt_type = MQTT_MSG_TYPE_PINGRESP then Inr (MQTT_CONNECT_ACCEPTED, c)
       else if pkt_type = MQTT_MSG_TYPE_PUBLISH then receive_publish T fixed_hdr_idx len remaining_length c
       else receive_response T pkt_type fixed_hdr_idx len c)"

section \<open>Parser\<close>

text \<open>
  The local variables of \<open>mqtt_parse_incoming\<close> with the client; \<open>ps_inp\<close> are the bytes of the packet
  buffer from \<open>in_offset\<close> on. A shift by more than 31 is undefined in C; the shift instruction of the
  target takes its distance from the lowest byte of the register and yields 0 from 32 on.
\<close>

record 'p parse_state =
  ps_inp :: "u8 list"
  ps_rem :: u32
  ps_hdr :: u8
  ps_b :: u8
  ps_client :: "'p mqtt_client"

datatype 'p parse_next = Done "(mqtt_connection_status \<times> 'p mqtt_client) result" | Next "'p parse_state"

definition lsl :: "u32 \<Rightarrow> nat \<Rightarrow> u32" where
  "lsl w n = (if n mod 256 < 32 then push_bit (n mod 256) w else 0)"

definition in_header :: "u8 \<Rightarrow> u8 \<Rightarrow> bool" where
  "in_header hdr b \<longleftrightarrow> hdr < 2 \<or> b AND 0x80 \<noteq> 0"

text \<open>The next byte of the fixed header, from the receive buffer or from the input.\<close>

definition header_byte :: "u8 list \<Rightarrow> u8 \<Rightarrow> 'p mqtt_client \<Rightarrow> (u8 \<times> u8 list \<times> 'p mqtt_client) result" where
  "header_byte inp hdr c =
     (if unat hdr < unat (msg_idx c) then rbind (rx_at c (unat hdr)) (\<lambda>b. Inr (b, inp, c))
      else if unat (msg_idx c) < MQTT_VAR_HEADER_BUFFER_LEN then
        Inr (hd inp, tl inp,
          c\<lparr>rx_buffer := (rx_buffer c)[unat (msg_idx c) := hd inp], msg_idx := msg_idx c + 1\<rparr>)
      else Inl Overrun)"

definition add_length :: "u8 \<Rightarrow> u8 \<Rightarrow> u32 \<Rightarrow> u32" where
  "add_length hdr b rem_len =
     (if hdr \<ge> 2 then rem_len OR lsl (ucast (b AND 0x7f)) ((unat hdr - 2) * 7) else rem_len)"

definition header_step :: "'p tcp_ops \<Rightarrow> 'p parse_state \<Rightarrow> 'p parse_next" where
  "header_step T s =
     (case header_byte (ps_inp s) (ps_hdr s) (ps_client s) of
        Inl e \<Rightarrow> Done (Inl e)
      | Inr (b, inp, c) \<Rightarrow>
          (let hdr = ps_hdr s + 1; rem_len = add_length hdr b (ps_rem s) in
           if hdr \<ge> 2 \<and> b AND 0x80 = 0 then
             if rem_len = 0 then
               (case mqtt_message_received T (unat hdr) 0 0 c of
                  Inl e \<Rightarrow> Done (Inl e)
                | Inr (_, c) \<Rightarrow> Next \<lparr>ps_inp = inp, ps_rem = 0, ps_hdr = 0, ps_b = b, ps_client = c\<lparr>msg_idx := 0\<rparr>\<rparr>)
             else Next \<lparr>ps_inp = inp, ps_rem = (rem_len + ucast hdr) - msg_idx c, ps_hdr = hdr, ps_b = b, ps_client = c\<rparr>
           else Next \<lparr>ps_inp = inp, ps_rem = rem_len, ps_hdr = hdr, ps_b = b, ps_client = c\<rparr>))"

definition body_start :: "'p parse_state \<Rightarrow> nat" where
  "body_start s =
     unat (msg_idx (ps_client s) - ucast (ps_hdr s)) mod (MQTT_VAR_HEADER_BUFFER_LEN - unat (ps_hdr s)) + unat (ps_hdr s)"

definition body_len :: "'p parse_state \<Rightarrow> nat" where
  "body_len s = min (min (length (ps_inp s)) (unat (ps_rem s))) (MQTT_VAR_HEADER_BUFFER_LEN - body_start s)"

definition copy_at :: "nat \<Rightarrow> u8 list \<Rightarrow> u8 list \<Rightarrow> u8 list" where
  "copy_at i xs buf = take i buf @ xs @ drop (i + length xs) buf"

definition body_copy :: "'p parse_state \<Rightarrow> 'p mqtt_client" where
  "body_copy s =
     (let c = ps_client s in
      c\<lparr>rx_buffer := copy_at (body_start s) (take (body_len s) (ps_inp s)) (rx_buffer c),
        msg_idx := msg_idx c + of_nat (body_len s)\<rparr>)"

text \<open>The loop body after the copy: \<open>full\<close> says that the receive buffer is full up to its end.\<close>

definition after_copy ::
    "'p tcp_ops \<Rightarrow> u8 \<Rightarrow> u8 \<Rightarrow> bool \<Rightarrow> nat \<Rightarrow> u32 \<Rightarrow> u8 list \<Rightarrow> 'p mqtt_client \<Rightarrow> 'p parse_next" where
  "after_copy T hdr b full len rem_len inp c =
     (if rem_len = 0 \<or> full then
        (case mqtt_message_received T (unat hdr) (of_nat len) rem_len c of
           Inl e \<Rightarrow> Done (Inl e)
         | Inr (res, c) \<Rightarrow>
             if res \<noteq> MQTT_CONNECT_ACCEPTED then Done (Inr (res, c))
             else if rem_len = 0 then
               Next \<lparr>ps_inp = inp, ps_rem = 0, ps_hdr = 0, ps_b = b, ps_client = c\<lparr>msg_idx := 0\<rparr>\<rparr>
             else Next \<lparr>ps_inp = inp, ps_rem = rem_len, ps_hdr = hdr, ps_b = b, ps_client = c\<rparr>)
      else Next \<lparr>ps_inp = inp, ps_rem = rem_len, ps_hdr = hdr, ps_b = b, ps_client = c\<rparr>)"

definition body_step :: "'p tcp_ops \<Rightarrow> 'p parse_state \<Rightarrow> 'p parse_next" where
  "body_step T s =
     (if unat (ps_hdr s) \<ge> MQTT_VAR_HEADER_BUFFER_LEN then Done (Inl DivZero)
      else after_copy T (ps_hdr s) (ps_b s) (body_len s = MQTT_VAR_HEADER_BUFFER_LEN - body_start s)
        (body_start s + body_len s - unat (ps_hdr s)) (ps_rem s - of_nat (body_len s))
        (drop (body_len s) (ps_inp s)) (body_copy s))"

definition parse_step :: "'p tcp_ops \<Rightarrow> 'p parse_state \<Rightarrow> 'p parse_next" where
  "parse_step T s =
     (if ps_inp s = [] then Done (Inr (MQTT_CONNECT_ACCEPTED, ps_client s))
      else if in_header (ps_hdr s) (ps_b s) then header_step T s
      else body_step T s)"

partial_function (option) parse_loop ::
    "'p tcp_ops \<Rightarrow> 'p parse_state \<Rightarrow> (mqtt_connection_status \<times> 'p mqtt_client) result option" where
  "parse_loop T s = (case parse_step T s of Done r \<Rightarrow> Some r | Next s' \<Rightarrow> parse_loop T s')"

definition parse_start :: "u8 list \<Rightarrow> 'p mqtt_client \<Rightarrow> 'p parse_state" where
  "parse_start p c = \<lparr>ps_inp = p, ps_rem = 0, ps_hdr = 0, ps_b = 0, ps_client = c\<rparr>"

text \<open>\<open>None\<close> means that the loop does not end.\<close>

definition mqtt_parse_incoming ::
    "'p tcp_ops \<Rightarrow> u8 list \<Rightarrow> 'p mqtt_client \<Rightarrow> (mqtt_connection_status \<times> 'p mqtt_client) result option" where
  "mqtt_parse_incoming T p c = parse_loop T (parse_start p c)"

section \<open>TCP callbacks\<close>

text \<open>The packet buffer is \<open>None\<close> if the remote side has closed the connection.\<close>

definition mqtt_tcp_recv_cb ::
    "'p tcp_ops \<Rightarrow> u8 list option \<Rightarrow> err_t \<Rightarrow> 'p mqtt_client \<Rightarrow> (err_t \<times> 'p mqtt_client) result option" where
  "mqtt_tcp_recv_cb T p err c =
     (case p of
        None \<Rightarrow> Some (rbind (mqtt_close T MQTT_CONNECT_DISCONNECTED c) (\<lambda>c. Inr (ERR_OK, c)))
      | Some p \<Rightarrow>
          if err \<noteq> ERR_OK then Some (Inr (err, c))
          else
            map_option (\<lambda>r. rbind r (\<lambda>(res, c).
              rbind (if res \<noteq> MQTT_CONNECT_ACCEPTED then mqtt_close T res c else Inr c) (\<lambda>c.
                Inr (ERR_OK, if keep_alive c \<noteq> 0 then c\<lparr>server_watchdog := 0\<rparr> else c))))
              (mqtt_parse_incoming T p (c\<lparr>conn := map_option (\<lambda>pcb. tcp_recved T pcb (length p)) (conn c)\<rparr>)))"

text \<open>
  Completing the publish requests of quality of service 0, which have packet identifier 0. The loop
  takes a request out of the queue in every round, so that fuel for one more round than there
  are slots is enough.
\<close>

fun complete_qos0 :: "nat \<Rightarrow> 'p mqtt_client \<Rightarrow> 'p mqtt_client option" where
  "complete_qos0 0 c = None"
| "complete_qos0 (Suc n) c =
     (case mqtt_take_request 0 (queue_of c) of
        None \<Rightarrow> None
      | Some (None, q) \<Rightarrow> Some (set_queue q c)
      | Some (Some i, q) \<Rightarrow>
          (let c = set_queue q c;
               c = log_call (req_calls (call_cb (req_slots c ! i) ERR_OK)) c
           in complete_qos0 n (c\<lparr>req_slots := mqtt_delete_request (Some i) (req_slots c)\<rparr>)))"

definition mqtt_tcp_sent_cb :: "'p tcp_ops \<Rightarrow> 'p mqtt_client \<Rightarrow> (err_t \<times> 'p mqtt_client) result" where
  "mqtt_tcp_sent_cb T c =
     (if conn_state c = MQTT_CONNECTED then
        rbind (or_halt (complete_qos0 (Suc MQTT_REQ_MAX_IN_FLIGHT) (c\<lparr>cyclic_tick := 0, server_watchdog := 0\<rparr>))) (\<lambda>c.
          rbind (client_send T c) (\<lambda>c. Inr (ERR_OK, c)))
      else Inr (ERR_OK, c))"

definition mqtt_tcp_err_cb :: "'p tcp_ops \<Rightarrow> 'p mqtt_client \<Rightarrow> 'p mqtt_client result" where
  "mqtt_tcp_err_cb T c = mqtt_close T MQTT_CONNECT_DISCONNECTED (c\<lparr>conn := None\<rparr>)"

definition mqtt_tcp_poll_cb :: "'p tcp_ops \<Rightarrow> 'p mqtt_client \<Rightarrow> (err_t \<times> 'p mqtt_client) result" where
  "mqtt_tcp_poll_cb T c =
     (if conn_state c = MQTT_CONNECTED then rbind (client_send T c) (\<lambda>c. Inr (ERR_OK, c)) else Inr (ERR_OK, c))"

definition mqtt_tcp_connect_cb :: "'p tcp_ops \<Rightarrow> err_t \<Rightarrow> 'p mqtt_client \<Rightarrow> (err_t \<times> 'p mqtt_client) result" where
  "mqtt_tcp_connect_cb T err c =
     (if err \<noteq> ERR_OK then Inr (err, c)
      else
        rbind (client_send T
          (c\<lparr>msg_idx := 0,
             conn := map_option (\<lambda>p. tcp_poll T (tcp_sent T (tcp_recv T p True) True) True) (conn c),
             conn_state := MQTT_CONNECTING, timers := timers c + 1, cyclic_tick := 0\<rparr>)) (\<lambda>c. Inr (ERR_OK, c)))"

section \<open>Public operations\<close>

definition mqtt_publish ::
    "'p tcp_ops \<Rightarrow> u8 list \<Rightarrow> u8 list \<Rightarrow> u8 \<Rightarrow> u8 \<Rightarrow> nat option \<Rightarrow> addr \<Rightarrow> 'p mqtt_client \<Rightarrow> (err_t \<times> 'p mqtt_client) result" where
  "mqtt_publish T topic payload qos retain cb arg c =
     (if conn_state c = TCP_DISCONNECTED then Inr (ERR_CONN, c)
      else
        let topic_strlen = length (cstring topic); total_len = 2 + topic_strlen + length payload in
        rbind (assert_or_halt (topic_strlen \<le> 0xFFFF - 2)) (\<lambda>_.
        rbind (assert_or_halt (total_len \<le> 0xFFFF)) (\<lambda>_.
          let remaining_length = of_nat total_len + (if qos > 0 then 2 else 0);
              (pkt_id, c) = (if qos > 0 then msg_generate_packet_id c else (0, c));
              (r, rs) = mqtt_create_request pkt_id cb arg (req_slots c)
          in case r of
               None \<Rightarrow> Inr (ERR_MEM, c)
             | Some i \<Rightarrow>
                 if \<not> mqtt_output_check_space remaining_length (out_rb c) then
                   Inr (ERR_MEM, c\<lparr>req_slots := mqtt_delete_request (Some i) rs\<rparr>)
                 else
                   let rb = mqtt_output_append_fixed_header MQTT_MSG_TYPE_PUBLISH 0 qos retain remaining_length (out_rb c);
                       rb = mqtt_output_append_string (cstring topic) (of_nat topic_strlen) rb;
                       rb = (if qos > 0 then mqtt_output_append_u16 pkt_id rb else rb);
                       rb = (if payload \<noteq> [] then mqtt_output_append_buf payload rb else rb)
                   in rbind (or_halt (mqtt_append_request i (pend_req_queue c, rs))) (\<lambda>q.
                        rbind (client_send T ((set_queue q c)\<lparr>out_rb := rb\<rparr>)) (\<lambda>c. Inr (ERR_OK, c))))))"

definition mqtt_sub_unsub ::
    "'p tcp_ops \<Rightarrow> u8 list \<Rightarrow> u8 \<Rightarrow> nat option \<Rightarrow> addr \<Rightarrow> bool \<Rightarrow> 'p mqtt_client \<Rightarrow> (err_t \<times> 'p mqtt_client) result" where
  "mqtt_sub_unsub T topic qos cb arg sub c =
     (let topic_strlen = length (cstring topic); total_len = topic_strlen + 2 + 2 + (if sub then 1 else 0) in
      rbind (assert_or_halt (topic_strlen \<le> 0xFFFF - 2)) (\<lambda>_.
      rbind (assert_or_halt (total_len \<le> 0xFFFF)) (\<lambda>_.
      rbind (assert_or_halt (qos < 3)) (\<lambda>_.
        if conn_state c = TCP_DISCONNECTED then Inr (ERR_CONN, c)
        else
          let remaining_length = of_nat total_len;
              (pkt_id, c) = msg_generate_packet_id c;
              (r, rs) = mqtt_create_request pkt_id cb arg (req_slots c)
          in case r of
               None \<Rightarrow> Inr (ERR_MEM, c)
             | Some i \<Rightarrow>
                 if \<not> mqtt_output_check_space remaining_length (out_rb c) then
                   Inr (ERR_MEM, c\<lparr>req_slots := mqtt_delete_request (Some i) rs\<rparr>)
                 else
                   let rb = mqtt_output_append_fixed_header
                         (if sub then MQTT_MSG_TYPE_SUBSCRIBE else MQTT_MSG_TYPE_UNSUBSCRIBE) 0 1 0 remaining_length (out_rb c);
                       rb = mqtt_output_append_u16 pkt_id rb;
                       rb = mqtt_output_append_string (cstring topic) (of_nat topic_strlen) rb;
                       rb = (if sub then mqtt_output_append_u8 (min qos 2) rb else rb)
                   in rbind (or_halt (mqtt_append_request i (pend_req_queue c, rs))) (\<lambda>q.
                        rbind (client_send T ((set_queue q c)\<lparr>out_rb := rb\<rparr>)) (\<lambda>c. Inr (ERR_OK, c)))))))"

definition mqtt_set_inpub_callback :: "nat option \<Rightarrow> nat option \<Rightarrow> addr \<Rightarrow> 'p mqtt_client \<Rightarrow> 'p mqtt_client" where
  "mqtt_set_inpub_callback pcb dcb arg c = c\<lparr>data_cb := dcb, pub_cb := pcb, inpub_arg := arg\<rparr>"

text \<open>A client of zero bytes; its environment is not part of the structure.\<close>

definition zero_ring :: mqtt_ringbuf where
  "zero_ring = \<lparr>rb_put = 0, rb_get = 0, rb_buf = replicate MQTT_OUTPUT_RINGBUF_SIZE 0\<rparr>"

definition zero_client :: "'p mqtt_client" where
  "zero_client =
     \<lparr>cyclic_tick = 0, keep_alive = 0, server_watchdog = 0, pkt_id_seq = 0, inpub_pkt_id = 0,
      conn_state = TCP_DISCONNECTED, conn = None, connect_arg = 0, connect_cb = None, pend_req_queue = None,
      req_slots = replicate MQTT_REQ_MAX_IN_FLIGHT
        \<lparr>rq_next = None, rq_cb = None, rq_arg = 0, rq_pkt_id = 0, rq_timeout_diff = 0\<rparr>,
      inpub_arg = 0, data_cb = None, pub_cb = None, msg_idx = 0, rx_buffer = replicate MQTT_VAR_HEADER_BUFFER_LEN 0,
      out_rb = zero_ring, timers = 0, calls = []\<rparr>"

definition wipe :: "'p mqtt_client \<Rightarrow> 'p mqtt_client" where
  "wipe c = zero_client\<lparr>timers := timers c, calls := calls c\<rparr>"

definition mqtt_client_new :: "bool \<Rightarrow> 'p mqtt_client option" where
  "mqtt_client_new malloc_ok = (if malloc_ok then Some zero_client else None)"

record mqtt_connect_client_info =
  ci_client_id :: "u8 list"
  ci_keep_alive :: u16
  ci_will_topic :: "u8 list option"
  ci_will_msg :: "u8 list option"
  ci_will_qos :: u8
  ci_will_retain :: bool

text \<open>The connect flags, the texts of the will and the length of the message up to them.\<close>

definition connect_will :: "mqtt_connect_client_info \<Rightarrow> (u8 \<times> u8 list \<times> u8 list \<times> nat) result" where
  "connect_will ci =
     (case (ci_will_topic ci, ci_will_msg ci) of
        (Some t, Some m) \<Rightarrow>
          (let t = cstring t; m = cstring m; len = 10 + 2 + length t + 2 + length m;
               flags = 0x04 OR push_bit 3 (ci_will_qos ci AND 3) OR (if ci_will_retain ci then 0x20 else 0) in
           rbind (assert_or_halt (length t \<le> 0xFF)) (\<lambda>_.
           rbind (assert_or_halt (length t > 0)) (\<lambda>_.
           rbind (assert_or_halt (length m \<le> 0xFF)) (\<lambda>_.
           rbind (assert_or_halt (len \<le> 0xFFFF)) (\<lambda>_. Inr (flags, t, m, len))))))
      | _ \<Rightarrow> Inr (0, [], [], 10))"

definition connect_message :: "u8 \<Rightarrow> u16 \<Rightarrow> u8 list \<Rightarrow> u8 list \<Rightarrow> u8 list \<Rightarrow> u16 \<Rightarrow> mqtt_ringbuf \<Rightarrow> mqtt_ringbuf" where
  "connect_message flags ka client_id will_topic will_msg remaining_length rb =
     (let rb = mqtt_output_append_fixed_header MQTT_MSG_TYPE_CONNECT 0 0 0 remaining_length rb;
          rb = mqtt_output_append_string [0x4d, 0x51, 0x54, 0x54] 4 rb;
          rb = mqtt_output_append_u8 4 rb;
          rb = mqtt_output_append_u8 flags rb;
          rb = mqtt_output_append_u16 ka rb;
          rb = mqtt_output_append_string client_id (of_nat (length client_id)) rb
      in if flags AND 0x04 \<noteq> 0 then
           mqtt_output_append_string will_msg (of_nat (length will_msg))
             (mqtt_output_append_string will_topic (of_nat (length will_topic)) rb)
         else rb)"

definition mqtt_client_connect ::
    "'p tcp_ops \<Rightarrow> nat option \<Rightarrow> addr \<Rightarrow> mqtt_connect_client_info \<Rightarrow> 'p mqtt_client \<Rightarrow> (err_t \<times> 'p mqtt_client) result" where
  "mqtt_client_connect T cb arg ci c =
     (if conn_state c \<noteq> TCP_DISCONNECTED then Inr (ERR_ISCONN, c)
      else
        let c = (wipe c)\<lparr>connect_arg := arg, connect_cb := cb, keep_alive := ci_keep_alive ci\<rparr>;
            c = c\<lparr>req_slots := mqtt_init_requests (req_slots c)\<rparr> in
        rbind (connect_will ci) (\<lambda>(wflags, will_topic, will_msg, wlen).
          let flags = wflags OR 0x02; client_id = cstring (ci_client_id ci); len = wlen + 2 + length client_id in
          rbind (assert_or_halt (length client_id \<le> 0xFFFF)) (\<lambda>_.
          rbind (assert_or_halt (len \<le> 0xFFFF)) (\<lambda>_.
            let remaining_length = of_nat len in
            if \<not> mqtt_output_check_space remaining_length (out_rb c) then Inr (ERR_MEM, c)
            else
              case tcp_new T of
                None \<Rightarrow> Inr (ERR_MEM, c)
              | Some p \<Rightarrow>
                  (let (err, p) = tcp_bind T p in
                   if err \<noteq> ERR_OK then Inr (err, c)
                   else
                     let (err, p) = tcp_connect T p in
                     if err \<noteq> ERR_OK then Inr (err, c)
                     else
                       Inr (ERR_OK,
                         c\<lparr>conn := Some (tcp_err T p True), conn_state := TCP_CONNECTING,
                           out_rb := connect_message flags (ci_keep_alive ci) client_id will_topic will_msg
                             remaining_length (out_rb c)\<rparr>))))))"

definition mqtt_disconnect :: "'p tcp_ops \<Rightarrow> 'p mqtt_client \<Rightarrow> 'p mqtt_client result" where
  "mqtt_disconnect T c =
     (if conn_state c \<noteq> TCP_DISCONNECTED then mqtt_close T 0 (c\<lparr>conn_state := TCP_DISCONNECTED\<rparr>) else Inr c)"

definition mqtt_client_is_connected :: "'p mqtt_client \<Rightarrow> bool" where
  "mqtt_client_is_connected c \<longleftrightarrow> conn_state c = MQTT_CONNECTED"

end
