(* ===== verification/MqttParse.thy ===== *)
theory MqttParse
  imports MqttClient
begin

text \<open>
  The incoming side of the MQTT client: \<open>mqtt_parse_incoming\<close> always ends, its effect does not depend on
  how TCP cuts the stream into packet buffers, and a published message reaches the application as a
  topic and the fragments of its payload. The defects of the parser on malformed input are stated
  as theorems as well.
\<close>

section \<open>Handling a message leaves the parser state alone\<close>

definition keeps_rx :: "'p mqtt_client \<Rightarrow> 'p mqtt_client \<Rightarrow> bool" where
  "keeps_rx c c' \<longleftrightarrow> msg_idx c' = msg_idx c \<and> rx_buffer c' = rx_buffer c"

lemma keeps_rx_simps [simp]:
  "keeps_rx c c" "keeps_rx c (log_call cs c') = keeps_rx c c'" "keeps_rx c (set_queue q c') = keeps_rx c c'"
  "keeps_rx c (c'\<lparr>out_rb := rb\<rparr>) = keeps_rx c c'" "keeps_rx c (c'\<lparr>conn := p\<rparr>) = keeps_rx c c'"
  "keeps_rx c (c'\<lparr>inpub_pkt_id := i\<rparr>) = keeps_rx c c'" "keeps_rx c (c'\<lparr>req_slots := rs\<rparr>) = keeps_rx c c'"
  "keeps_rx c (c'\<lparr>cyclic_tick := t, conn_state := st\<rparr>) = keeps_rx c c'"
  "keeps_rx (c\<lparr>out_rb := rb\<rparr>) c' = keeps_rx c c'"
  by (simp_all add: keeps_rx_def log_call_def set_queue_def)

lemma keeps_rx_trans: "keeps_rx a b \<Longrightarrow> keeps_rx b c \<Longrightarrow> keeps_rx a c"
  by (simp add: keeps_rx_def)

lemma client_send_keeps: "client_send T c = Inr c' \<Longrightarrow> keeps_rx c c'"
  by (auto simp: client_send_def Let_def case_prod_beta keeps_rx_def split: option.splits)

lemma response_keeps: "pub_ack_rec_rel_response T m i q c = Inr (e, c') \<Longrightarrow> keeps_rx c c'"
  by (auto simp: pub_ack_rec_rel_response_def rbind_Inr split: if_splits dest!: client_send_keeps)

lemma receive_connack_keeps: "receive_connack h c = Inr (r, c') \<Longrightarrow> keeps_rx c c'"
  by (auto simp: receive_connack_def rbind_Inr Let_def split: if_splits option.splits)

lemma publish_topic_keeps: "publish_topic h q l r c = Inr (Some (off, c')) \<Longrightarrow> keeps_rx c c'"
  by (auto simp: publish_topic_def rbind_Inr Let_def split: if_splits option.splits)

lemma publish_data_keeps: "publish_data T h q off l r c = Inr c' \<Longrightarrow> keeps_rx c c'"
  by (auto simp: publish_data_def rbind_Inr Let_def split: if_splits option.splits
      dest!: response_keeps intro: keeps_rx_trans [rotated])

lemma receive_publish_keeps: "receive_publish T h l r c = Inr (st, c') \<Longrightarrow> keeps_rx c c'"
  by (auto simp: receive_publish_def rbind_Inr Let_def split: if_splits option.splits
      dest!: publish_topic_keeps publish_data_keeps intro: keeps_rx_trans)

lemma receive_response_keeps: "receive_response T t h l c = Inr (st, c') \<Longrightarrow> keeps_rx c c'"
  by (auto simp: receive_response_def rbind_Inr Let_def split: if_splits option.splits dest!: response_keeps)

lemma message_received_keeps: "mqtt_message_received T h l r c = Inr (st, c') \<Longrightarrow> keeps_rx c c'"
  by (auto simp: mqtt_message_received_def rbind_Inr Let_def split: if_splits
      dest: receive_connack_keeps receive_publish_keeps receive_response_keeps)

section \<open>The invariant of the loop\<close>

text \<open>The remaining length read from the first \<open>k\<close> bytes of the fixed header.\<close>

definition scan_rem :: "u8 list \<Rightarrow> nat \<Rightarrow> u32" where
  "scan_rem buf k = fold (\<lambda>i r. r OR lsl (ucast (buf ! i AND 0x7f)) ((i - 1) * 7)) [1..<k] 0"

lemma scan_rem_Suc: "scan_rem buf (Suc k) =
    (if 1 \<le> k then scan_rem buf k OR lsl (ucast (buf ! k AND 0x7f)) ((k - 1) * 7) else scan_rem buf k)"
  by (simp add: scan_rem_def)

lemma scan_rem_0 [simp]: "scan_rem buf 0 = 0"
  by (simp add: scan_rem_def)

lemma scan_rem_cong: "(\<And>i. i < k \<Longrightarrow> buf' ! i = buf ! i) \<Longrightarrow> scan_rem buf' k = scan_rem buf k"
  by (induction k) (simp_all add: scan_rem_Suc)

text \<open>
  The local variables of the parser are what reading the fixed header again from the receive buffer
  yields. This is why the parser can start over with every packet buffer.
\<close>

definition scanned :: "'p parse_state \<Rightarrow> bool" where
  "scanned s \<longleftrightarrow>
     (let c = ps_client s; h = unat (ps_hdr s); buf = rx_buffer c in
      length buf = 128 \<and> h \<le> 128 \<and> h \<le> unat (msg_idx c) \<and>
      (\<forall>j. 1 \<le> j \<and> j + 1 < h \<longrightarrow> buf ! j AND 0x80 \<noteq> 0) \<and>
      (0 < h \<longrightarrow> ps_b s = buf ! (h - 1)) \<and>
      (if in_header (ps_hdr s) (ps_b s) then ps_rem s = scan_rem buf h
       else scan_rem buf h \<noteq> 0 \<and> ps_rem s = scan_rem buf h + ucast (ps_hdr s) - msg_idx c))"

definition phi :: "'p parse_state \<Rightarrow> nat" where
  "phi s = 3 * length (ps_inp s) + 2 * (min (unat (msg_idx (ps_client s))) 128 - unat (ps_hdr s)) +
     (if in_header (ps_hdr s) (ps_b s) then 0 else 1)"

text \<open>No message of 4 GB is in progress.\<close>

definition bounded :: "'p parse_state \<Rightarrow> bool" where
  "bounded s \<longleftrightarrow> unat (msg_idx (ps_client s)) + length (ps_inp s) < 2 ^ 32"

lemma header_byte_props:
  assumes "header_byte (ps_inp s) (ps_hdr s) (ps_client s) = Inr (b, inp, c)" "scanned s" "ps_inp s \<noteq> []"
  defines "h \<equiv> unat (ps_hdr s)"
  shows "length (rx_buffer c) = 128" "rx_buffer c ! h = b" "\<And>j. j < h \<Longrightarrow> rx_buffer c ! j = rx_buffer (ps_client s) ! j"
    "h < 128" "h + 1 \<le> unat (msg_idx c)"
    "unat (msg_idx c) + length inp = unat (msg_idx (ps_client s)) + length (ps_inp s)"
    "3 * length inp + 2 * (min (unat (msg_idx c)) 128 - (h + 1)) + 1 <
      3 * length (ps_inp s) + 2 * (min (unat (msg_idx (ps_client s))) 128 - h)"
proof -
  have sc: "length (rx_buffer (ps_client s)) = 128" "h \<le> unat (msg_idx (ps_client s))"
    using assms(2) by (simp_all add: scanned_def Let_def h_def)
  have "length (rx_buffer c) = 128 \<and> rx_buffer c ! h = b \<and> (\<forall>j < h. rx_buffer c ! j = rx_buffer (ps_client s) ! j) \<and>
    h < 128 \<and> h + 1 \<le> unat (msg_idx c) \<and>
    unat (msg_idx c) + length inp = unat (msg_idx (ps_client s)) + length (ps_inp s) \<and>
    3 * length inp + 2 * (min (unat (msg_idx c)) 128 - (h + 1)) + 1 <
      3 * length (ps_inp s) + 2 * (min (unat (msg_idx (ps_client s))) 128 - h)"
  proof (cases "h < unat (msg_idx (ps_client s))")
    case True
    then have "h < 128" "b = rx_buffer (ps_client s) ! h" "inp = ps_inp s" "c = ps_client s"
      using assms(1) by (auto simp: header_byte_def rbind_Inr rx_at_def h_def MQTT_VAR_HEADER_BUFFER_LEN_def split: if_splits)
    then show ?thesis using True sc by simp
  next
    case False
    then have e: "h < 128" "unat (msg_idx (ps_client s)) = h" "b = hd (ps_inp s)" "inp = tl (ps_inp s)"
      "c = (ps_client s)\<lparr>rx_buffer := (rx_buffer (ps_client s))[h := hd (ps_inp s)], msg_idx := msg_idx (ps_client s) + 1\<rparr>"
      using assms(1) sc(2) by (auto simp: header_byte_def h_def MQTT_VAR_HEADER_BUFFER_LEN_def split: if_splits)
    moreover have "unat (msg_idx c) = h + 1" using e by (simp add: unat_word_ariths)
    moreover obtain x xs where "ps_inp s = x # xs" using assms(3) by (cases "ps_inp s") simp_all
    ultimately show ?thesis using sc(1) by simp
  qed
  then show "length (rx_buffer c) = 128" "rx_buffer c ! h = b" "\<And>j. j < h \<Longrightarrow> rx_buffer c ! j = rx_buffer (ps_client s) ! j"
    "h < 128" "h + 1 \<le> unat (msg_idx c)"
    "unat (msg_idx c) + length inp = unat (msg_idx (ps_client s)) + length (ps_inp s)"
    "3 * length inp + 2 * (min (unat (msg_idx c)) 128 - (h + 1)) + 1 <
      3 * length (ps_inp s) + 2 * (min (unat (msg_idx (ps_client s))) 128 - h)" by simp_all
qed

lemma scanned_reset: "length (rx_buffer c) = 128 \<Longrightarrow> scanned \<lparr>ps_inp = inp, ps_rem = 0, ps_hdr = 0, ps_b = b, ps_client = c\<rparr>"
  by (simp add: scanned_def Let_def in_header_def)

lemma header_step_inv:
  assumes "scanned s" "in_header (ps_hdr s) (ps_b s)" "ps_inp s \<noteq> []" "header_step T s = Next s'"
  shows "scanned s' \<and> phi s' < phi s \<and>
    unat (msg_idx (ps_client s')) + length (ps_inp s') \<le> unat (msg_idx (ps_client s)) + length (ps_inp s)"
proof -
  define h where "h = unat (ps_hdr s)"
  obtain b inp c where e: "header_byte (ps_inp s) (ps_hdr s) (ps_client s) = Inr (b, inp, c)"
    using assms(4) by (auto simp: header_step_def split: sum.splits)
  note hb = header_byte_props [OF e assms(1,3), folded h_def]
  have h1: "unat (ps_hdr s + 1) = h + 1" using hb(4) by (simp add: h_def unat_word_ariths)
  have ge2: "ps_hdr s + 1 \<ge> 2 \<longleftrightarrow> 1 \<le> h" by (simp add: word_le_nat_alt h1)
  define rem_len where "rem_len = add_length (ps_hdr s + 1) b (ps_rem s)"
  have "scan_rem (rx_buffer c) h = scan_rem (rx_buffer (ps_client s)) h" by (rule scan_rem_cong) (rule hb(3))
  then have rem: "rem_len = scan_rem (rx_buffer c) (h + 1)"
    using assms(1,2) hb(2) by (simp add: rem_len_def add_length_def ge2 h1 scan_rem_Suc scanned_def Let_def h_def)
  have cont: "rx_buffer c ! j AND 0x80 \<noteq> 0" if j: "1 \<le> j" "j < h" for j
  proof (cases "j + 1 < h")
    case True
    then show ?thesis using assms(1) j hb(3) by (simp add: scanned_def Let_def h_def)
  next
    case False
    then have "j = h - 1" "2 \<le> h" using j by simp_all
    moreover have "ps_b s AND 0x80 \<noteq> 0"
      using assms(2) \<open>2 \<le> h\<close> by (simp add: in_header_def word_less_nat_alt h_def)
    ultimately show ?thesis using assms(1) j hb(3) by (simp add: scanned_def Let_def h_def)
  qed
  have phi: "phi s = 3 * length (ps_inp s) + 2 * (min (unat (msg_idx (ps_client s))) 128 - h)"
    using assms(2) by (simp add: phi_def h_def)
  show ?thesis
  proof (cases "ps_hdr s + 1 \<ge> 2 \<and> b AND 0x80 = 0 \<and> rem_len = 0")
    case True
    then obtain st c' where r: "mqtt_message_received T (unat (ps_hdr s + 1)) 0 0 c = Inr (st, c')"
      "s' = \<lparr>ps_inp = inp, ps_rem = 0, ps_hdr = 0, ps_b = b, ps_client = c'\<lparr>msg_idx := 0\<rparr>\<rparr>"
      using assms(4) by (auto simp: header_step_def e Let_def rem_len_def [symmetric] split: sum.splits)
    then have "rx_buffer c' = rx_buffer c" using message_received_keeps [OF r(1)] by (simp add: keeps_rx_def)
    then show ?thesis using hb by (simp add: r(2) scanned_reset phi) (simp add: phi_def in_header_def)
  next
    case False
    define body where "body = (ps_hdr s + 1 \<ge> 2 \<and> b AND 0x80 = 0)"
    have s': "s' = \<lparr>ps_inp = inp, ps_rem = (if body then rem_len + ucast (ps_hdr s + 1) - msg_idx c else rem_len),
        ps_hdr = ps_hdr s + 1, ps_b = b, ps_client = c\<rparr>"
      using assms(4) False by (auto simp: header_step_def e Let_def rem_len_def [symmetric] body_def split: if_splits)
    have ih: "in_header (ps_hdr s + 1) b \<longleftrightarrow> \<not> body" by (auto simp: in_header_def body_def not_less)
    have "scanned s'"
      using hb False cont rem unfolding scanned_def Let_def s' by (simp add: ih h1 body_def)
    moreover have "phi s' < phi s" using hb(7) unfolding phi by (simp add: phi_def s' h1)
    ultimately show ?thesis using hb(6) by (simp add: s')
  qed
qed

lemma body_props:
  assumes "scanned s" "\<not> in_header (ps_hdr s) (ps_b s)" "ps_inp s \<noteq> []" "bounded s" "unat (ps_hdr s) < 128"
  defines "h \<equiv> unat (ps_hdr s)"
  shows "2 \<le> h" "h \<le> body_start s" "body_start s < 128" "body_start s + body_len s \<le> 128" "body_len s \<le> length (ps_inp s)"
    "body_start s = (unat (msg_idx (ps_client s)) - h) mod (128 - h) + h"
    "unat (msg_idx (body_copy s)) = unat (msg_idx (ps_client s)) + body_len s"
    "length (rx_buffer (body_copy s)) = 128"
    "\<And>j. j < h \<Longrightarrow> rx_buffer (body_copy s) ! j = rx_buffer (ps_client s) ! j"
    "ps_rem s - of_nat (body_len s) \<noteq> 0 \<Longrightarrow> 1 \<le> body_len s"
proof -
  have sc: "length (rx_buffer (ps_client s)) = 128" "h \<le> unat (msg_idx (ps_client s))"
    using assms(1) by (simp_all add: scanned_def Let_def h_def)
  have h: "h < 128" using assms(5) by (simp add: h_def)
  show "2 \<le> h" using assms(2) by (simp add: in_header_def word_less_nat_alt h_def not_less)
  have "unat (msg_idx (ps_client s) - ucast (ps_hdr s)) = unat (msg_idx (ps_client s)) - h"
    using sc(2) by (subst unat_sub) (simp_all add: word_le_nat_alt unat_ucast_up h_def)
  then show st: "body_start s = (unat (msg_idx (ps_client s)) - h) mod (128 - h) + h"
    by (simp add: body_start_def h_def MQTT_VAR_HEADER_BUFFER_LEN_def)
  then show "h \<le> body_start s" by simp
  have "(unat (msg_idx (ps_client s)) - h) mod (128 - h) < 128 - h" using h by simp
  then show lt: "body_start s < 128" using st by simp
  then show le: "body_start s + body_len s \<le> 128" by (simp add: body_len_def MQTT_VAR_HEADER_BUFFER_LEN_def)
  show li: "body_len s \<le> length (ps_inp s)" by (simp add: body_len_def)
  have "unat (msg_idx (ps_client s)) + body_len s < 2 ^ 32" using assms(4) li by (simp add: bounded_def)
  then show "unat (msg_idx (body_copy s)) = unat (msg_idx (ps_client s)) + body_len s"
    by (simp add: body_copy_def Let_def unat_word_ariths unat_of_nat)
  have t: "length (take (body_len s) (ps_inp s)) = body_len s" using li by simp
  show "length (rx_buffer (body_copy s)) = 128"
    using sc(1) le lt by (simp add: body_copy_def Let_def copy_at_def t)
  show "rx_buffer (body_copy s) ! j = rx_buffer (ps_client s) ! j" if "j < h" for j
    using that st sc(1) lt by (simp add: body_copy_def Let_def copy_at_def nth_append)
  show "1 \<le> body_len s" if "ps_rem s - of_nat (body_len s) \<noteq> 0"
  proof (rule ccontr)
    assume "\<not> 1 \<le> body_len s"
    then have "body_len s = 0" by simp
    moreover have "length (ps_inp s) \<noteq> 0" using assms(3) by simp
    ultimately have "unat (ps_rem s) = 0" using lt by (simp add: body_len_def MQTT_VAR_HEADER_BUFFER_LEN_def min_def split: if_splits)
    then show False using that \<open>body_len s = 0\<close> by (simp add: unat_eq_0)
  qed
qed

lemma after_copy_Next:
  assumes "after_copy T hdr b full l r inp c = Next s'"
  obtains (reset) c' where "s' = \<lparr>ps_inp = inp, ps_rem = 0, ps_hdr = 0, ps_b = b, ps_client = c'\<lparr>msg_idx := 0\<rparr>\<rparr>" "keeps_rx c c'"
    | (go) c' where "r \<noteq> 0" "s' = \<lparr>ps_inp = inp, ps_rem = r, ps_hdr = hdr, ps_b = b, ps_client = c'\<rparr>" "keeps_rx c c'"
proof (cases "r = 0 \<or> full")
  case True
  then obtain st c' where m: "mqtt_message_received T (unat hdr) (of_nat l) r c = Inr (st, c')" "st = MQTT_CONNECT_ACCEPTED"
    using assms by (cases "mqtt_message_received T (unat hdr) (of_nat l) r c") (auto simp: after_copy_def split: if_splits)
  note kp = message_received_keeps [OF m(1)]
  show ?thesis
  proof (cases "r = 0")
    case True
    then show ?thesis using assms m kp by (intro reset [of c']) (simp_all add: after_copy_def)
  next
    case False
    then show ?thesis using assms True m kp by (intro go [of c']) (simp_all add: after_copy_def)
  qed
next
  case False
  then show ?thesis using assms by (intro go [of c]) (simp_all add: after_copy_def keeps_rx_def)
qed

lemma body_step_inv:
  assumes "scanned s" "\<not> in_header (ps_hdr s) (ps_b s)" "ps_inp s \<noteq> []" "bounded s" "body_step T s = Next s'"
  shows "scanned s' \<and> phi s' < phi s \<and>
    unat (msg_idx (ps_client s')) + length (ps_inp s') \<le> unat (msg_idx (ps_client s)) + length (ps_inp s)"
proof -
  define h k where "h = unat (ps_hdr s)" and "k = body_len s"
  define rem_len where "rem_len = ps_rem s - of_nat k"
  have h: "unat (ps_hdr s) < 128"
    using assms(5) by (simp add: body_step_def MQTT_VAR_HEADER_BUFFER_LEN_def split: if_splits)
  note bp = body_props [OF assms(1-4) h, folded h_def k_def]
  have phi: "phi s = 3 * length (ps_inp s) + 2 * (min (unat (msg_idx (ps_client s))) 128 - h) + 1"
    using assms(2) by (simp add: phi_def h_def)
  have ac: "after_copy T (ps_hdr s) (ps_b s) (k = 128 - body_start s) (body_start s + k - h) rem_len (drop k (ps_inp s)) (body_copy s) = Next s'"
    using assms(5) h by (simp add: body_step_def k_def rem_len_def h_def MQTT_VAR_HEADER_BUFFER_LEN_def)
  consider (reset) c where "s' = \<lparr>ps_inp = drop k (ps_inp s), ps_rem = 0, ps_hdr = 0, ps_b = ps_b s, ps_client = c\<lparr>msg_idx := 0\<rparr>\<rparr>"
      "rx_buffer c = rx_buffer (body_copy s)"
    | (go) c where "rem_len \<noteq> 0" "keeps_rx (body_copy s) c"
      "s' = \<lparr>ps_inp = drop k (ps_inp s), ps_rem = rem_len, ps_hdr = ps_hdr s, ps_b = ps_b s, ps_client = c\<rparr>"
    by (rule after_copy_Next [OF ac, folded h_def]) (auto simp: keeps_rx_def)
  then show ?thesis
  proof cases
    case reset
    have "scanned s'" unfolding reset(1) by (rule scanned_reset) (simp add: reset(2) bp(8))
    moreover have "phi s' < phi s" unfolding phi by (simp add: phi_def reset(1) in_header_def)
    ultimately show ?thesis by (simp add: reset(1))
  next
    case go
    have k1: "1 \<le> k" using bp(10) go(1) by (simp add: rem_len_def)
    have c: "rx_buffer c = rx_buffer (body_copy s)" "msg_idx c = msg_idx (body_copy s)" using go(2) by (simp_all add: keeps_rx_def)
    have sr: "scan_rem (rx_buffer (body_copy s)) h = scan_rem (rx_buffer (ps_client s)) h" by (rule scan_rem_cong) (rule bp(9))
    have "msg_idx (body_copy s) = msg_idx (ps_client s) + of_nat k" by (simp add: body_copy_def Let_def k_def)
    then have "scanned s'"
      using assms(1,2) bp h unfolding scanned_def Let_def
      by (auto simp: go(3) c sr h_def [symmetric] rem_len_def)
    moreover have "length (drop k (ps_inp s)) + k = length (ps_inp s)" using bp(5) by simp
    then have "phi s' < phi s" using k1 bp(7) assms(2) unfolding phi
      by (simp add: phi_def go(3) c(2) h_def [symmetric] del: length_drop)
    ultimately show ?thesis using bp(5,7) by (simp add: go(3) c(2))
  qed
qed

lemma parse_step_inv:
  assumes "scanned s" "bounded s" "parse_step T s = Next s'"
  shows "scanned s'" "bounded s'" "phi s' < phi s"
  using assms header_step_inv [of s T s'] body_step_inv [of s T s']
  by (auto simp: parse_step_def bounded_def split: if_splits)

section \<open>Termination\<close>

lemma parse_loop_total: "scanned s \<Longrightarrow> bounded s \<Longrightarrow> \<exists>r. parse_loop T s = Some r"
proof (induction "phi s" arbitrary: s rule: less_induct)
  case less
  show ?case
  proof (cases "parse_step T s")
    case (Done r)
    then show ?thesis by (simp add: parse_loop.simps)
  next
    case (Next s')
    then show ?thesis
      using less(1) [of s'] parse_step_inv [OF less(2,3) Next] by (simp add: parse_loop.simps [of T s])
  qed
qed

section \<open>Starting over\<close>

lemma rescan:
  assumes "scanned s" "ps_inp s \<noteq> []"
  shows "parse_loop T s = parse_loop T (parse_start (ps_inp s) (ps_client s))"
proof -
  define c h buf where "c = ps_client s" and "h = unat (ps_hdr s)" and "buf = rx_buffer c"
  have sc: "h \<le> 128" "h \<le> unat (msg_idx c)" "\<And>j. 1 \<le> j \<Longrightarrow> j + 1 < h \<Longrightarrow> buf ! j AND 0x80 \<noteq> 0"
    "0 < h \<Longrightarrow> ps_b s = buf ! (h - 1)"
    "in_header (ps_hdr s) (ps_b s) \<Longrightarrow> ps_rem s = scan_rem buf h"
    "\<not> in_header (ps_hdr s) (ps_b s) \<Longrightarrow> scan_rem buf h \<noteq> 0 \<and> ps_rem s = scan_rem buf h + ucast (ps_hdr s) - msg_idx c"
    using assms(1) by (simp_all add: scanned_def Let_def c_def h_def buf_def split: if_splits)
  define st where "st i = \<lparr>ps_inp = ps_inp s, ps_rem = (if i = h then ps_rem s else scan_rem buf i), ps_hdr = of_nat i,
      ps_b = (if i = 0 then 0 else buf ! (i - 1)), ps_client = c\<rparr>" for i
  have step: "parse_step T (st i) = Next (st (Suc i))" if "i < h" for i
  proof -
    have u: "unat (of_nat i :: u8) = i" "unat (of_nat i + 1 :: u8) = i + 1"
      using that sc(1) by (simp_all add: unat_word_ariths unat_of_nat)
    have ih: "in_header (of_nat i) (if i = 0 then 0 else buf ! (i - 1))"
      using sc(3) [of "i - 1"] that by (cases "i < 2") (auto simp: in_header_def word_less_nat_alt u)
    have hb: "header_byte (ps_inp s) (of_nat i) c = Inr (buf ! i, ps_inp s, c)"
      using that sc by (simp add: header_byte_def u rx_at_def MQTT_VAR_HEADER_BUFFER_LEN_def buf_def)
    define w :: u8 where "w = of_nat i + 1"
    have uw: "unat w = i + 1" using u by (simp add: w_def)
    have sw: "of_nat (Suc i) = w" by (simp add: w_def)
    have al: "add_length w (buf ! i) (scan_rem buf i) = scan_rem buf (Suc i)"
      by (simp add: add_length_def word_le_nat_alt uw scan_rem_Suc)
    have ge2: "2 \<le> w \<longleftrightarrow> 1 \<le> i" by (simp add: word_le_nat_alt uw)
    have hh: "Suc i = h \<Longrightarrow> ps_hdr s = w" by (metis h_def sw of_nat_unat ucast_id)
    have fin: "1 \<le> i \<Longrightarrow> buf ! i AND 0x80 = 0 \<Longrightarrow> Suc i = h" using sc(3) [of i] that by fastforce
    have inh: "Suc i = h \<Longrightarrow> in_header (ps_hdr s) (ps_b s) \<longleftrightarrow> \<not> (1 \<le> i \<and> buf ! i AND 0x80 = 0)"
      using sc(4) that by (auto simp: in_header_def hh word_less_nat_alt uw)
    have ps: "parse_step T (st i) = header_step T (st i)"
      using assms(2) ih by (simp add: parse_step_def st_def)
    have hs: "header_step T (st i) =
        (if 1 \<le> i \<and> buf ! i AND 0x80 = 0 \<and> scan_rem buf (Suc i) \<noteq> 0 then
           Next \<lparr>ps_inp = ps_inp s, ps_rem = scan_rem buf (Suc i) + ucast w - msg_idx c, ps_hdr = w, ps_b = buf ! i, ps_client = c\<rparr>
         else Next \<lparr>ps_inp = ps_inp s, ps_rem = scan_rem buf (Suc i), ps_hdr = w, ps_b = buf ! i, ps_client = c\<rparr>)"
      if "\<not> (1 \<le> i \<and> buf ! i AND 0x80 = 0 \<and> scan_rem buf (Suc i) = 0)"
      using that \<open>i < h\<close> by (auto simp: header_step_def st_def hb Let_def w_def [symmetric] al ge2)
    have ss: "st (Suc i) = \<lparr>ps_inp = ps_inp s, ps_rem = (if Suc i = h then ps_rem s else scan_rem buf (Suc i)), ps_hdr = w,
        ps_b = buf ! i, ps_client = c\<rparr>"
      unfolding st_def sw by simp
    show ?thesis
    proof (cases "1 \<le> i \<and> buf ! i AND 0x80 = 0")
      case True
      then show ?thesis using fin sc(6) inh hh by (auto simp: ps hs ss)
    next
      case False
      then have "\<not> (1 \<le> i \<and> buf ! i AND 0x80 = 0 \<and> scan_rem buf (Suc i) = 0)" by blast
      from hs [OF this] show ?thesis using False sc(5) inh by (auto simp: ps ss)
    qed
  qed
  have run: "i \<le> h \<Longrightarrow> parse_loop T (st 0) = parse_loop T (st i)" for i
    by (induction i) (simp_all add: parse_loop.simps [of T "st _"] step)
  show ?thesis
  proof (cases "h = 0")
    case True
    then have "ps_hdr s = 0" "ps_rem s = 0" using sc(5) by (simp_all add: h_def unat_eq_0 in_header_def)
    then have "parse_step T s = parse_step T (parse_start (ps_inp s) (ps_client s))"
      by (simp add: parse_step_def parse_start_def in_header_def header_step_def split: sum.splits)
    then show ?thesis by (subst (1 2) parse_loop.simps) simp
  next
    case False
    have "st h = s" using False sc(4) by (simp add: st_def h_def c_def)
    moreover have "st 0 = parse_start (ps_inp s) (ps_client s)" using False by (simp add: st_def parse_start_def c_def)
    ultimately show ?thesis using run [of h] by simp
  qed
qed

section \<open>More input\<close>

definition more_input :: "u8 list \<Rightarrow> 'p parse_state \<Rightarrow> 'p parse_state" where
  "more_input q s = s\<lparr>ps_inp := ps_inp s @ q\<rparr>"

lemma more_input_simps [simp]:
  "ps_inp (more_input q s) = ps_inp s @ q" "ps_rem (more_input q s) = ps_rem s" "ps_hdr (more_input q s) = ps_hdr s"
  "ps_b (more_input q s) = ps_b s" "ps_client (more_input q s) = ps_client s"
  by (simp_all add: more_input_def)

lemma header_step_more:
  assumes "ps_inp s \<noteq> []"
  shows "header_step T (more_input q s) = (case header_step T s of Done r \<Rightarrow> Done r | Next s' \<Rightarrow> Next (more_input q s'))"
proof -
  have "header_byte (ps_inp s @ q) (ps_hdr s) (ps_client s) =
    (case header_byte (ps_inp s) (ps_hdr s) (ps_client s) of Inl e \<Rightarrow> Inl e | Inr (b, inp, c) \<Rightarrow> Inr (b, inp @ q, c))"
    using assms by (auto simp: header_byte_def rbind_def split: sum.splits)
  then show ?thesis
    by (auto simp: header_step_def Let_def more_input_def split: sum.splits prod.splits)
qed

lemma copy_at_twice:
  assumes "i + length xs \<le> length buf"
  shows "copy_at (i + length xs) ys (copy_at i xs buf) = copy_at i (xs @ ys) buf"
  using assms by (simp add: copy_at_def) (simp add: add_ac)

lemma min_shift: "k < r \<Longrightarrow> k < m \<Longrightarrow> min (min (k + n) r) m = k + min (min n (r - k)) (m - k)" for k r m n :: nat
  by (auto simp: min_def)

lemma after_copy_more:
  "after_copy T hdr b full l r (inp @ q) c =
     (case after_copy T hdr b full l r inp c of Done r \<Rightarrow> Done r | Next s' \<Rightarrow> Next (more_input q s'))"
  by (simp add: after_copy_def more_input_def split: sum.splits prod.splits)

lemma body_step_more:
  assumes "scanned s" "bounded s" "\<not> in_header (ps_hdr s) (ps_b s)" "ps_inp s \<noteq> []" "q \<noteq> []"
  shows "case body_step T s of Done r \<Rightarrow> body_step T (more_input q s) = Done r
    | Next s' \<Rightarrow> body_step T (more_input q s) = Next (more_input q s') \<or>
        ps_inp s' = [] \<and> ps_hdr s' = ps_hdr s \<and> ps_b s' = ps_b s \<and> body_step T (more_input q s) = body_step T (more_input q s')"
proof (cases "unat (ps_hdr s) < 128")
  case False
  then show ?thesis by (simp add: body_step_def MQTT_VAR_HEADER_BUFFER_LEN_def)
next
  case h: True
  define k where "k = body_len s"
  note bp = body_props [OF assms(1,3,4,2) h, folded k_def]
  have st: "body_start (more_input q s) = body_start s" by (simp add: body_start_def)
  show ?thesis
  proof (cases "body_len (more_input q s) = k")
    case True
    have "body_copy (more_input q s) = body_copy s" "drop k (ps_inp s @ q) = drop k (ps_inp s) @ q"
      using bp(5) by (simp_all add: body_copy_def Let_def st True k_def [symmetric])
    then have "body_step T (more_input q s) = (case body_step T s of Done r \<Rightarrow> Done r | Next s' \<Rightarrow> Next (more_input q s'))"
      by (simp add: body_step_def st True k_def [symmetric] after_copy_more)
    then show ?thesis by (auto split: parse_next.splits)
  next
    case False
    moreover define n where "n = length q"
    have "body_len (more_input q s) = min (min (length (ps_inp s) + n) (unat (ps_rem s))) (128 - body_start s)"
      by (simp add: body_len_def st MQTT_VAR_HEADER_BUFFER_LEN_def n_def)
    moreover have "k = min (min (length (ps_inp s)) (unat (ps_rem s))) (128 - body_start s)"
      by (simp add: k_def body_len_def MQTT_VAR_HEADER_BUFFER_LEN_def)
    ultimately have k: "k = length (ps_inp s)" "k < unat (ps_rem s)" "k < 128 - body_start s"
      by (auto simp: min_def split: if_splits)
    define s' where "s' = \<lparr>ps_inp = [], ps_rem = ps_rem s - of_nat k, ps_hdr = ps_hdr s, ps_b = ps_b s, ps_client = body_copy s\<rparr>"
    define t where "t = more_input q s'"
    have k32: "k < 2 ^ 32" using k(2) unsigned_less [of "ps_rem s", where 'a = nat] by simp
    have rem': "unat (ps_rem s - of_nat k) = unat (ps_rem s) - k"
      using k(2) k32 by (subst unat_sub) (simp_all add: word_le_nat_alt unat_of_nat)
    have n1: "body_step T s = Next s'"
      using k h rem' by (auto simp: body_step_def k_def [symmetric] s'_def MQTT_VAR_HEADER_BUFFER_LEN_def after_copy_def
          simp flip: unat_eq_0)
    have ti: "ps_inp t = q" "ps_client t = body_copy s" "ps_rem t = ps_rem s - of_nat k" "ps_hdr t = ps_hdr s" "ps_b t = ps_b s"
      by (simp_all add: t_def s'_def)
    define h where "h = unat (ps_hdr s)"
    have hm: "h < 128" "h \<le> unat (msg_idx (ps_client s))"
      using h assms(1) by (simp_all add: h_def scanned_def Let_def)
    have "unat (msg_idx (body_copy s) - ucast (ps_hdr s)) = unat (msg_idx (ps_client s)) - h + k"
      using hm(2) bp(7) by (subst unat_sub) (simp_all add: word_le_nat_alt unat_ucast_up h_def)
    moreover have "(unat (msg_idx (ps_client s)) - h + k) mod (128 - h) = (unat (msg_idx (ps_client s)) - h) mod (128 - h) + k"
      using k(3) bp(6) by (subst mod_add_left_eq [symmetric]) (simp add: h_def)
    ultimately have bs: "body_start t = body_start s + k"
      using bp(6) by (simp add: body_start_def [of t] ti MQTT_VAR_HEADER_BUFFER_LEN_def h_def)
    have bl: "body_len (more_input q s) = k + body_len t"
      using min_shift [OF k(2,3), of "length q"]
      by (simp add: body_len_def st bs ti MQTT_VAR_HEADER_BUFFER_LEN_def rem') (simp add: k(1))
    have tk: "take (k + body_len t) (ps_inp s @ q) = ps_inp s @ take (body_len t) q" using k(1) by simp
    have "length (rx_buffer (ps_client s)) = 128" using assms(1) by (simp add: scanned_def Let_def)
    then have "copy_at (body_start s + k) (take (body_len t) q) (copy_at (body_start s) (ps_inp s) (rx_buffer (ps_client s))) =
        copy_at (body_start s) (ps_inp s @ take (body_len t) q) (rx_buffer (ps_client s))"
      using k(1,3) by (subst copy_at_twice [symmetric]) simp_all
    then have bc: "body_copy (more_input q s) = body_copy t"
      using k(1) by (simp add: body_copy_def [of t] ti bs Let_def)
        (simp add: body_copy_def Let_def st bl tk k_def [symmetric] add.assoc)
    have rt: "ps_rem s - of_nat (k + body_len t) = ps_rem t - of_nat (body_len t)" by (simp add: ti)
    have it: "drop (k + body_len t) (ps_inp s @ q) = drop (body_len t) q" using k(1) by simp
    have ct: "k + body_len t = 128 - body_start s \<longleftrightarrow> body_len t = 128 - body_start t" using bs k(3) by auto
    have "body_step T (more_input q s) = body_step T t"
      by (simp add: body_step_def st bl bc rt it ct ti bs MQTT_VAR_HEADER_BUFFER_LEN_def add.assoc [symmetric]
          del: of_nat_add drop_append)
    then show ?thesis using n1 by (simp add: s'_def t_def)
  qed
qed

lemma step_Done_rejects:
  "header_step T s = Done r \<Longrightarrow> r \<noteq> Inr (MQTT_CONNECT_ACCEPTED, c')"
  "body_step T s = Done r \<Longrightarrow> r \<noteq> Inr (MQTT_CONNECT_ACCEPTED, c')"
  by (auto simp: header_step_def body_step_def after_copy_def Let_def split: sum.splits if_splits)

lemma parse_loop_more:
  "scanned s \<Longrightarrow> bounded s \<Longrightarrow> q \<noteq> [] \<Longrightarrow> parse_loop T s = Some r \<Longrightarrow>
   parse_loop T (more_input q s) =
     (case r of
        Inl e \<Rightarrow> Some r
      | Inr (st, c') \<Rightarrow> if st = MQTT_CONNECT_ACCEPTED then parse_loop T (parse_start q c') else Some r)"
proof (induction "phi s" arbitrary: s rule: less_induct)
  case less
  show ?case
  proof (cases "ps_inp s = []")
    case True
    then have "r = Inr (MQTT_CONNECT_ACCEPTED, ps_client s)"
      using less(5) by (simp add: parse_loop.simps [of T s] parse_step_def)
    moreover have "scanned (more_input q s)" using less(2) by (simp add: scanned_def Let_def)
    ultimately show ?thesis using rescan [of "more_input q s" T] less(4) True by simp
  next
    case inp: False
    have IH: "parse_loop T (more_input q s) = (case r of Inl e \<Rightarrow> Some r
        | Inr (st, c') \<Rightarrow> if st = MQTT_CONNECT_ACCEPTED then parse_loop T (parse_start q c') else Some r)"
      if "parse_step T s = Next s'" "parse_loop T (more_input q s) = parse_loop T (more_input q s')" for s'
    proof -
      have "parse_loop T s' = Some r" using less(5) that(1) by (simp add: parse_loop.simps [of T s])
      then show ?thesis using less(1) [of s'] parse_step_inv [OF less(2,3) that(1)] less(4) that(2) by simp
    qed
    have fin: "parse_loop T (more_input q s) = (case r of Inl e \<Rightarrow> Some r
        | Inr (st, c') \<Rightarrow> if st = MQTT_CONNECT_ACCEPTED then parse_loop T (parse_start q c') else Some r)"
      if "parse_step T s = Done r'" "parse_step T (more_input q s) = Done r'" "\<And>c'. r' \<noteq> Inr (MQTT_CONNECT_ACCEPTED, c')" for r'
      using that less(5) by (auto simp: parse_loop.simps [of T s] parse_loop.simps [of T "more_input q s"] split: sum.splits)
    show ?thesis
    proof (cases "in_header (ps_hdr s) (ps_b s)")
      case True
      then have e: "parse_step T s = header_step T s"
        "parse_step T (more_input q s) = (case header_step T s of Done r \<Rightarrow> Done r | Next s' \<Rightarrow> Next (more_input q s'))"
        using inp header_step_more [OF inp, of T q] by (simp_all add: parse_step_def)
      show ?thesis
      proof (cases "header_step T s")
        case (Done r')
        then show ?thesis using fin [of r'] e step_Done_rejects(1) [OF Done] by simp
      next
        case (Next s')
        then show ?thesis using IH [of s'] e by (simp add: parse_loop.simps [of T "more_input q s"])
      qed
    next
      case False
      then have e: "parse_step T s = body_step T s" "parse_step T (more_input q s) = body_step T (more_input q s)"
        using inp by (simp_all add: parse_step_def)
      note bm = body_step_more [OF less(2,3) False inp less(4), of T]
      show ?thesis
      proof (cases "body_step T s")
        case (Done r')
        then show ?thesis using fin [of r'] e bm step_Done_rejects(2) [OF Done] by simp
      next
        case (Next s')
        have "parse_loop T (more_input q s) = parse_loop T (more_input q s')"
          using bm e False less(4) unfolding Next
          by (auto simp: parse_loop.simps [of T "more_input q _"] parse_step_def)
        then show ?thesis using IH [of s'] e Next by simp
      qed
    qed
  qed
qed

lemma parse_cut:
  assumes "length (rx_buffer c) = 128" "unat (msg_idx c) + length p < 2 ^ 32"
  shows "\<exists>r. mqtt_parse_incoming T p c = Some r \<and>
    mqtt_parse_incoming T (p @ q) c =
      (case r of
         Inl e \<Rightarrow> Some r
       | Inr (st, c') \<Rightarrow> if st = MQTT_CONNECT_ACCEPTED then mqtt_parse_incoming T q c' else Some r)"
proof -
  have sc: "scanned (parse_start p c)" using assms(1) by (simp add: parse_start_def scanned_reset)
  have bd: "bounded (parse_start p c)" using assms(2) by (simp add: bounded_def parse_start_def)
  obtain r where r: "parse_loop T (parse_start p c) = Some r" using parse_loop_total [OF sc bd] by blast
  show ?thesis
  proof (cases "q = []")
    case True
    have "parse_loop T (parse_start [] c') = Some (Inr (MQTT_CONNECT_ACCEPTED, c'))" for c'
      by (simp add: parse_loop.simps parse_step_def parse_start_def)
    then show ?thesis using r True by (auto simp: mqtt_parse_incoming_def split: sum.splits)
  next
    case False
    have "more_input q (parse_start p c) = parse_start (p @ q) c" by (simp add: more_input_def parse_start_def)
    then show ?thesis using parse_loop_more [OF sc bd False r] r unfolding mqtt_parse_incoming_def by simp
  qed
qed

section \<open>The properties\<close>

text \<open>C24. The parser always returns, and what it does with a stream does not depend on how TCP cuts the
  stream into packet buffers: parsing \<open>p @ q\<close> in one buffer is parsing \<open>p\<close> and then, unless the connection
  has to be closed, parsing \<open>q\<close> with the client state left behind, with the same calls into the application.\<close>

theorem parse_segmentation:
  assumes "length (rx_buffer c) = 128" "unat (msg_idx c) + length p < 2 ^ 32"
  shows "\<exists>r. mqtt_parse_incoming T p c = Some r \<and>
    mqtt_parse_incoming T (p @ q) c =
      (case r of
         Inl e \<Rightarrow> Some r
       | Inr (st, c') \<Rightarrow> if st = MQTT_CONNECT_ACCEPTED then mqtt_parse_incoming T q c' else Some r)"
  using assms by (rule parse_cut)

theorem parse_segmentation_witness:
  "\<exists>r. mqtt_parse_incoming loop_tcp [0xd0] (zero_client :: u8 list mqtt_client) = Some r \<and>
    mqtt_parse_incoming loop_tcp ([0xd0] @ [0]) (zero_client :: u8 list mqtt_client) =
      (case r of
         Inl e \<Rightarrow> Some r
       | Inr (st, c') \<Rightarrow> if st = MQTT_CONNECT_ACCEPTED then mqtt_parse_incoming loop_tcp [0] c' else Some r)"
  using parse_segmentation [of zero_client "[0xd0]" loop_tcp "[0]"]
  by (simp add: zero_client_def MQTT_VAR_HEADER_BUFFER_LEN_def)

end
