(* ===== verification/MqttDeliver.thy ===== *)
theory MqttDeliver
  imports MqttParse
begin

text \<open>
  Delivery of a published message: the parser finds the fixed header, hands the topic and the total
  length to the application and then the payload in fragments.
\<close>

section \<open>The remaining length\<close>

lemma of_nat_mod_128: "(of_nat (m mod 128) :: 'a::len word) = take_bit 7 (of_nat m)"
proof -
  have "m mod 128 = take_bit 7 m" by (simp add: take_bit_eq_mod)
  then show ?thesis by (simp only: of_nat_take_bit)
qed

lemma of_nat_digits: "(of_nat m :: u32) = of_nat (m mod 128) OR push_bit 7 (of_nat (m div 128))"
proof -
  have "(of_nat m :: u32) = of_nat (m mod 128) + of_nat (m div 128) * 128"
    by (metis mod_div_mult_eq of_nat_add of_nat_mult of_nat_numeral)
  also have "\<dots> = of_nat (m mod 128) + push_bit 7 (of_nat (m div 128))" by (simp add: push_bit_eq_mult)
  also have "\<dots> = of_nat (m mod 128) OR push_bit 7 (of_nat (m div 128))"
    by (rule disjunctive_add) (auto simp only: of_nat_mod_128 bit_take_bit_iff bit_push_bit_iff)
  finally show ?thesis .
qed

lemma digit_bits:
  "(of_nat (m mod 128) :: u8) AND 0x80 = 0" "((of_nat (m mod 128) :: u8) OR 0x80) AND 0x80 \<noteq> 0"
  "(ucast ((of_nat (m mod 128) :: u8) AND 0x7f) :: u32) = of_nat (m mod 128)"
  "(ucast (((of_nat (m mod 128) :: u8) OR 0x80) AND 0x7f) :: u32) = of_nat (m mod 128)"
proof -
  define w :: u8 where "w = of_nat m"
  have "bit ((take_bit 7 w OR 0x80) AND 0x80) 7" by (simp add: bit_simps)
  then show "((of_nat (m mod 128) :: u8) OR 0x80) AND 0x80 \<noteq> 0"
    unfolding of_nat_mod_128 w_def by (metis bit_0_eq bot_apply bot_bool_def)
  have "take_bit 7 w AND 0x80 = 0" "take_bit 7 w AND 0x7f = take_bit 7 w" "(take_bit 7 w OR 0x80) AND 0x7f = take_bit 7 w"
    by (rule byte_eqI; simp add: bit_simps)+
  moreover have "(ucast (take_bit 7 w) :: u32) = of_nat (m mod 128)"
    unfolding w_def of_nat_mod_128 [symmetric] by (simp add: unsigned_of_nat take_bit_nat_eq_self)
  ultimately show "(of_nat (m mod 128) :: u8) AND 0x80 = 0"
    "(ucast ((of_nat (m mod 128) :: u8) AND 0x7f) :: u32) = of_nat (m mod 128)"
    "(ucast (((of_nat (m mod 128) :: u8) OR 0x80) AND 0x7f) :: u32) = of_nat (m mod 128)"
    unfolding of_nat_mod_128 w_def by simp_all
qed

lemma rl_bytes_pos: "1 \<le> length (rl_bytes m)"
  by (subst rl_bytes.simps) simp

lemma rl_bytes_short: "m < 128 ^ Suc k \<Longrightarrow> length (rl_bytes m) \<le> Suc k"
proof (induction k arbitrary: m)
  case 0
  then show ?case by (subst rl_bytes.simps) simp
next
  case (Suc k)
  then have "m div 128 < 128 ^ Suc k" by (simp add: less_mult_imp_div_less mult.commute)
  from Suc(1) [OF this] show ?case by (subst rl_bytes.simps) simp
qed

lemma scan_digits:
  assumes "pre \<noteq> []" "length pre + length (rl_bytes m) \<le> 5"
  shows "scan_rem (pre @ rl_bytes m) (length pre + length (rl_bytes m)) =
    scan_rem pre (length pre) OR push_bit (7 * (length pre - 1)) (of_nat m)"
  using assms
proof (induction m arbitrary: pre rule: rl_bytes.induct)
  case (1 m)
  have "(length pre - 1) * 7 < 32" using 1(3) rl_bytes_pos [of m] by simp
  then have l: "lsl w ((length pre - 1) * 7) = push_bit (7 * (length pre - 1)) w" for w
    by (simp add: lsl_def mult.commute)
  have step: "scan_rem (pre @ [d] @ ds) (Suc (length pre)) =
      scan_rem pre (length pre) OR push_bit (7 * (length pre - 1)) (ucast (d AND 0x7f))" for d ds
  proof -
    have "scan_rem (pre @ [d] @ ds) (length pre) = scan_rem pre (length pre)" by (rule scan_rem_cong) (simp add: nth_append)
    moreover have "1 \<le> length pre" using 1(2) by (cases pre) simp_all
    ultimately show ?thesis using l [of "ucast (d AND 0x7f)"] by (simp add: scan_rem_Suc)
  qed
  show ?case
  proof (cases "m < 128")
    case True
    then have "m mod 128 = m" by simp
    then show ?thesis
      using True step [of "of_nat m" "[]"] digit_bits(3) [of m] by (simp add: rl_bytes.simps [of m])
  next
    case False
    define d :: u8 where "d = of_nat (m mod 128) OR 0x80"
    have rl: "rl_bytes m = d # rl_bytes (m div 128)" using False by (simp add: rl_bytes.simps [of m] d_def)
    have pb: "push_bit (7 * length pre) w = push_bit (7 * (length pre - 1)) (push_bit 7 w)" for w :: u32
      using 1(2) by (cases pre) (simp_all add: add.commute)
    have "scan_rem ((pre @ [d]) @ rl_bytes (m div 128)) (length (pre @ [d]) + length (rl_bytes (m div 128))) =
        scan_rem (pre @ [d]) (length (pre @ [d])) OR push_bit (7 * (length (pre @ [d]) - 1)) (of_nat (m div 128))"
      using 1(1) [of "pre @ [d]"] False 1(3) by (simp add: rl)
    also have "\<dots> = scan_rem pre (length pre) OR push_bit (7 * (length pre - 1))
        (of_nat (m mod 128) OR push_bit 7 (of_nat (m div 128)))"
      using step [of d "[]"] digit_bits(4) [of m] by (simp add: pb push_bit_or or.assoc d_def)
    finally show ?thesis using of_nat_digits [of m] by (simp add: rl)
  qed
qed

lemma scan_header:
  "1 + length (rl_bytes n) \<le> 5 \<Longrightarrow> scan_rem (b # rl_bytes n) (1 + length (rl_bytes n)) = of_nat n"
  using scan_digits [of "[b]" n] by (simp add: scan_rem_def)

section \<open>Reading the fixed header\<close>

definition continues :: "u8 \<Rightarrow> bool" where
  "continues b \<longleftrightarrow> b AND 0x80 \<noteq> 0"

lemma rl_bytes_continues: "\<exists>ds d. rl_bytes m = ds @ [d] \<and> (\<forall>x \<in> set ds. continues x) \<and> \<not> continues d"
proof (induction m rule: rl_bytes.induct)
  case (1 m)
  show ?case
  proof (cases "m < 128")
    case True
    then show ?thesis using digit_bits(1) [of m] by (auto simp: rl_bytes.simps [of m] continues_def intro: exI [of _ "[]"])
  next
    case False
    then obtain ds d where "rl_bytes (m div 128) = ds @ [d]" "\<forall>x \<in> set ds. continues x" "\<not> continues d" using 1 by blast
    then show ?thesis using False digit_bits(2) [of m]
      by (intro exI [of _ "(of_nat (m mod 128) OR 0x80) # ds"] exI [of _ d]) (simp add: rl_bytes.simps [of m] continues_def)
  qed
qed

text \<open>The state of the parser with the bytes \<open>h\<close> of a fixed header read.\<close>

definition header_read :: "u8 list \<Rightarrow> 'p mqtt_client \<Rightarrow> 'p mqtt_client" where
  "header_read h c = c\<lparr>rx_buffer := h @ drop (length h) (rx_buffer c), msg_idx := of_nat (length h)\<rparr>"

definition in_message :: "u8 list \<Rightarrow> u8 list \<Rightarrow> 'p mqtt_client \<Rightarrow> 'p parse_state" where
  "in_message h inp c =
     \<lparr>ps_inp = inp, ps_rem = scan_rem h (length h), ps_hdr = of_nat (length h), ps_b = (if h = [] then 0 else last h),
      ps_client = header_read h c\<rparr>"

lemma in_message_step:
  assumes "length h < 128" "length (rx_buffer c) = 128" "length h \<le> 1 \<or> continues (last h)"
    "length h = 0 \<or> continues x \<or> scan_rem (h @ [x]) (Suc (length h)) \<noteq> 0"
  shows "parse_step T (in_message h (x # inp) c) = Next (in_message (h @ [x]) inp c)"
proof -
  define k where "k = length h"
  have u: "unat (of_nat k :: u8) = k" "unat (of_nat k :: u32) = k" "unat (of_nat k + 1 :: u8) = k + 1"
    using assms(1) by (simp_all add: unat_word_ariths unat_of_nat k_def)
  have ih: "in_header (of_nat k) (if h = [] then 0 else last h)"
    using assms(3) by (cases "h = []") (auto simp: in_header_def word_less_nat_alt u [unfolded k_def] continues_def k_def)
  have buf: "(h @ drop k (rx_buffer c))[k := x] = (h @ [x]) @ drop (Suc k) (rx_buffer c)"
    using assms(1,2) by (simp add: k_def list_update_append Cons_nth_drop_Suc [symmetric])
  have hb: "header_byte (x # inp) (of_nat k) (header_read h c) = Inr (x, inp, header_read (h @ [x]) c)"
    using assms(1) by (simp add: header_byte_def header_read_def k_def [symmetric] u MQTT_VAR_HEADER_BUFFER_LEN_def buf)
  have "scan_rem (h @ [x]) k = scan_rem h k" by (rule scan_rem_cong) (simp add: nth_append k_def)
  then have al: "add_length (of_nat k + 1) x (scan_rem h k) = scan_rem (h @ [x]) (Suc k)"
    by (simp add: add_length_def word_le_nat_alt u scan_rem_Suc nth_append k_def [symmetric])
  have ge2: "2 \<le> (of_nat k + 1 :: u8) \<longleftrightarrow> 1 \<le> k" by (simp add: word_le_nat_alt u)
  have cc: "scan_rem (h @ [x]) (Suc k) + ucast (of_nat k + 1 :: u8) - msg_idx (header_read (h @ [x]) c) = scan_rem (h @ [x]) (Suc k)"
  proof -
    have "(ucast (of_nat k + 1 :: u8) :: u32) = of_nat (Suc k)" by (metis Suc_eq_plus1 of_nat_unat u(3))
    then show ?thesis by (simp add: header_read_def k_def [symmetric])
  qed
  define s where "s = in_message h (x # inp) c"
  have sel: "ps_inp s = x # inp" "ps_hdr s = of_nat k" "ps_b s = (if h = [] then 0 else last h)" "ps_rem s = scan_rem h k"
    "ps_client s = header_read h c"
    by (simp_all add: s_def in_message_def k_def)
  have "parse_step T s = header_step T s" using ih by (simp add: parse_step_def sel)
  also have "\<dots> = Next \<lparr>ps_inp = inp, ps_rem = scan_rem (h @ [x]) (Suc k), ps_hdr = of_nat k + 1, ps_b = x,
      ps_client = header_read (h @ [x]) c\<rparr>"
    using assms(4) by (auto simp: header_step_def sel hb Let_def al ge2 cc continues_def k_def [symmetric])
  also have "\<dots> = Next (in_message (h @ [x]) inp c)" by (simp add: in_message_def k_def add.commute)
  finally show ?thesis by (simp add: s_def)
qed

lemma in_message_run:
  assumes "length (rx_buffer c) = 128" "length (h @ ds) \<le> 128" "length h \<le> 1 \<or> continues (last h)" "\<forall>x \<in> set ds. continues x"
  shows "parse_loop T (in_message h (ds @ inp) c) = parse_loop T (in_message (h @ ds) inp c)"
  using assms
proof (induction ds arbitrary: h)
  case (Cons x ds)
  then have "parse_step T (in_message h (x # (ds @ inp)) c) = Next (in_message (h @ [x]) (ds @ inp) c)"
    by (intro in_message_step) auto
  then show ?case using Cons(1) [of "h @ [x]"] Cons(2-5) by (simp add: parse_loop.simps [of T "in_message h _ c"])
qed simp

lemma parse_header:
  assumes "length (rx_buffer c) = 128" "msg_idx c = 0" "n \<noteq> 0" "n < 2 ^ 28"
  shows "mqtt_parse_incoming T (b # rl_bytes n @ inp) c = parse_loop T (in_message (b # rl_bytes n) inp c)"
proof -
  obtain ds d where d: "rl_bytes n = ds @ [d]" "\<forall>x \<in> set ds. continues x" "\<not> continues d" using rl_bytes_continues by blast
  have len: "1 + length (rl_bytes n) \<le> 5" using rl_bytes_short [of n 3] assms(4) by simp
  have "unat (of_nat n :: u32) = n" using assms(4) by (simp add: unat_of_nat)
  then have nz: "(of_nat n :: u32) \<noteq> 0" using assms(3) by (metis unat_0)
  have "parse_start (b # rl_bytes n @ inp) c = in_message [] (b # rl_bytes n @ inp) c"
    using assms(2) by (simp add: parse_start_def in_message_def header_read_def)
  then have "mqtt_parse_incoming T (b # rl_bytes n @ inp) c = parse_loop T (in_message [] (b # rl_bytes n @ inp) c)"
    by (simp add: mqtt_parse_incoming_def)
  also have "\<dots> = parse_loop T (in_message [b] (rl_bytes n @ inp) c)"
    using in_message_step [of "[]" c b T "rl_bytes n @ inp"] assms(1) by (simp add: parse_loop.simps [of T "in_message [] _ c"])
  also have "\<dots> = parse_loop T (in_message (b # ds) (d # inp) c)"
    using in_message_run [of c "[b]" ds T "d # inp"] assms(1) d len by simp
  also have "\<dots> = parse_loop T (in_message ((b # ds) @ [d]) inp c)"
  proof -
    have "scan_rem ((b # ds) @ [d]) (Suc (length (b # ds))) \<noteq> 0"
      using scan_header [OF len, of b] d(1) nz by simp
    then have "parse_step T (in_message (b # ds) (d # inp) c) = Next (in_message ((b # ds) @ [d]) inp c)"
      using d len assms(1) by (intro in_message_step) (auto simp: last_in_set)
    then show ?thesis by (simp add: parse_loop.simps [of T "in_message (b # ds) (d # inp) c"])
  qed
  finally show ?thesis using d(1) by simp
qed

section \<open>Fragments\<close>

fun data_calls :: "nat \<Rightarrow> addr \<Rightarrow> u8 list list \<Rightarrow> app_call list" where
  "data_calls g a [] = []"
| "data_calls g a (x # xs) = DataCb g a x (xs = []) # data_calls g a xs"

lemma rx_at_simps: "i < 128 \<Longrightarrow> rx_at c i = Inr (rx_buffer c ! i)"
  by (simp add: rx_at_def MQTT_VAR_HEADER_BUFFER_LEN_def)

text \<open>A client that is ready to receive a publish of quality of service 0.\<close>

definition in_publish :: "'p mqtt_client \<Rightarrow> nat \<Rightarrow> bool" where
  "in_publish c g \<longleftrightarrow> length (rx_buffer c) = 128 \<and> MQTT_CTL_PACKET_TYPE (rx_buffer c ! 0) = MQTT_MSG_TYPE_PUBLISH \<and>
     MQTT_CTL_PACKET_QOS (rx_buffer c ! 0) = 0 \<and> data_cb c = Some g"

lemma receive_data:
  assumes "in_publish c g" "128 < unat (msg_idx c)" "0 < k" "k < 2 ^ 16"
  shows "mqtt_message_received T h (of_nat k) r c =
    Inr (MQTT_CONNECT_ACCEPTED, log_call [DataCb g (inpub_arg c) (rx_bytes c h k) (r = 0)] c)"
proof -
  have "unat (of_nat k :: u16) = k" using assms(4) by (simp add: unat_of_nat)
  then have "0 < (of_nat k :: u16)" using assms(3) by (simp add: word_less_nat_alt)
  then show ?thesis
    using assms \<open>unat (of_nat k :: u16) = k\<close>
    by (simp add: mqtt_message_received_def receive_publish_def publish_data_def in_publish_def rx_at_simps Let_def
        msg_types MQTT_VAR_HEADER_BUFFER_LEN_def)
qed

lemma copy_at_bytes: "i + length xs \<le> length buf \<Longrightarrow> take (length xs) (drop i (copy_at i xs buf)) = xs"
  by (simp add: copy_at_def)

lemma of_nat_u32_0: "d < 2 ^ 32 \<Longrightarrow> (of_nat d :: u32) = 0 \<longleftrightarrow> d = 0"
  by (simp add: unat_eq_0 [symmetric] unat_of_nat del: unat_eq_0)

lemma later_fragments:
  assumes "ps_hdr s = of_nat h" "2 \<le> h" "h \<le> 5" "\<not> in_header (ps_hdr s) (ps_b s)" "in_publish (ps_client s) g"
    "ps_inp s \<noteq> []" "ps_rem s = of_nat (length (ps_inp s))" "128 \<le> unat (msg_idx (ps_client s))"
    "(unat (msg_idx (ps_client s)) - h) mod (128 - h) = 0" "unat (msg_idx (ps_client s)) + length (ps_inp s) < 2 ^ 32"
  shows "\<exists>frags rx. frags \<noteq> [] \<and> concat frags = ps_inp s \<and> length rx = 128 \<and>
    parse_loop T s = Some (Inr (MQTT_CONNECT_ACCEPTED, (ps_client s)\<lparr>rx_buffer := rx, msg_idx := 0,
      calls := calls (ps_client s) @ data_calls g (inpub_arg (ps_client s)) frags\<rparr>))"
  using assms
proof (induction "length (ps_inp s)" arbitrary: s rule: less_induct)
  case less
  define c n where "c = ps_client s" and "n = length (ps_inp s)"
  define k where "k = min n (128 - h)"
  have n: "0 < n" "n < 2 ^ 32" using less(7,11) by (simp_all add: n_def)
  have k: "0 < k" "k \<le> n" "k \<le> 128 - h" using n less(3,4) by (simp_all add: k_def)
  have hh: "unat (ps_hdr s) = h" using less(2,4) by (simp add: unat_of_nat)
  have "unat (msg_idx c - ucast (ps_hdr s)) = unat (msg_idx c) - h"
    using less(4,9) hh by (subst unat_sub) (simp_all add: word_le_nat_alt unat_ucast_up c_def)
  then have bs: "body_start s = h" using less(10) by (simp add: body_start_def hh c_def MQTT_VAR_HEADER_BUFFER_LEN_def)
  have "unat (ps_rem s) = n" using less(8) n by (simp add: unat_of_nat n_def)
  then have bl: "body_len s = k" by (simp add: body_len_def bs k_def n_def MQTT_VAR_HEADER_BUFFER_LEN_def)
  define c1 where "c1 = c\<lparr>rx_buffer := copy_at h (take k (ps_inp s)) (rx_buffer c), msg_idx := msg_idx c + of_nat k\<rparr>"
  have bc: "body_copy s = c1" by (simp add: body_copy_def Let_def bs bl c1_def c_def)
  have lk: "length (take k (ps_inp s)) = k" using k(2) by (simp add: n_def)
  have lr: "length (rx_buffer c) = 128" using less(6) by (simp add: in_publish_def c_def)
  have rxb: "rx_bytes c1 h k = take k (ps_inp s)"
    using copy_at_bytes [of h "take k (ps_inp s)" "rx_buffer c"] lk lr k(3) less(4) by (simp add: rx_bytes_def c1_def)
  have um: "unat (msg_idx c1) = unat (msg_idx c) + k"
    using less(11) k(2) n by (simp add: c1_def unat_word_ariths unat_of_nat c_def n_def)
  have l1: "length (rx_buffer c1) = 128" using lr lk k(3) less(4) by (simp add: c1_def copy_at_def)
  have "rx_buffer c1 ! 0 = rx_buffer c ! 0" using less(3) lr by (simp add: c1_def copy_at_def nth_append)
  then have ip: "in_publish c1 g" using less(6) l1 by (simp add: in_publish_def c1_def c_def)
  have rem': "ps_rem s - of_nat k = of_nat (n - k)" using k(2) less(8) by (simp add: n_def)
  have r0: "(of_nat (n - k) :: u32) = 0 \<longleftrightarrow> k = n"
    using of_nat_u32_0 [of "n - k"] n k(2) by (auto simp del: of_nat_diff)
  define c2 where "c2 = log_call [DataCb g (inpub_arg c) (take k (ps_inp s)) (k = n)] c1"
  have rcv: "mqtt_message_received T h (of_nat k) (of_nat (n - k)) c1 = Inr (MQTT_CONNECT_ACCEPTED, c2)"
    using receive_data [OF ip, of k T h "of_nat (n - k)"] um less(9) k rxb r0 by (simp add: c_def c2_def c1_def)
  have step: "parse_step T s = (if k = n then Next \<lparr>ps_inp = [], ps_rem = 0, ps_hdr = 0, ps_b = ps_b s, ps_client = c2\<lparr>msg_idx := 0\<rparr>\<rparr>
      else Next \<lparr>ps_inp = drop k (ps_inp s), ps_rem = of_nat (n - k), ps_hdr = ps_hdr s, ps_b = ps_b s, ps_client = c2\<rparr>)"
  proof -
    have "k = n \<or> k = 128 - h" by (auto simp: k_def min_def)
    then have "after_copy T (ps_hdr s) (ps_b s) (k = 128 - h) (h + k - h) (of_nat (n - k)) (drop k (ps_inp s)) c1 =
       (if k = n then Next \<lparr>ps_inp = drop k (ps_inp s), ps_rem = 0, ps_hdr = 0, ps_b = ps_b s, ps_client = c2\<lparr>msg_idx := 0\<rparr>\<rparr>
        else Next \<lparr>ps_inp = drop k (ps_inp s), ps_rem = of_nat (n - k), ps_hdr = ps_hdr s, ps_b = ps_b s, ps_client = c2\<rparr>)"
      using rcv r0 by (auto simp: after_copy_def hh)
    then show ?thesis
      using less(4,5,7) by (simp add: parse_step_def body_step_def hh bs bl bc rem' MQTT_VAR_HEADER_BUFFER_LEN_def n_def [symmetric])
  qed
  show ?case
  proof (cases "k = n")
    case True
    then have "parse_loop T s = Some (Inr (MQTT_CONNECT_ACCEPTED, c2\<lparr>msg_idx := 0\<rparr>))"
      using step by (simp add: parse_loop.simps [of T s]) (simp add: parse_loop.simps parse_step_def)
    then show ?thesis using True l1
      by (intro exI [of _ "[ps_inp s]"] exI [of _ "rx_buffer c1"]) (simp add: c2_def c1_def log_call_def c_def n_def)
  next
    case False
    define s' where "s' = \<lparr>ps_inp = drop k (ps_inp s), ps_rem = of_nat (n - k), ps_hdr = ps_hdr s, ps_b = ps_b s, ps_client = c2\<rparr>"
    have k2: "k = 128 - h" using False k(2) by (simp add: k_def min_def split: if_splits)
    have ln: "length (ps_inp s') = n - k" by (simp add: s'_def n_def)
    have c2: "msg_idx c2 = msg_idx c1" "in_publish c2 g" "inpub_arg c2 = inpub_arg c"
      using ip by (simp_all add: c2_def log_call_def in_publish_def c1_def)
    have m: "(unat (msg_idx c1) - h) mod (128 - h) = 0"
    proof -
      have "unat (msg_idx c1) - h = (unat (msg_idx c) - h) + (128 - h)" using um k2 less(9,4) by (simp add: c_def)
      then show ?thesis using less(10) by (simp add: c_def)
    qed
    have "\<exists>frags rx. frags \<noteq> [] \<and> concat frags = ps_inp s' \<and> length rx = 128 \<and>
      parse_loop T s' = Some (Inr (MQTT_CONNECT_ACCEPTED, (ps_client s')\<lparr>rx_buffer := rx, msg_idx := 0,
        calls := calls (ps_client s') @ data_calls g (inpub_arg (ps_client s')) frags\<rparr>))"
      using less(2-5) False k(1,2) c2 um less(9,11) m ln
      by (intro less(1)) (auto simp: s'_def n_def c_def)
    then obtain frags rx where fr: "frags \<noteq> []" "concat frags = drop k (ps_inp s)" "length rx = 128"
      "parse_loop T s' = Some (Inr (MQTT_CONNECT_ACCEPTED, c2\<lparr>rx_buffer := rx, msg_idx := 0,
        calls := calls c2 @ data_calls g (inpub_arg c) frags\<rparr>))"
      using c2 by (auto simp: s'_def)
    have "parse_loop T s = parse_loop T s'" using step False by (simp add: parse_loop.simps [of T s] s'_def)
    then show ?thesis using fr False
      by (intro exI [of _ "take k (ps_inp s) # frags"] exI [of _ rx]) (simp add: c2_def c1_def log_call_def c_def)
  qed
qed

section \<open>A message that fits the receive buffer\<close>

lemma short_message:
  fixes inp :: "u8 list" and b :: u8
  assumes c: "length (rx_buffer c) = 128" "msg_idx c = 0" and i: "inp \<noteq> []"
  defines "hd0 \<equiv> b # rl_bytes (length inp)"
  defines "h \<equiv> length hd0"
  assumes fit: "h + length inp \<le> 128"
  shows "mqtt_parse_incoming T (b # rl_bytes (length inp) @ inp) c =
    Some (rbind (mqtt_message_received T h (of_nat (length inp)) 0
        (c\<lparr>rx_buffer := hd0 @ inp @ drop (h + length inp) (rx_buffer c), msg_idx := of_nat (h + length inp)\<rparr>))
      (\<lambda>(res, c2). Inr (res, if res = MQTT_CONNECT_ACCEPTED then c2\<lparr>msg_idx := 0\<rparr> else c2)))"
proof -
  define n where "n = length inp"
  have n: "n \<noteq> 0" "n < 2 ^ 28" using i fit by (simp_all add: n_def)
  have h: "2 \<le> h" "h \<le> 5" using rl_bytes_pos [of n] rl_bytes_short [of n 3] n(2) by (simp_all add: h_def hd0_def n_def)
  define s where "s = in_message hd0 inp c"
  have run: "mqtt_parse_incoming T (b # rl_bytes (length inp) @ inp) c = parse_loop T s"
    using parse_header [OF c(1,2) n(1,2), of T b inp] by (simp add: s_def hd0_def n_def)
  have sr: "scan_rem hd0 h = of_nat n" using scan_header [of n b] h by (simp add: hd0_def h_def n_def)
  define c0 where "c0 = c\<lparr>rx_buffer := hd0 @ drop h (rx_buffer c), msg_idx := of_nat h\<rparr>"
  have sel: "ps_inp s = inp" "ps_rem s = of_nat n" "ps_hdr s = of_nat h" "ps_b s = last hd0" "ps_client s = c0"
    using sr by (simp_all add: s_def in_message_def header_read_def h_def hd0_def c0_def)
  have hh: "unat (of_nat h :: u8) = h" "unat (of_nat h :: u32) = h" "(ucast (of_nat h :: u8) :: u32) = of_nat h"
    using h by (simp_all add: unat_of_nat unsigned_of_nat take_bit_nat_eq_self)
  obtain ds d where d: "rl_bytes n = ds @ [d]" "\<not> continues d" using rl_bytes_continues by blast
  then have nih: "\<not> in_header (ps_hdr s) (ps_b s)"
    using h(1) by (simp add: sel in_header_def word_less_nat_alt hh hd0_def continues_def n_def)
  have bs: "body_start s = h" by (simp add: body_start_def sel hh c0_def)
  have "unat (ps_rem s) = n" using n(2) by (simp add: sel unat_of_nat)
  then have bl: "body_len s = n" using fit by (simp add: body_len_def bs sel MQTT_VAR_HEADER_BUFFER_LEN_def n_def)
  have bc: "body_copy s = c\<lparr>rx_buffer := hd0 @ inp @ drop (h + n) (rx_buffer c), msg_idx := of_nat (h + n)\<rparr>"
    by (simp add: body_copy_def Let_def bs bl sel c0_def copy_at_def) (simp add: h_def n_def add.commute)
  have "parse_step T s = after_copy T (of_nat h) (last hd0) (n = 128 - h) (h + n - h) 0 (drop n inp) (body_copy s)"
    using nih i h by (simp add: parse_step_def body_step_def sel hh bs bl MQTT_VAR_HEADER_BUFFER_LEN_def)
  then show ?thesis
    unfolding run parse_loop.simps [of T s] bc
    by (auto simp: after_copy_def hh n_def rbind_def parse_loop.simps parse_step_def split: sum.splits)
qed

section \<open>A published message\<close>

definition publish_frame :: "u8 \<Rightarrow> u8 list \<Rightarrow> u8 list \<Rightarrow> u8 list" where
  "publish_frame b topic payload =
     b # rl_bytes (2 + length topic + length payload) @ be16 (of_nat (length topic) :: u16) @ topic @ payload"

lemma word16_be16: "word16 (ucast (drop_bit 8 w)) (ucast w) = (w :: u16)"
proof -
  have "push_bit 8 (ucast (ucast (drop_bit 8 w) :: u8)) + ucast (ucast w :: u8) =
      push_bit 8 (ucast (ucast (drop_bit 8 w) :: u8)) OR (ucast (ucast w :: u8) :: u16)"
    by (rule disjunctive_add) (auto simp: bit_simps)
  also have "\<dots> = w" by (rule bit_word_eqI) (auto simp: bit_simps)
  finally show ?thesis by (simp add: word16_def)
qed

text \<open>The first fragment of a message is received with its topic.\<close>

lemma receive_first:
  fixes topic pay :: "u8 list"
  assumes ip: "in_publish c g" and pc: "pub_cb c = Some f"
    and buf: "rx_bytes c h (2 + length topic + length pay) = be16 (of_nat (length topic) :: u16) @ topic @ pay"
    and m: "h + 2 + length topic + length pay \<le> 128" "pay \<noteq> []" "unat (msg_idx c) \<le> 128" and nt: "0 \<notin> set topic"
  shows "mqtt_message_received T h (of_nat (2 + length topic + length pay)) r c =
    Inr (MQTT_CONNECT_ACCEPTED, log_call [DataCb g (inpub_arg c) pay (r = 0)]
      (log_call [PubCb f (inpub_arg c) topic (r + of_nat (length pay))] (c\<lparr>inpub_pkt_id := 0\<rparr>)))"
proof -
  define tl len where "tl = length topic" and "len = 2 + tl + length pay"
  have lr: "length (rx_buffer c) = 128" using ip by (simp add: in_publish_def)
  have bound: "h + len \<le> 128" "tl + 3 \<le> len" using m by (auto simp: len_def tl_def Suc_le_eq)
  have nth: "rx_buffer c ! (h + i) = (be16 (of_nat tl :: u16) @ topic @ pay) ! i" if "i < len" for i
    using arg_cong [OF buf, of "\<lambda>xs. xs ! i"] that bound lr by (simp add: rx_bytes_def len_def tl_def)
  have tb: "rx_bytes c (h + 2) tl = topic" "rx_bytes c (h + 2 + tl) (length pay) = pay"
  proof -
    have "take tl (drop 2 (take len (drop h (rx_buffer c)))) = topic"
      "take (length pay) (drop (2 + tl) (take len (drop h (rx_buffer c)))) = pay"
      using buf by (simp_all add: rx_bytes_def len_def tl_def)
    then show "rx_bytes c (h + 2) tl = topic" "rx_bytes c (h + 2 + tl) (length pay) = pay"
      by (simp_all add: rx_bytes_def drop_take len_def add.commute min_def add.left_commute)
  qed
  have b01: "rx_buffer c ! h = ucast (drop_bit 8 (of_nat tl :: u16))" "rx_buffer c ! (h + 1) = ucast (of_nat tl :: u16)"
    using nth [of 0] nth [of 1] bound by (simp_all add: be16_def)
  have u: "unat (of_nat tl :: u16) = tl" "unat (2 + of_nat tl :: u16) = 2 + tl" "unat (of_nat len :: u16) = len"
    using bound by (simp_all add: unat_of_nat unat_word_ariths)
  have pl: "of_nat len - (2 + of_nat tl) = (of_nat (length pay) :: u16)" "unat (of_nat (length pay) :: u16) = length pay"
    using bound by (simp_all add: len_def unat_of_nat)
  have ul: "(ucast (of_nat (length pay) :: u16) :: u32) = of_nat (length pay)" by (metis of_nat_unat pl(2))
  have cs: "cstring topic = topic" using nt by (simp add: cstring_def takeWhile_eq_all_conv) metis
  have pos: "0 < (of_nat (length pay) :: u16)" using m(2) by (simp add: word_less_nat_alt pl)
  have pt: "publish_topic h 0 (of_nat len) r c = Inr (Some (2 + of_nat tl,
      log_call [PubCb f (inpub_arg c) topic (r + of_nat (length pay))] (c\<lparr>inpub_pkt_id := 0\<rparr>)))"
    using bound tb(1) by (simp add: publish_topic_def rx_at_simps b01 b01 [simplified] word16_be16 Let_def u pc pl ul rx_bytes_def cs)
  define c1 where "c1 = log_call [PubCb f (inpub_arg c) topic (r + of_nat (length pay))] (c\<lparr>inpub_pkt_id := 0\<rparr>)"
  have c1: "rx_buffer c1 = rx_buffer c" "data_cb c1 = Some g" "inpub_arg c1 = inpub_arg c"
    using ip by (simp_all add: c1_def log_call_def in_publish_def)
  have pd: "publish_data T h 0 (2 + of_nat tl) (of_nat len - (2 + of_nat tl)) r c1 = Inr (log_call [DataCb g (inpub_arg c) pay (r = 0)] c1)"
    using pos tb(2) unfolding publish_data_def pl(1)
    by (simp add: c1 u(2) pl(2) rx_bytes_def Let_def)
  have "mqtt_message_received T h (of_nat len) r c = receive_publish T h (of_nat len) r c"
    using ip by (simp add: mqtt_message_received_def in_publish_def rx_at_simps Let_def msg_types)
  also have "\<dots> = Inr (MQTT_CONNECT_ACCEPTED, log_call [DataCb g (inpub_arg c) pay (r = 0)] c1)"
    using ip m(3) pt pd by (simp add: receive_publish_def in_publish_def rx_at_simps Let_def MQTT_VAR_HEADER_BUFFER_LEN_def c1_def)
  finally show ?thesis by (simp only: len_def tl_def c1_def)
qed

lemma frame_parsed:
  fixes topic payload :: "u8 list"
  assumes c: "length (rx_buffer c) = 128" "msg_idx c = 0" "pub_cb c = Some f" "data_cb c = Some g"
    and b: "MQTT_CTL_PACKET_TYPE b = MQTT_MSG_TYPE_PUBLISH" "MQTT_CTL_PACKET_QOS b = 0"
    and t: "0 \<notin> set topic" "length topic \<le> 120" and p: "payload \<noteq> []" "2 + length topic + length payload < 2 ^ 28"
  shows "\<exists>frags rx. frags \<noteq> [] \<and> concat frags = payload \<and> length rx = 128 \<and>
    mqtt_parse_incoming T (publish_frame b topic payload) c = Some (Inr (MQTT_CONNECT_ACCEPTED,
      c\<lparr>rx_buffer := rx, msg_idx := 0, inpub_pkt_id := 0,
        calls := calls c @ PubCb f (inpub_arg c) topic (of_nat (length payload)) # data_calls g (inpub_arg c) frags\<rparr>))"
proof -
  define tl n where "tl = length topic" and "n = 2 + tl + length payload"
  define hd0 inp where "hd0 = b # rl_bytes n" and "inp = be16 (of_nat tl :: u16) @ topic @ payload"
  define h where "h = length hd0"
  have n: "n \<noteq> 0" "n < 2 ^ 28" "length inp = n" using p(2) by (simp_all add: n_def tl_def inp_def)
  have h: "2 \<le> h" "h \<le> 5" using rl_bytes_pos [of n] rl_bytes_short [of n 3] n(2) by (simp_all add: h_def hd0_def)
  define s where "s = in_message hd0 inp c"
  have run: "mqtt_parse_incoming T (publish_frame b topic payload) c = parse_loop T s"
    using parse_header [OF c(1,2) n(1,2), of T b inp] by (simp add: publish_frame_def s_def hd0_def inp_def n_def tl_def)
  have sr: "scan_rem hd0 h = of_nat n" using scan_header [of n b] h by (simp add: hd0_def h_def)
  define c0 where "c0 = c\<lparr>rx_buffer := hd0 @ drop h (rx_buffer c), msg_idx := of_nat h\<rparr>"
  have sel: "ps_inp s = inp" "ps_rem s = of_nat n" "ps_hdr s = of_nat h" "ps_b s = last hd0" "ps_client s = c0"
    using sr by (simp_all add: s_def in_message_def header_read_def h_def hd0_def c0_def)
  have hh: "unat (of_nat h :: u8) = h" "unat (of_nat h :: u32) = h" "(ucast (of_nat h :: u8) :: u32) = of_nat h"
    using h by (simp_all add: unat_of_nat unsigned_of_nat take_bit_nat_eq_self)
  obtain ds d where d: "rl_bytes n = ds @ [d]" "\<not> continues d" using rl_bytes_continues by blast
  then have nih: "\<not> in_header (ps_hdr s) (ps_b s)"
    using h(1) by (simp add: sel in_header_def word_less_nat_alt hh hd0_def continues_def)
  define k where "k = min n (128 - h)"
  have k: "k \<le> n" "k \<le> 128 - h" "tl + 3 \<le> k"
    using t(2) p(1) h by (auto simp: k_def n_def tl_def Suc_le_eq)
  have bs: "body_start s = h" by (simp add: body_start_def sel hh c0_def)
  have "unat (ps_rem s) = n" using n(2) by (simp add: sel unat_of_nat)
  then have bl: "body_len s = k" by (simp add: body_len_def bs k_def sel n(3) MQTT_VAR_HEADER_BUFFER_LEN_def)
  define pay1 where "pay1 = take (k - 2 - tl) payload"
  have tk: "take k inp = be16 (of_nat tl :: u16) @ topic @ pay1"
    using k(3) by (simp add: inp_def pay1_def tl_def)
  have lp: "length pay1 = k - 2 - tl" using k by (simp add: pay1_def n_def)
  have klen: "2 + length topic + length pay1 = k" using k(3) lp by (simp add: tl_def)
  define c1 where "c1 = c0\<lparr>rx_buffer := copy_at h (take k inp) (rx_buffer c0), msg_idx := of_nat h + of_nat k\<rparr>"
  have bc: "body_copy s = c1" by (simp add: body_copy_def Let_def bs bl c1_def sel c0_def)
  have lk: "length (take k inp) = k" using k(1) n(3) by simp
  have l0: "length (rx_buffer c0) = 128" using c(1) h by (simp add: c0_def h_def)
  have rxb: "rx_bytes c1 h k = take k inp"
    using copy_at_bytes [of h "take k inp" "rx_buffer c0"] lk l0 k(2) h by (simp add: rx_bytes_def c1_def)
  have l1: "length (rx_buffer c1) = 128" using l0 lk k(2) h by (simp add: c1_def copy_at_def)
  have "rx_buffer c1 ! 0 = b" using h l0 by (simp add: c1_def copy_at_def nth_append c0_def hd0_def)
  then have ip: "in_publish c1 g" using l1 b c(4) by (simp add: in_publish_def c1_def c0_def)
  have um: "unat (msg_idx c1) = h + k" using k h by (simp add: c1_def unat_word_ariths unat_of_nat)
  define c2 where "c2 = log_call [DataCb g (inpub_arg c) pay1 (k = n)]
    (log_call [PubCb f (inpub_arg c) topic (of_nat (length payload))] (c1\<lparr>inpub_pkt_id := 0\<rparr>))"
  have r0: "(of_nat (n - k) :: u32) = 0 \<longleftrightarrow> k = n" using of_nat_u32_0 [of "n - k"] n k(1) by (auto simp del: of_nat_diff)
  have tot: "of_nat (n - k) + of_nat (length pay1) = (of_nat (length payload) :: u32)"
  proof -
    have "n - k + length pay1 = length payload" using k lp by (simp add: n_def)
    then show ?thesis by (metis of_nat_add)
  qed
  have ia: "inpub_arg c1 = inpub_arg c" "pub_cb c1 = Some f" using c(3) by (simp_all add: c1_def c0_def)
  have "mqtt_message_received T h (of_nat (2 + length topic + length pay1)) (of_nat (n - k)) c1 =
    Inr (MQTT_CONNECT_ACCEPTED, log_call [DataCb g (inpub_arg c1) pay1 (of_nat (n - k) = (0 :: u32))]
      (log_call [PubCb f (inpub_arg c1) topic (of_nat (n - k) + of_nat (length pay1))] (c1\<lparr>inpub_pkt_id := 0\<rparr>)))"
  proof (rule receive_first [OF ip ia(2) _ _ _ _ t(1)])
    show "rx_bytes c1 h (2 + length topic + length pay1) = be16 (of_nat (length topic) :: u16) @ topic @ pay1"
      unfolding klen rxb tk by (simp add: tl_def)
    show "h + 2 + length topic + length pay1 \<le> 128" "unat (msg_idx c1) \<le> 128" using klen k(2) h um by simp_all
    show "pay1 \<noteq> []" using lp k(3) by auto
  qed
  then have rcv: "mqtt_message_received T h (of_nat k) (of_nat (n - k)) c1 = Inr (MQTT_CONNECT_ACCEPTED, c2)"
    unfolding klen ia(1) r0 tot c2_def .
  have "k = n \<or> k = 128 - h" by (auto simp: k_def min_def)
  then have ac: "after_copy T (ps_hdr s) (ps_b s) (k = 128 - h) (h + k - h) (of_nat (n - k)) (drop k inp) c1 =
     (if k = n then Next \<lparr>ps_inp = drop k inp, ps_rem = 0, ps_hdr = 0, ps_b = ps_b s, ps_client = c2\<lparr>msg_idx := 0\<rparr>\<rparr>
      else Next \<lparr>ps_inp = drop k inp, ps_rem = of_nat (n - k), ps_hdr = ps_hdr s, ps_b = ps_b s, ps_client = c2\<rparr>)"
    using rcv r0 by (auto simp: after_copy_def sel hh)
  have rem': "of_nat n - of_nat k = (of_nat (n - k) :: u32)" using k(1) by simp
  have "inp \<noteq> []" using n(3) n(1) by auto
  then have step: "parse_step T s = after_copy T (ps_hdr s) (ps_b s) (k = 128 - h) (h + k - h) (of_nat (n - k)) (drop k inp) c1"
    using nih h by (simp add: parse_step_def body_step_def sel hh bs bl bc rem' MQTT_VAR_HEADER_BUFFER_LEN_def del: of_nat_diff)
  have c2s: "c2\<lparr>rx_buffer := rx, msg_idx := 0, calls := calls c2 @ cs\<rparr> = c\<lparr>rx_buffer := rx, msg_idx := 0, inpub_pkt_id := 0,
      calls := calls c @ PubCb f (inpub_arg c) topic (of_nat (length payload)) # DataCb g (inpub_arg c) pay1 (k = n) # cs\<rparr>" for rx cs
    by (simp add: c2_def c1_def c0_def log_call_def)
  show ?thesis
  proof (cases "k = n")
    case True
    then have "parse_loop T s = Some (Inr (MQTT_CONNECT_ACCEPTED, c2\<lparr>msg_idx := 0\<rparr>))"
      using step ac n(3) by (simp add: parse_loop.simps [of T s]) (simp add: parse_loop.simps parse_step_def)
    moreover have "pay1 = payload" using True by (simp add: pay1_def n_def)
    then have "c2\<lparr>msg_idx := 0\<rparr> = c\<lparr>rx_buffer := rx_buffer c1, msg_idx := 0, inpub_pkt_id := 0,
        calls := calls c @ PubCb f (inpub_arg c) topic (of_nat (length payload)) # data_calls g (inpub_arg c) [payload]\<rparr>"
      using True by (simp add: c2_def c1_def c0_def log_call_def)
    ultimately show ?thesis using l1 run by (intro exI [of _ "[payload]"] exI [of _ "rx_buffer c1"]) simp
  next
    case False
    then have k2: "k = 128 - h" using \<open>k = n \<or> k = 128 - h\<close> by simp
    define s' where "s' = \<lparr>ps_inp = drop k inp, ps_rem = of_nat (n - k), ps_hdr = ps_hdr s, ps_b = ps_b s, ps_client = c2\<rparr>"
    have c2: "msg_idx c2 = msg_idx c1" "in_publish c2 g" "inpub_arg c2 = inpub_arg c"
      using ip by (simp_all add: c2_def log_call_def in_publish_def c1_def c0_def)
    have "\<exists>frags rx. frags \<noteq> [] \<and> concat frags = ps_inp s' \<and> length rx = 128 \<and>
      parse_loop T s' = Some (Inr (MQTT_CONNECT_ACCEPTED, (ps_client s')\<lparr>rx_buffer := rx, msg_idx := 0,
        calls := calls (ps_client s') @ data_calls g (inpub_arg (ps_client s')) frags\<rparr>))"
      using h nih False k(1) c2 um k2 n
      by (intro later_fragments [where h = h]) (auto simp: s'_def sel simp del: of_nat_diff)
    then obtain frags rx where fr: "frags \<noteq> []" "concat frags = drop k inp" "length rx = 128"
      "parse_loop T s' = Some (Inr (MQTT_CONNECT_ACCEPTED, c2\<lparr>rx_buffer := rx, msg_idx := 0,
        calls := calls c2 @ data_calls g (inpub_arg c) frags\<rparr>))"
      using c2 by (auto simp: s'_def)
    have "parse_loop T s = parse_loop T s'" using step ac False by (simp add: parse_loop.simps [of T s] s'_def)
    moreover have "drop k inp = drop (k - 2 - tl) payload" using k(3) by (simp add: inp_def tl_def)
    then have "concat (pay1 # frags) = payload" using fr(2) by (simp add: pay1_def)
    ultimately show ?thesis using fr(1,3,4) False run
      by (intro exI [of _ "pay1 # frags"] exI [of _ rx]) (simp add: c2s)
  qed
qed

section \<open>A stream in pieces\<close>

text \<open>The packet buffers of a stream, parsed one after the other.\<close>

fun feed :: "'p tcp_ops \<Rightarrow> u8 list list \<Rightarrow> 'p mqtt_client \<Rightarrow> (mqtt_connection_status \<times> 'p mqtt_client) result option" where
  "feed T [] c = Some (Inr (MQTT_CONNECT_ACCEPTED, c))"
| "feed T (p # ps) c =
     (case mqtt_parse_incoming T p c of
        Some (Inr (st, c')) \<Rightarrow> if st = MQTT_CONNECT_ACCEPTED then feed T ps c' else Some (Inr (st, c'))
      | r \<Rightarrow> r)"

lemma parse_result_inv:
  "scanned s \<Longrightarrow> bounded s \<Longrightarrow> parse_loop T s = Some (Inr (MQTT_CONNECT_ACCEPTED, c')) \<Longrightarrow>
   length (rx_buffer c') = 128 \<and> unat (msg_idx c') \<le> unat (msg_idx (ps_client s)) + length (ps_inp s)"
proof (induction "phi s" arbitrary: s rule: less_induct)
  case less
  show ?case
  proof (cases "parse_step T s")
    case (Done r)
    then have r: "r = Inr (MQTT_CONNECT_ACCEPTED, c')" using less(4) by (simp add: parse_loop.simps [of T s])
    then have "ps_client s = c'"
      using Done step_Done_rejects [of T s r c'] by (auto simp: parse_step_def split: if_splits)
    then show ?thesis using less(2) by (simp add: scanned_def Let_def)
  next
    case (Next s')
    have "unat (msg_idx (ps_client s')) + length (ps_inp s') \<le> unat (msg_idx (ps_client s)) + length (ps_inp s)"
      using Next less(2,3) header_step_inv [of s T s'] body_step_inv [of s T s'] by (auto simp: parse_step_def split: if_splits)
    moreover have "parse_loop T s' = Some (Inr (MQTT_CONNECT_ACCEPTED, c'))" using less(4) Next by (simp add: parse_loop.simps [of T s])
    ultimately show ?thesis using less(1) [of s'] parse_step_inv [OF less(2,3) Next] by fastforce
  qed
qed

lemma feed_concat:
  "length (rx_buffer c) = 128 \<Longrightarrow> unat (msg_idx c) + length (concat ps) < 2 ^ 32 \<Longrightarrow>
   feed T ps c = mqtt_parse_incoming T (concat ps) c"
proof (induction ps arbitrary: c)
  case Nil
  then show ?case by (simp add: mqtt_parse_incoming_def parse_loop.simps parse_step_def parse_start_def)
next
  case (Cons p ps)
  have b: "unat (msg_idx c) + length p < 2 ^ 32" using Cons(3) by simp
  obtain r where r: "mqtt_parse_incoming T p c = Some r"
    "mqtt_parse_incoming T (p @ concat ps) c = (case r of Inl e \<Rightarrow> Some r
       | Inr (st, c') \<Rightarrow> if st = MQTT_CONNECT_ACCEPTED then mqtt_parse_incoming T (concat ps) c' else Some r)"
    using parse_cut [OF Cons(2) b] by blast
  show ?case
  proof (cases r)
    case (Inr x)
    obtain st c' where x: "x = (st, c')" by (cases x)
    show ?thesis
    proof (cases "st = MQTT_CONNECT_ACCEPTED")
      case True
      have "length (rx_buffer c') = 128 \<and> unat (msg_idx c') \<le> unat (msg_idx c) + length p"
        using parse_result_inv [of "parse_start p c" T c'] r(1) Inr x True Cons(2) b
        by (simp add: mqtt_parse_incoming_def parse_start_def scanned_reset bounded_def)
      then show ?thesis using Cons(1) [of c'] Cons(3) r Inr x True by simp
    qed (use r Inr x in simp)
  qed (use r in simp)
qed

section \<open>A message in pieces\<close>

lemma frame_feed:
  fixes topic payload :: "u8 list"
  assumes "length (rx_buffer c) = 128" "msg_idx c = 0" "pub_cb c = Some f" "data_cb c = Some g"
    "MQTT_CTL_PACKET_TYPE b = MQTT_MSG_TYPE_PUBLISH" "MQTT_CTL_PACKET_QOS b = 0"
    "0 \<notin> set topic" "length topic \<le> 120" "payload \<noteq> []" "2 + length topic + length payload < 2 ^ 28"
    "concat ps = publish_frame b topic payload"
  shows "\<exists>frags rx. frags \<noteq> [] \<and> concat frags = payload \<and> length rx = 128 \<and>
    feed T ps c = Some (Inr (MQTT_CONNECT_ACCEPTED,
      c\<lparr>rx_buffer := rx, msg_idx := 0, inpub_pkt_id := 0,
        calls := calls c @ PubCb f (inpub_arg c) topic (of_nat (length payload)) # data_calls g (inpub_arg c) frags\<rparr>))"
proof -
  have "length (rl_bytes (2 + length topic + length payload)) \<le> 4"
    using rl_bytes_short [of _ 3] assms(10) by simp
  then have "unat (msg_idx c) + length (concat ps) < 2 ^ 32"
    using assms(2,10) by (simp add: assms(11) publish_frame_def)
  then have "feed T ps c = mqtt_parse_incoming T (publish_frame b topic payload) c"
    using feed_concat [OF assms(1)] assms(11) by simp
  then show ?thesis using frame_parsed [OF assms(1-10), of T] by simp
qed

section \<open>The properties\<close>



text \<open>C29. A fixed header whose length field does not end makes the parser write behind the receive buffer:
  one byte of packet type and 128 continuation bytes from the server are enough, whatever the client does.\<close>

theorem header_overrun:
  assumes "length (rx_buffer c) = 128" "msg_idx c = 0"
  shows "mqtt_parse_incoming T (b # replicate 128 0x80) c = Some (Inl Overrun)"
proof -
  define h where "h = b # replicate 127 0x80"
  have lh: "length h = 128" by (simp add: h_def)
  have split: "replicate 128 0x80 = replicate 127 0x80 @ [0x80 :: u8]"
    by (simp add: replicate_add [symmetric] replicate_append_same numeral_eq_Suc)
  have "parse_start (b # replicate 128 0x80) c = in_message [] (b # replicate 128 0x80) c"
    using assms(2) by (simp add: parse_start_def in_message_def header_read_def)
  then have "mqtt_parse_incoming T (b # replicate 128 0x80) c = parse_loop T (in_message [] (b # replicate 128 0x80) c)"
    by (simp only: mqtt_parse_incoming_def)
  also have "\<dots> = parse_loop T (in_message [b] (replicate 127 0x80 @ [0x80]) c)"
    using in_message_step [of "[]" c b T "replicate 127 0x80 @ [0x80]"] assms(1)
    by (simp add: split parse_loop.simps [of T "in_message [] _ c"] del: replicate.simps)
  also have "\<dots> = parse_loop T (in_message h [0x80] c)"
    using in_message_run [of c "[b]" "replicate 127 0x80" T "[0x80]"] assms(1) by (simp add: h_def continues_def)
  also have "\<dots> = Some (Inl Overrun)"
  proof -
    have "in_header 128 (last h)" "h \<noteq> []" by (simp_all add: in_header_def h_def)
    then show ?thesis
      by (simp add: parse_loop.simps parse_step_def in_message_def lh header_step_def header_byte_def header_read_def
          MQTT_VAR_HEADER_BUFFER_LEN_def)
  qed
  finally show ?thesis .
qed

theorem header_overrun_witness:
  "mqtt_parse_incoming loop_tcp (0x30 # replicate 128 0x80) (zero_client :: u8 list mqtt_client) = Some (Inl Overrun)"
  using header_overrun [of zero_client loop_tcp "0x30"] by (simp add: zero_client_def MQTT_VAR_HEADER_BUFFER_LEN_def del: replicate.simps)

lemma publish_topic_check:
  assumes "rx_at c h = Inr hb" "rx_at c (h + 1) = Inr lb"
  shows "unat len \<le> unat (2 + word16 hb lb) \<Longrightarrow> publish_topic h 0 len r c = Inr None"
    "unat (2 + word16 hb lb) < unat len \<Longrightarrow> 128 \<le> h + 2 + unat (word16 hb lb) \<Longrightarrow> publish_topic h 0 len r c = Inl Overrun"
  using assms by (simp_all add: publish_topic_def Let_def rx_at_def MQTT_VAR_HEADER_BUFFER_LEN_def)

lemma received_publish:
  assumes "rx_buffer c ! 0 = 0x30" "unat (msg_idx c) \<le> 128"
  shows "mqtt_message_received T h len r c = rbind (publish_topic h 0 len r c) (\<lambda>x. case x of
      None \<Rightarrow> Inr (MQTT_CONNECT_DISCONNECTED, c)
    | Some (off, c) \<Rightarrow> rbind (publish_data T h 0 off (len - off) r c) (\<lambda>c. Inr (MQTT_CONNECT_ACCEPTED, c)))"
proof -
  have "MQTT_CTL_PACKET_TYPE 0x30 = 3" "MQTT_CTL_PACKET_QOS 0x30 = 0"
    by (simp_all add: MQTT_CTL_PACKET_TYPE_def MQTT_CTL_PACKET_QOS_def)
  then show ?thesis
    using assms by (simp add: mqtt_message_received_def receive_publish_def rx_at_simps Let_def msg_types MQTT_VAR_HEADER_BUFFER_LEN_def)
qed



end
