(* ===== verification/MqttInv.thy ===== *)
theory MqttInv
  imports MqttDeliver
begin

text \<open>
  The state machine of the MQTT client: a step relation with one rule per event that reaches it (an
  operation of the application, a TCP callback, the cyclic timer), and an invariant of all
  reachable states. The invariant says that the ring buffer and the request queue are well-formed, that there is a
  TCP connection exactly when the client is not disconnected, and that exactly one cyclic timeout is pending
  exactly while the MQTT connection is being made or stands. Under the invariant no operation runs
  into a failing assertion or a loop without end.
\<close>

named_theorems safe_rules \<open>operations that preserve the invariant\<close>

lemma safe_rx_at: "safe (\<lambda>_. True) (rx_at c i)"
  by (simp add: rx_at_def)

section \<open>The invariant\<close>

definition running :: "'p mqtt_client \<Rightarrow> bool" where
  "running c \<longleftrightarrow> conn_state c = MQTT_CONNECTING \<or> conn_state c = MQTT_CONNECTED"

definition core_ok :: "'p mqtt_client \<Rightarrow> bool" where
  "core_ok c \<longleftrightarrow> ring_ok (out_rb c) \<and> (\<exists>is. queue_ok (queue_of c) is) \<and>
     (conn c = None \<longleftrightarrow> conn_state c = TCP_DISCONNECTED) \<and> timers c = (if running c then 1 else 0)"

definition client_ok :: "'p mqtt_client \<Rightarrow> bool" where
  "client_ok c \<longleftrightarrow> core_ok c \<and> length (rx_buffer c) = 128"

lemma core_ok_simps [simp]:
  "core_ok (log_call cs c) = core_ok c" "core_ok (c\<lparr>msg_idx := i\<rparr>) = core_ok c" "core_ok (c\<lparr>rx_buffer := b\<rparr>) = core_ok c"
  "core_ok (c\<lparr>rx_buffer := b, msg_idx := i\<rparr>) = core_ok c"
  "core_ok (c\<lparr>inpub_pkt_id := w\<rparr>) = core_ok c" "core_ok (c\<lparr>cyclic_tick := w\<rparr>) = core_ok c"
  "core_ok (c\<lparr>server_watchdog := w\<rparr>) = core_ok c" "core_ok (c\<lparr>pkt_id_seq := w\<rparr>) = core_ok c"
  "core_ok (c\<lparr>data_cb := d, pub_cb := p, inpub_arg := a\<rparr>) = core_ok c"
  by (simp_all add: core_ok_def log_call_def running_def queue_of_def)

lemma conn_state_log [simp]: "conn_state (log_call cs c) = conn_state c"
  by (simp add: log_call_def)

lemma running_simps [simp]:
  "running (log_call cs c) = running c" "running (set_queue q c) = running c" "running (c\<lparr>msg_idx := i\<rparr>) = running c"
  "running (c\<lparr>rx_buffer := b, msg_idx := i\<rparr>) = running c" "running (c\<lparr>rx_buffer := b\<rparr>) = running c"
  "running (c\<lparr>inpub_pkt_id := w\<rparr>) = running c" "running (c\<lparr>out_rb := rb\<rparr>) = running c" "running (c\<lparr>req_slots := rs\<rparr>) = running c"
  by (simp_all add: running_def log_call_def set_queue_def)

lemma queue_of_simps [simp]:
  "queue_of (log_call cs c) = queue_of c" "queue_of (set_queue q c) = q"
  by (simp_all add: queue_of_def log_call_def set_queue_def)

lemma core_ok_set_queue: "core_ok c \<Longrightarrow> queue_ok q is \<Longrightarrow> core_ok (set_queue q c)"
  by (auto simp: core_ok_def set_queue_def queue_of_def running_def)

lemma core_ok_queue: "core_ok c \<Longrightarrow> (\<And>is. queue_ok (queue_of c) is \<Longrightarrow> P) \<Longrightarrow> P"
  by (auto simp: core_ok_def)

lemma running_conn: "core_ok c \<Longrightarrow> running c \<Longrightarrow> conn c \<noteq> None"
  by (auto simp: core_ok_def running_def)

section \<open>Output\<close>

lemma append_ring_ok:
  assumes "ring_ok rb" "mqtt_output_check_space r rb" "unat r < 65530"
    "length bs = 1 + length (rl_bytes (unat r)) + unat r"
  shows "ring_ok (fold mqtt_ringbuf_put bs rb)" "ring_view (fold mqtt_ringbuf_put bs rb) = ring_view rb @ bs"
proof -
  have "length (rl_bytes (unat r)) \<le> 3" using rl_bytes_length [of "unat r"] assms(3) by simp
  then have "unat (mqtt_ringbuf_len rb) + length bs \<le> 256"
    using check_space_exact [of r rb] assms by simp
  then show "ring_ok (fold mqtt_ringbuf_put bs rb)" "ring_view (fold mqtt_ringbuf_put bs rb) = ring_view rb @ bs"
    using out.put_all [OF assms(1), of bs] by simp_all
qed

lemma client_send_safe [safe_rules]:
  assumes "core_ok c" "conn_state c \<noteq> TCP_DISCONNECTED"
  shows "safe (\<lambda>c'. core_ok c' \<and> conn_state c' = conn_state c) (client_send T c)"
proof -
  obtain p where p: "conn c = Some p" using assms by (cases "conn c") (simp_all add: core_ok_def)
  show ?thesis
    using assms output_send_ring_ok [of "out_rb c" T p]
    by (auto simp: client_send_def p Let_def case_prod_beta core_ok_def running_def queue_of_def)
qed

lemma core_ok_out: "core_ok c \<Longrightarrow> ring_ok rb \<Longrightarrow> core_ok (c\<lparr>out_rb := rb\<rparr>)"
  by (simp add: core_ok_def running_def queue_of_def)

lemma response_safe [safe_rules]:
  assumes "core_ok c" "conn_state c \<noteq> TCP_DISCONNECTED"
  shows "safe (\<lambda>(e, c'). core_ok c' \<and> conn_state c' = conn_state c) (pub_ack_rec_rel_response T m i q c)"
proof (cases "mqtt_output_check_space 2 (out_rb c)")
  case True
  have "ring_ok (fold mqtt_ringbuf_put (fixed_header_byte m 0 q 0 # rl_bytes 2 @ be16 i) (out_rb c))"
    using assms(1) True by (intro append_ring_ok(1) [where r = 2]) (simp_all add: core_ok_def)
  then have "core_ok (c\<lparr>out_rb := mqtt_output_append_u16 i (mqtt_output_append_fixed_header m 0 q 0 2 (out_rb c))\<rparr>)"
    using assms(1) by (intro core_ok_out) (simp_all add: output_append_fold)
  from client_send_safe [OF this, of T] show ?thesis
    using True assms(2) by (auto simp: pub_ack_rec_rel_response_def intro!: safe_rbind)
qed (use assms in \<open>simp add: pub_ack_rec_rel_response_def\<close>)

section \<open>Closing\<close>

lemma mqtt_close_safe [safe_rules]:
  assumes "ring_ok (out_rb c)" "\<exists>is. queue_ok (queue_of c) is" "timers c \<le> 1"
  shows "safe (\<lambda>c'. core_ok c' \<and> conn_state c' = TCP_DISCONNECTED \<and> rx_buffer c' = rx_buffer c) (mqtt_close T reason c)"
proof -
  obtain "is" where q: "queue_ok (queue_of c) is" using assms(2) by blast
  define c1 where "c1 = close_conn T c"
  have c1: "out_rb c1 = out_rb c" "queue_of c1 = queue_of c" "timers c1 = timers c" "conn c1 = None" "rx_buffer c1 = rx_buffer c"
    by (simp_all add: c1_def close_conn_def log_call_def queue_of_def split: option.splits)
  obtain q' where "mqtt_clear_requests (queue_of c) = Some q'" "queue_ok q' []"
    using clear_requests [of "fst (queue_of c)" "snd (queue_of c)" "is"] q by auto
  then show ?thesis
    using assms(1,3) c1 unfolding mqtt_close_def Let_def c1_def [symmetric]
    by (auto simp: core_ok_def running_def queue_of_def set_queue_def log_call_def split: option.splits)
qed

lemma core_ok_close [safe_rules]:
  "core_ok c \<Longrightarrow> safe (\<lambda>c'. core_ok c' \<and> conn_state c' = TCP_DISCONNECTED \<and> rx_buffer c' = rx_buffer c) (mqtt_close T reason c)"
  by (rule mqtt_close_safe) (auto simp: core_ok_def)

section \<open>Received messages\<close>

lemma release_slot:
  assumes "queue_ok (tail, rs) is" "k \<notin> set is"
  shows "queue_ok (tail, set_next k (Some k) rs) is"
proof -
  have "linked (set_next k (Some k) rs) tail is None = linked rs tail is None"
    using assms(2) by (intro linked_cong) (auto intro!: arg_cong [where f = rq_next] nth_set(5))
  moreover have "time_sum (set_next k (Some k) rs) is = time_sum rs is" by (rule time_sum_cong) simp
  ultimately show ?thesis using assms(1) by (simp add: queue_ok_def)
qed

lemma receive_connack_safe [safe_rules]:
  "core_ok c \<Longrightarrow> running c \<Longrightarrow> safe (\<lambda>(st, c'). core_ok c' \<and> running c') (receive_connack h c)"
  unfolding receive_connack_def
  by (auto intro!: safe_rbind [OF safe_rx_at] simp: Let_def core_ok_def running_def queue_of_def log_call_def split: option.splits)

lemma publish_topic_safe [safe_rules]:
  assumes "core_ok c" "running c"
  shows "safe (\<lambda>r. case r of None \<Rightarrow> True | Some (off, c') \<Rightarrow> core_ok c' \<and> running c') (publish_topic h q l r c)"
proof -
  have q: "safe (\<lambda>(off, c'). core_ok c' \<and> running c')
     (if q > 0 then rbind (rx_at c i) (\<lambda>ih. rbind (rx_at c j) (\<lambda>il. Inr (a, c\<lparr>inpub_pkt_id := word16 ih il\<rparr>)))
      else Inr (b, c\<lparr>inpub_pkt_id := 0\<rparr>))" for i j a b
    using assms by (auto intro!: safe_rbind [OF safe_rx_at])
  have fin: "safe (\<lambda>r. case r of None \<Rightarrow> True | Some (off, c') \<Rightarrow> core_ok c' \<and> running c')
     (rbind (rx_at c i) (\<lambda>bkp. Inr (Some (off, case pub_cb c of None \<Rightarrow> c | Some f \<Rightarrow> log_call (cs f) c))))"
    if "core_ok c" "running c" for c :: "'a mqtt_client" and i off cs
    using that by (intro safe_rbind [OF safe_rx_at]) (auto split: option.splits)
  show ?thesis
    unfolding publish_topic_def Let_def
  proof (rule safe_rbind [OF safe_rx_at], rule safe_rbind [OF safe_rx_at], rule if_both)
    show "safe (\<lambda>r. case r of None \<Rightarrow> True | Some (off, c') \<Rightarrow> core_ok c' \<and> running c') (Inr None)" by simp
  qed (rule safe_rbind [OF q], auto intro!: fin)
qed

lemma running_state: "conn_state c' = conn_state c \<Longrightarrow> running c' = running c"
  by (simp add: running_def)

lemma publish_data_safe [safe_rules]:
  assumes "core_ok c" "running c"
  shows "safe (\<lambda>c'. core_ok c' \<and> running c') (publish_data T h q off l r c)"
proof (cases "data_cb c")
  case (Some f)
  have "safe (\<lambda>(e, c'). core_ok c' \<and> conn_state c' = conn_state (log_call cs c)) (pub_ack_rec_rel_response T m i 0 (log_call cs c))" for cs m i
    using assms by (intro response_safe) (auto simp: running_def)
  then have "safe (\<lambda>(e, c'). core_ok c' \<and> running c') (pub_ack_rec_rel_response T m i 0 (log_call cs c))" for cs m i
    by (rule safe_mono) (use assms(2) in \<open>auto simp: running_def log_call_def\<close>)
  then show ?thesis
    using assms Some by (auto simp: publish_data_def Let_def intro!: safe_rbind)
qed (use assms in \<open>simp add: publish_data_def\<close>)

lemma receive_publish_safe [safe_rules]:
  assumes "core_ok c" "running c"
  shows "safe (\<lambda>(st, c'). core_ok c' \<and> running c') (receive_publish T h l r c)"
  unfolding receive_publish_def Let_def
proof (rule safe_rbind [OF safe_rx_at], rule safe_rbind [where Q = "\<lambda>x. case x of None \<Rightarrow> True | Some (off, c') \<Rightarrow> core_ok c' \<and> running c'"])
  fix b0
  show "safe (\<lambda>x. case x of None \<Rightarrow> True | Some (off, c') \<Rightarrow> core_ok c' \<and> running c')
     (if unat (msg_idx c) \<le> MQTT_VAR_HEADER_BUFFER_LEN then publish_topic h (MQTT_CTL_PACKET_QOS b0) l r c else Inr (Some (0, c)))"
    using assms publish_topic_safe by auto
  fix x :: "(u16 \<times> 'a mqtt_client) option"
  assume "case x of None \<Rightarrow> True | Some (off, c') \<Rightarrow> core_ok c' \<and> running c'"
  then show "safe (\<lambda>(st, c'). core_ok c' \<and> running c')
     (case x of None \<Rightarrow> Inr (MQTT_CONNECT_DISCONNECTED, c)
      | Some (off, c) \<Rightarrow> rbind (publish_data T h (MQTT_CTL_PACKET_QOS b0) off (l - off) r c) (\<lambda>c. Inr (MQTT_CONNECT_ACCEPTED, c)))"
    using assms by (auto intro!: safe_rbind [OF publish_data_safe] split: option.splits)
qed

text \<open>Taking a request out of the queue and releasing its slot.\<close>

lemma take_request_cases:
  assumes "queue_ok q is"
  obtains "mqtt_take_request i q = Some (None, q)"
    | xs k ys q' where "is = xs @ k # ys" "rq_pkt_id (snd q ! k) = i" "mqtt_take_request i q = Some (Some k, q')"
      "queue_ok (fst q', mqtt_delete_request (Some k) (snd q')) (xs @ ys)" "queue_ok q' (xs @ ys)"
      "\<forall>j. request_of (snd q' ! j) = request_of (snd q ! j)"
proof (cases "\<exists>j \<in> set is. rq_pkt_id (snd q ! j) = i")
  case False
  then show ?thesis using take_request_missing [of "fst q" "snd q" "is" i] assms by (intro that(1)) simp
next
  case True
  then obtain xs k ys where k: "is = xs @ k # ys" "rq_pkt_id (snd q ! k) = i" "\<forall>j \<in> set xs. rq_pkt_id (snd q ! j) \<noteq> i"
    using split_list_first_prop [of "is" "\<lambda>j. rq_pkt_id (snd q ! j) = i"] by blast
  obtain tail' rs' where t: "mqtt_take_request i (fst q, snd q) = Some (Some k, tail', rs')" "queue_ok (tail', rs') (xs @ ys)"
    "\<And>j. request_of (rs' ! j) = request_of (snd q ! j)"
    using take_request_found [of "fst q" "snd q" xs k ys i] assms k by (metis prod.collapse)
  have "k \<notin> set (xs @ ys)" using assms k(1) by (auto simp: queue_ok_def)
  then have "queue_ok (tail', mqtt_delete_request (Some k) rs') (xs @ ys)"
    using t(2) release_slot by (simp add: mqtt_delete_request_def)
  then show ?thesis using t k by (intro that(2) [of xs k ys "(tail', rs')"]) simp_all
qed

lemma running_not_disc: "running c \<Longrightarrow> conn_state c \<noteq> TCP_DISCONNECTED"
  by (auto simp: running_def)

lemma response_running_safe:
  assumes "core_ok c" "running c"
  shows "safe (\<lambda>(e, c'). core_ok c' \<and> running c') (pub_ack_rec_rel_response T m i q c)"
  using response_safe [OF assms(1) running_not_disc [OF assms(2)], of T m i q] assms(2)
  by (auto elim!: safe_mono simp: running_def)

lemma complete_request:
  assumes "core_ok c" "running c" "queue_ok (fst q, mqtt_delete_request (Some k) (snd q)) is"
  shows "core_ok ((log_call cs (set_queue q c))\<lparr>req_slots := mqtt_delete_request (Some k) (req_slots (log_call cs (set_queue q c)))\<rparr>)"
  using assms by (auto simp: core_ok_def running_def queue_of_def set_queue_def log_call_def)

lemma taken_request_safe:
  assumes "core_ok c" "running c"
  shows "safe (\<lambda>(st, c'). core_ok c' \<and> running c')
    (rbind (or_halt (mqtt_take_request i (queue_of c))) (\<lambda>(r, q).
       case r of
         None \<Rightarrow> Inr (MQTT_CONNECT_ACCEPTED, set_queue q c)
       | Some k \<Rightarrow> if bad then Inr (MQTT_CONNECT_DISCONNECTED, set_queue q c)
           else rbind (if sub then rbind (rx_at (set_queue q c) j) (\<lambda>res. Inr (f k q res)) else Inr (g k q)) (\<lambda>cs.
             Inr (MQTT_CONNECT_ACCEPTED, (log_call (req_calls cs) (set_queue q c))\<lparr>req_slots :=
               mqtt_delete_request (Some k) (req_slots (log_call (req_calls cs) (set_queue q c)))\<rparr>))))"
proof -
  obtain "is" where q: "queue_ok (queue_of c) is" using assms(1) by (auto simp: core_ok_def)
  then show ?thesis
  proof (cases rule: take_request_cases [where i = i])
    case 1
    then show ?thesis using assms q by (simp add: core_ok_set_queue)
  next
    case (2 xs k ys q')
    have cs: "safe (\<lambda>_. True) (if sub then rbind (rx_at (set_queue q' c) j) (\<lambda>res. Inr (f k q' res)) else Inr (g k q'))"
      by (auto intro!: safe_rbind [OF safe_rx_at])
    have "core_ok (set_queue q' c)" using assms(1) 2(5) by (rule core_ok_set_queue)
    then show ?thesis
      unfolding 2(3) or_halt_simps rbind_simps prod.case option.case
      using assms 2(4) by (intro if_both safe_rbind [OF cs]) (simp_all add: complete_request)
  qed
qed

lemma receive_response_safe [safe_rules]:
  assumes "core_ok c" "running c"
  shows "safe (\<lambda>(st, c'). core_ok c' \<and> running c') (receive_response T t h l c)"
proof -
  have a: "safe (\<lambda>(st, c'). core_ok c' \<and> running c')
      (rbind (pub_ack_rec_rel_response T m i q c) (\<lambda>(_, c). Inr (MQTT_CONNECT_ACCEPTED, c)))" for m i q
    by (rule safe_rbind [OF response_running_safe [OF assms]]) auto
  show ?thesis
    unfolding receive_response_def Let_def
    by (intro safe_rbind [OF safe_rx_at] if_both a taken_request_safe [OF assms, simplified case_prod_beta, simplified])
      (use assms in \<open>auto simp: case_prod_beta intro!: taken_request_safe [OF assms, simplified case_prod_beta]\<close>)
qed

lemma message_received_safe [safe_rules]:
  assumes "core_ok c" "running c"
  shows "safe (\<lambda>(st, c'). core_ok c' \<and> running c') (mqtt_message_received T h l r c)"
  unfolding mqtt_message_received_def Let_def
  using assms by (intro safe_rbind [OF safe_rx_at] if_both receive_connack_safe receive_publish_safe receive_response_safe) auto

section \<open>The parser\<close>

lemma header_byte_keeps:
  "header_byte inp hdr c = Inr (b, inp', c') \<Longrightarrow> core_ok c' = core_ok c \<and> running c' = running c"
  by (auto simp: header_byte_def rbind_Inr split: if_splits)

lemma header_byte_not_halt: "header_byte inp hdr c = Inl e \<Longrightarrow> e \<noteq> Halt"
  by (auto simp: header_byte_def rx_at_def split: if_splits)

definition conn_ok :: "'p mqtt_client \<Rightarrow> bool" where
  "conn_ok c \<longleftrightarrow> core_ok c \<and> running c \<and> length (rx_buffer c) = 128"

lemma message_received_conn_ok:
  assumes "conn_ok c"
  shows "safe (\<lambda>(st, c'). conn_ok c') (mqtt_message_received T h l r c)"
proof (cases "mqtt_message_received T h l r c")
  case (Inr x)
  then have "keeps_rx c (snd x)" by (cases x) (auto dest: message_received_keeps)
  then show ?thesis
    using Inr assms message_received_safe [of c T h l r] by (auto simp: conn_ok_def keeps_rx_def)
qed (use assms message_received_safe [of c T h l r] in \<open>auto simp: conn_ok_def\<close>)

lemma header_step_conn_ok:
  assumes "scanned s" "ps_inp s \<noteq> []" "conn_ok (ps_client s)"
  shows "case header_step T s of Done r \<Rightarrow> safe (\<lambda>(st, c'). conn_ok c') r | Next s' \<Rightarrow> conn_ok (ps_client s')"
proof (cases "header_byte (ps_inp s) (ps_hdr s) (ps_client s)")
  case (Inl e)
  then show ?thesis using header_byte_not_halt by (auto simp: header_step_def)
next
  case (Inr x)
  obtain b inp c where x: "x = (b, inp, c)" by (cases x)
  have c: "conn_ok c"
    using assms header_byte_keeps [OF Inr [unfolded x]] header_byte_props(1) [OF Inr [unfolded x] assms(1,2)]
    by (simp add: conn_ok_def)
  show ?thesis
    using message_received_conn_ok [OF c, of T "unat (ps_hdr s + 1)" 0 0] c
    by (auto simp: header_step_def Inr x Let_def conn_ok_def split: sum.splits)
qed

lemma body_step_conn_ok:
  assumes "scanned s" "bounded s" "\<not> in_header (ps_hdr s) (ps_b s)" "ps_inp s \<noteq> []" "conn_ok (ps_client s)"
  shows "case body_step T s of Done r \<Rightarrow> safe (\<lambda>(st, c'). conn_ok c') r | Next s' \<Rightarrow> conn_ok (ps_client s')"
proof (cases "unat (ps_hdr s) < 128")
  case True
  have c: "conn_ok (body_copy s)"
    using assms(5) body_props(8) [OF assms(1,3,4,2) True] by (simp add: conn_ok_def) (simp add: body_copy_def Let_def)
  show ?thesis
    using message_received_conn_ok [OF c, of T "unat (ps_hdr s)" "of_nat (body_start s + body_len s - unat (ps_hdr s))"
        "ps_rem s - of_nat (body_len s)"] c True
    by (auto simp: body_step_def after_copy_def MQTT_VAR_HEADER_BUFFER_LEN_def conn_ok_def split: sum.splits)
qed (simp add: body_step_def MQTT_VAR_HEADER_BUFFER_LEN_def)

lemma parse_loop_conn_ok:
  "scanned s \<Longrightarrow> bounded s \<Longrightarrow> conn_ok (ps_client s) \<Longrightarrow> \<exists>r. parse_loop T s = Some r \<and> safe (\<lambda>(st, c'). conn_ok c') r"
proof (induction "phi s" arbitrary: s rule: less_induct)
  case less
  have ok: "case parse_step T s of Done r \<Rightarrow> safe (\<lambda>(st, c'). conn_ok c') r | Next s' \<Rightarrow> conn_ok (ps_client s')"
    using less(2-4) header_step_conn_ok [of s T] body_step_conn_ok [of s T] by (simp add: parse_step_def)
  show ?case
  proof (cases "parse_step T s")
    case (Done r)
    then show ?thesis using ok by (simp add: parse_loop.simps [of T s])
  next
    case (Next s')
    then show ?thesis
      using ok less(1) [of s'] parse_step_inv [OF less(2,3) Next] by (simp add: parse_loop.simps [of T s])
  qed
qed

lemma parse_incoming_conn_ok:
  assumes "conn_ok c" "unat (msg_idx c) + length p < 2 ^ 32"
  shows "\<exists>r. mqtt_parse_incoming T p c = Some r \<and> safe (\<lambda>(st, c'). conn_ok c') r"
  using parse_loop_conn_ok [of "parse_start p c" T] assms
  by (simp add: mqtt_parse_incoming_def parse_start_def conn_ok_def scanned_reset bounded_def)

section \<open>TCP callbacks\<close>

lemma client_ok_close:
  "client_ok c \<Longrightarrow> safe client_ok (mqtt_close T reason c)"
  using core_ok_close [of c T reason] by (auto simp: client_ok_def elim!: safe_mono)

lemma recv_cb_safe:
  assumes "client_ok c" "running c" "\<forall>q. p = Some q \<longrightarrow> unat (msg_idx c) + length q < 2 ^ 32"
  shows "\<exists>r. mqtt_tcp_recv_cb T p err c = Some r \<and> safe (\<lambda>(e, c'). client_ok c') r"
proof (cases p)
  case None
  then show ?thesis
    using client_ok_close [OF assms(1), of T MQTT_CONNECT_DISCONNECTED]
    by (auto simp: mqtt_tcp_recv_cb_def intro!: safe_rbind)
next
  case (Some q)
  define c1 where "c1 = c\<lparr>conn := map_option (\<lambda>pcb. tcp_recved T pcb (length q)) (conn c)\<rparr>"
  have "conn_ok c1"
    using assms(1,2) by (auto simp: conn_ok_def client_ok_def core_ok_def c1_def running_def queue_of_def)
  then obtain r where r: "mqtt_parse_incoming T q c1 = Some r" "safe (\<lambda>(st, c'). conn_ok c') r"
    using parse_incoming_conn_ok [of c1 q T] assms(3) Some by (auto simp: c1_def)
  have "safe (\<lambda>c'. client_ok c') (if res \<noteq> MQTT_CONNECT_ACCEPTED then mqtt_close T res c' else Inr c')" if "conn_ok c'" for res c'
    using that client_ok_close [of c' T res] by (simp add: conn_ok_def client_ok_def [of c'])
  then have "safe (\<lambda>(e, c'). client_ok c') (rbind r (\<lambda>(res, c).
      rbind (if res \<noteq> MQTT_CONNECT_ACCEPTED then mqtt_close T res c else Inr c) (\<lambda>c.
        Inr (ERR_OK, if keep_alive c \<noteq> 0 then c\<lparr>server_watchdog := 0\<rparr> else c))))"
    by (intro safe_rbind [OF r(2)]) (auto intro!: safe_rbind simp: client_ok_def)
  then show ?thesis using assms(1) Some r(1) by (auto simp: mqtt_tcp_recv_cb_def c1_def [symmetric])
qed

lemma complete_qos0_ok:
  "core_ok c \<Longrightarrow> running c \<Longrightarrow> queue_ok (queue_of c) is \<Longrightarrow> length is < n \<Longrightarrow>
   \<exists>c'. complete_qos0 n c = Some c' \<and> core_ok c' \<and> conn_state c' = conn_state c \<and> rx_buffer c' = rx_buffer c"
proof (induction n arbitrary: c "is")
  case (Suc n)
  from Suc(4) show ?case
  proof (cases rule: take_request_cases [where i = 0])
    case 1
    then show ?thesis using Suc(2,4) by (simp add: core_ok_set_queue) (simp add: set_queue_def)
  next
    case (2 xs k ys q')
    define cs where "cs = req_calls (call_cb (req_slots (set_queue q' c) ! k) ERR_OK)"
    define c1 where "c1 = (log_call cs (set_queue q' c))\<lparr>req_slots := mqtt_delete_request (Some k) (req_slots (log_call cs (set_queue q' c)))\<rparr>"
    have "core_ok c1" unfolding c1_def by (rule complete_request [OF Suc(2,3) 2(4)])
    moreover have "queue_of c1 = (fst q', mqtt_delete_request (Some k) (snd q'))" "running c1"
      "conn_state c1 = conn_state c" "rx_buffer c1 = rx_buffer c"
      using Suc(3) by (simp_all add: c1_def queue_of_def set_queue_def log_call_def running_def)
    ultimately show ?thesis
      using Suc(1) [of c1 "xs @ ys"] Suc(5) 2(1,3,4) by (simp add: Let_def cs_def [symmetric] c1_def [symmetric])
  qed
qed simp

lemma sent_cb_safe:
  assumes "client_ok c"
  shows "safe (\<lambda>(e, c'). client_ok c') (mqtt_tcp_sent_cb T c)"
proof (cases "conn_state c = MQTT_CONNECTED")
  case True
  define c1 where "c1 = c\<lparr>cyclic_tick := 0, server_watchdog := 0\<rparr>"
  obtain "is" where q: "queue_ok (queue_of c1) is" using assms by (auto simp: client_ok_def core_ok_def c1_def queue_of_def)
  have c1: "core_ok c1" "running c1" using assms True by (simp_all add: client_ok_def c1_def core_ok_def running_def queue_of_def)
  have "length is < Suc MQTT_REQ_MAX_IN_FLIGHT" using queue_ok_length [OF q] q by (simp add: queue_ok_def)
  then obtain c2 where c2: "complete_qos0 (Suc MQTT_REQ_MAX_IN_FLIGHT) c1 = Some c2" "core_ok c2" "conn_state c2 = conn_state c1"
      "rx_buffer c2 = rx_buffer c1"
    using complete_qos0_ok [OF c1 q] by blast
  have "safe (\<lambda>c'. core_ok c' \<and> conn_state c' = conn_state c2) (client_send T c2)"
    using c2 True by (intro client_send_safe) (simp_all add: c1_def)
  moreover have "length (rx_buffer c') = 128" if "client_send T c2 = Inr c'" for c'
    using client_send_keeps [OF that] c2(4) assms by (simp add: keeps_rx_def c1_def client_ok_def)
  ultimately have "safe client_ok (client_send T c2)" by (cases "client_send T c2") (auto simp: client_ok_def)
  then show ?thesis
    using True c2(1) by (auto simp: mqtt_tcp_sent_cb_def c1_def [symmetric] intro!: safe_rbind)
qed (use assms in \<open>simp add: mqtt_tcp_sent_cb_def\<close>)

lemma client_send_client_ok:
  assumes "client_ok c" "conn_state c \<noteq> TCP_DISCONNECTED"
  shows "safe client_ok (client_send T c)"
proof (cases "client_send T c")
  case (Inr c')
  then show ?thesis
    using client_send_safe [of c T] client_send_keeps [OF Inr] assms by (simp add: client_ok_def keeps_rx_def)
qed (use client_send_safe [of c T] assms in \<open>simp add: client_ok_def\<close>)

lemma poll_cb_safe: "client_ok c \<Longrightarrow> safe (\<lambda>(e, c'). client_ok c') (mqtt_tcp_poll_cb T c)"
  by (auto simp: mqtt_tcp_poll_cb_def intro!: safe_rbind [OF client_send_client_ok])

lemma err_cb_safe:
  assumes "client_ok c"
  shows "safe client_ok (mqtt_tcp_err_cb T c)"
proof -
  have "safe (\<lambda>c'. core_ok c' \<and> conn_state c' = TCP_DISCONNECTED \<and> rx_buffer c' = rx_buffer (c\<lparr>conn := None\<rparr>))
      (mqtt_close T MQTT_CONNECT_DISCONNECTED (c\<lparr>conn := None\<rparr>))"
    using assms by (intro mqtt_close_safe) (auto simp: client_ok_def core_ok_def queue_of_def)
  then show ?thesis using assms by (auto simp: mqtt_tcp_err_cb_def client_ok_def elim!: safe_mono)
qed

lemma connect_cb_safe:
  assumes "client_ok c" "conn_state c = TCP_CONNECTING"
  shows "safe (\<lambda>(e, c'). client_ok c') (mqtt_tcp_connect_cb T err c)"
proof -
  have "client_ok (c\<lparr>msg_idx := 0,
      conn := map_option (\<lambda>p. tcp_poll T (tcp_sent T (tcp_recv T p True) True) True) (conn c),
      conn_state := MQTT_CONNECTING, timers := timers c + 1, cyclic_tick := 0\<rparr>)"
    using assms by (auto simp: client_ok_def core_ok_def running_def queue_of_def)
  from client_send_client_ok [OF this, of T] show ?thesis
    using assms(1) by (auto simp: mqtt_tcp_connect_cb_def intro!: safe_rbind)
qed

section \<open>The cyclic timer\<close>

text \<open>The state in the timer routine: the timeout that led to it is no longer pending.\<close>

definition ticking :: "bool \<Rightarrow> 'p mqtt_client \<Rightarrow> bool" where
  "ticking restart c \<longleftrightarrow> client_ok (if restart then c\<lparr>timers := timers c + 1\<rparr> else c)"

lemma ticking_parts:
  "ticking True c \<Longrightarrow> running c \<Longrightarrow> ring_ok (out_rb c) \<and> (\<exists>is. queue_ok (queue_of c) is) \<and> timers c = 0 \<and> length (rx_buffer c) = 128"
  by (auto simp: ticking_def client_ok_def core_ok_def queue_of_def running_def)

lemma close_ticking:
  assumes "ticking True c" "running c"
  shows "safe (ticking False) (mqtt_close T reason c)"
proof -
  note t = ticking_parts [OF assms]
  have "safe (\<lambda>c'. core_ok c' \<and> conn_state c' = TCP_DISCONNECTED \<and> rx_buffer c' = rx_buffer c) (mqtt_close T reason c)"
    using t by (intro mqtt_close_safe) simp_all
  then show ?thesis using t by (auto simp: ticking_def client_ok_def elim!: safe_mono)
qed

lemma ticking_updates:
  "ticking r (c\<lparr>cyclic_tick := w\<rparr>) = ticking r c" "ticking r (c\<lparr>server_watchdog := w\<rparr>) = ticking r c"
  "ticking r c \<Longrightarrow> ring_ok rb \<Longrightarrow> ticking r (c\<lparr>out_rb := rb\<rparr>)"
  "ticking r c \<Longrightarrow> ring_ok (out_rb c)"
  by (cases r; auto simp: ticking_def client_ok_def core_ok_def running_def queue_of_def)+

lemma keep_alive_safe:
  assumes "ticking True c" "running c"
  shows "safe (\<lambda>(restart, c'). ticking restart c') (keep_alive_tick T c)"
proof -
  define c1 where "c1 = c\<lparr>server_watchdog := server_watchdog c + 1\<rparr>"
  have c1: "ticking True c1" "running c1" using assms by (simp_all add: c1_def ticking_updates running_def)
  have w: "safe (\<lambda>(restart, c'). ticking restart c') (if b then rbind (mqtt_close T MQTT_CONNECT_TIMEOUT c1) (\<lambda>c. Inr (False, c)) else Inr (True, c1))" for b
    using c1 by (auto intro!: safe_rbind [OF close_ticking])
  have ping: "ticking r (c'\<lparr>out_rb := mqtt_output_append_fixed_header MQTT_MSG_TYPE_PINGREQ 0 0 0 0 (out_rb c')\<rparr>)"
    if "ticking r c'" "mqtt_output_check_space 0 (out_rb c')" for r and c' :: "'a mqtt_client"
  proof -
    have "ring_ok (fold mqtt_ringbuf_put (fixed_header_byte MQTT_MSG_TYPE_PINGREQ 0 0 0 # rl_bytes 0) (out_rb c'))"
      using that ticking_updates(4) by (intro append_ring_ok(1) [where r = 0]) simp_all
    then show ?thesis using that(1) by (intro ticking_updates(3)) (simp_all add: output_append_fold)
  qed
  show ?thesis
    unfolding keep_alive_tick_def Let_def c1_def [symmetric]
    by (rule safe_rbind [OF w]) (auto simp: ping ticking_updates)
qed

lemma timer_safe:
  assumes "client_ok c" "0 < timers c"
  shows "safe client_ok (mqtt_cyclic_timer T (c\<lparr>timers := timers c - 1\<rparr>))"
proof -
  define c0 where "c0 = c\<lparr>timers := timers c - 1\<rparr>"
  have r: "running c" using assms by (auto simp: client_ok_def core_ok_def split: if_splits)
  then have c0: "ticking True c0" "running c0"
    using assms by (auto simp: c0_def ticking_def client_ok_def core_ok_def running_def queue_of_def)
  have fin: "safe client_ok (rbind m (\<lambda>(restart, c). Inr (if restart then c\<lparr>timers := timers c + 1\<rparr> else c)))"
    if "safe (\<lambda>(restart, c'). ticking restart c') m" for m
    by (rule safe_rbind [OF that]) (auto simp: ticking_def)
  show ?thesis
  proof (cases "conn_state c0 = MQTT_CONNECTING")
    case True
    have c1: "ticking True (c0\<lparr>cyclic_tick := w\<rparr>)" "running (c0\<lparr>cyclic_tick := w\<rparr>)" for w
      using c0 by (simp_all add: ticking_updates running_def)
    show ?thesis
      unfolding mqtt_cyclic_timer_def c0_def [symmetric]
      using True c1 by (intro fin) (auto simp: Let_def intro!: safe_rbind [OF close_ticking])
  next
    case False
    then have st: "conn_state c0 = MQTT_CONNECTED" using c0(2) by (simp add: running_def)
    obtain "is" where q: "queue_ok (queue_of c0) is" using ticking_parts [OF c0] by blast
    obtain cs q' ys where e: "mqtt_request_time_elapsed (of_nat MQTT_CYCLIC_TIMER_INTERVAL) (queue_of c0) = Some (cs, q')" "queue_ok q' ys"
      using request_time_elapsed [of "fst (queue_of c0)" "snd (queue_of c0)" "is" "of_nat MQTT_CYCLIC_TIMER_INTERVAL"] q
      by (metis prod.collapse)
    define c1 where "c1 = log_call (req_calls cs) (set_queue q' c0)"
    have c1: "ticking True c1" "running c1"
      using c0 e(2) by (auto simp: c1_def ticking_def client_ok_def core_ok_def running_def queue_of_def set_queue_def log_call_def)
    show ?thesis
      unfolding mqtt_cyclic_timer_def c0_def [symmetric] using c1 keep_alive_safe [OF c1]
      by (intro fin) (simp add: st e(1) c1_def [symmetric] Let_def)
  qed
qed

section \<open>Requests of the application\<close>

text \<open>What an operation that sends the message \<open>bs\<close> and waits for its answer does: it either accepts the
  message, whose bytes then follow what was already in the output, and appends the request to the queue with
  the full timeout, or it reports that a resource is short and leaves the output alone.\<close>

definition accepted :: "'p tcp_ops \<Rightarrow> ('p \<Rightarrow> u8 list) \<Rightarrow> u8 list \<Rightarrow> nat option \<times> addr \<times> u16 \<Rightarrow> 'p mqtt_client \<Rightarrow> 'p mqtt_client \<Rightarrow> bool" where
  "accepted T snt bs rq c c' \<longleftrightarrow>
     (\<exists>p p'. conn c = Some p \<and> conn c' = Some p' \<and> snt p' @ ring_view (out_rb c') = snt p @ ring_view (out_rb c) @ bs) \<and>
     (\<exists>is i. i \<notin> set is \<and> queue_ok (queue_of c) is \<and> queue_ok (queue_of c') (is @ [i]) \<and>
       pending (req_slots c') 0 (is @ [i]) = pending (req_slots c) 0 is @ [(i, nat MQTT_REQ_TIMEOUT)] \<and>
       request_of (req_slots c' ! i) = rq)"

definition submitted :: "'p tcp_ops \<Rightarrow> ('p \<Rightarrow> u8 list) \<Rightarrow> u8 list \<Rightarrow> nat option \<times> addr \<times> u16 \<Rightarrow> 'p mqtt_client \<Rightarrow> (err_t \<times> 'p mqtt_client) result \<Rightarrow> bool" where
  "submitted T snt bs rq c m \<longleftrightarrow>
     (\<exists>c'. client_ok c' \<and> conn_state c' = conn_state c \<and>
       (m = Inr (ERR_OK, c') \<and> accepted T snt bs rq c c' \<or>
        m = Inr (ERR_MEM, c') \<and> out_rb c' = out_rb c \<and> conn c' = conn c))"

lemma client_send_stream:
  assumes "tcp_stream T snt" "ring_ok (out_rb c)" "conn c = Some p"
  shows "\<exists>rb p'. client_send T c = Inr (c\<lparr>out_rb := rb, conn := Some p'\<rparr>) \<and> ring_ok rb \<and>
    snt p' @ ring_view rb = snt p @ ring_view (out_rb c)"
  using output_send_stream [OF assms(1,2), of p] assms(3)
  by (cases "mqtt_output_send T (out_rb c) p") (auto simp: client_send_def)

lemma submit:
  fixes c :: "'p mqtt_client"
  assumes st: "tcp_stream T snt" and ok: "client_ok c" "conn_state c \<noteq> TCP_DISCONNECTED"
    and rq: "mqtt_create_request pkt_id cb arg (req_slots c) = (r, rs)"
    and len: "length bs = 1 + length (rl_bytes (unat n)) + unat n" "unat n < 65530"
    and rb: "rb = fold mqtt_ringbuf_put bs (out_rb c)"
  shows "submitted T snt bs (cb, arg, pkt_id) c
    (case r of
       None \<Rightarrow> Inr (ERR_MEM, c)
     | Some i \<Rightarrow>
         if \<not> mqtt_output_check_space n (out_rb c) then Inr (ERR_MEM, c\<lparr>req_slots := mqtt_delete_request (Some i) rs\<rparr>)
         else rbind (or_halt (mqtt_append_request i (pend_req_queue c, rs))) (\<lambda>q.
           rbind (client_send T ((set_queue q c)\<lparr>out_rb := rb\<rparr>)) (\<lambda>c. Inr (ERR_OK, c))))"
proof (cases r)
  case None
  then show ?thesis using ok by (auto simp: submitted_def)
next
  case (Some i)
  obtain p where p: "conn c = Some p" using ok by (cases "conn c") (simp_all add: client_ok_def core_ok_def)
  obtain "is" where q: "queue_ok (pend_req_queue c, req_slots c) is" using ok(1) by (auto simp: client_ok_def core_ok_def queue_of_def)
  note cr = create_request [OF q rq [unfolded Some]]
  show ?thesis
  proof (cases "mqtt_output_check_space n (out_rb c)")
    case False
    have "queue_ok (pend_req_queue c, mqtt_delete_request (Some i) rs) is"
      using release_slot [OF cr(4,1)] by (simp add: mqtt_delete_request_def)
    then have "client_ok (c\<lparr>req_slots := mqtt_delete_request (Some i) rs\<rparr>)"
      using ok(1) by (auto simp: client_ok_def core_ok_def queue_of_def)
    then show ?thesis using Some False by (auto simp: submitted_def)
  next
    case True
    have rok: "ring_ok rb" "ring_view rb = ring_view (out_rb c) @ bs"
      using append_ring_ok [of "out_rb c" n bs] ok(1) True len rb by (simp_all add: client_ok_def core_ok_def)
    obtain tail' rs' where a: "mqtt_append_request i (pend_req_queue c, rs) = Some (tail', rs')" "queue_ok (tail', rs') (is @ [i])"
        "pending rs' 0 (is @ [i]) = pending rs 0 is @ [(i, nat MQTT_REQ_TIMEOUT)]" "\<And>j. request_of (rs' ! j) = request_of (rs ! j)"
      using append_request [OF cr(4,1-3)] by metis
    define c1 where "c1 = (set_queue (tail', rs') c)\<lparr>out_rb := rb\<rparr>"
    obtain rb' p' where s: "client_send T c1 = Inr (c1\<lparr>out_rb := rb', conn := Some p'\<rparr>)" "ring_ok rb'"
        "snt p' @ ring_view rb' = snt p @ ring_view rb"
      using client_send_stream [OF st, of c1 p] rok(1) p by (auto simp: c1_def set_queue_def)
    let ?c' = "c1\<lparr>out_rb := rb', conn := Some p'\<rparr>"
    have "client_ok ?c'" using ok s(2) a(2) by (auto simp: c1_def client_ok_def core_ok_def queue_of_def set_queue_def running_def)
    moreover have "accepted T snt bs (cb, arg, pkt_id) c ?c'"
      unfolding accepted_def using p s(3) rok(2) q a(2-4) cr(1,5,6)
      by (auto simp: c1_def set_queue_def queue_of_def intro!: exI [of _ "is"] exI [of _ i])
    ultimately show ?thesis using Some True a(1) s(1) by (auto simp: submitted_def c1_def [symmetric]) (simp add: c1_def set_queue_def)
  qed
qed

lemma submitted_pkt_id [simp]:
  "submitted T snt bs rq (c\<lparr>pkt_id_seq := w\<rparr>) m = submitted T snt bs rq c m"
  by (simp add: submitted_def accepted_def queue_of_def)

lemma client_ok_pkt_id [simp]: "client_ok (c\<lparr>pkt_id_seq := w\<rparr>) = client_ok c"
  by (simp add: client_ok_def)

definition fresh_id :: "u16 \<Rightarrow> u16" where
  "fresh_id w = (if w + 1 = 0 then 1 else w + 1)"

lemma generate_packet_id: "msg_generate_packet_id c = (fresh_id (pkt_id_seq c), c\<lparr>pkt_id_seq := fresh_id (pkt_id_seq c)\<rparr>)"
  by (auto simp: msg_generate_packet_id_def fresh_id_def Let_def)

text \<open>The messages of MQTT 3.1.1 that the two operations send.\<close>

definition publish_bytes :: "u8 \<Rightarrow> u8 \<Rightarrow> u16 \<Rightarrow> u8 list \<Rightarrow> u8 list \<Rightarrow> u8 list" where
  "publish_bytes qos retain pkt_id topic payload =
     fixed_header_byte MQTT_MSG_TYPE_PUBLISH 0 qos retain #
       rl_bytes (2 + length topic + length payload + (if qos > 0 then 2 else 0)) @
       be16 (of_nat (length topic) :: u16) @ topic @ (if qos > 0 then be16 pkt_id else []) @ payload"

lemma publish_bytes_frame:
  "publish_bytes 0 retain i topic payload = publish_frame (fixed_header_byte MQTT_MSG_TYPE_PUBLISH 0 0 retain) topic payload"
  by (simp add: publish_bytes_def publish_frame_def)

definition subscribe_bytes :: "bool \<Rightarrow> u8 \<Rightarrow> u16 \<Rightarrow> u8 list \<Rightarrow> u8 list" where
  "subscribe_bytes sub qos pkt_id topic =
     fixed_header_byte (if sub then MQTT_MSG_TYPE_SUBSCRIBE else MQTT_MSG_TYPE_UNSUBSCRIBE) 0 1 0 #
       rl_bytes (length topic + 2 + 2 + (if sub then 1 else 0)) @
       be16 pkt_id @ be16 (of_nat (length topic) :: u16) @ topic @ (if sub then [min qos 2] else [])"

lemma unat_u16 [simp]: "n < 65536 \<Longrightarrow> unat (of_nat n :: u16) = n"
  by (simp add: unat_of_nat)

lemma be16_length [simp]: "length (be16 w) = 2"
  by (simp add: be16_def)

lemma publish_submits:
  assumes "tcp_stream T snt" "client_ok c" "conn_state c \<noteq> TCP_DISCONNECTED"
    "length (cstring topic) + length payload \<le> 65525"
  shows "submitted T snt (publish_bytes qos retain (fresh_id (pkt_id_seq c)) (cstring topic) payload)
    (cb, arg, if qos > 0 then fresh_id (pkt_id_seq c) else 0) c (mqtt_publish T topic payload qos retain cb arg c)"
proof -
  define t where "t = cstring topic"
  define pid where "pid = (if qos > 0 then fresh_id (pkt_id_seq c) else 0)"
  define c1 where "c1 = (if qos > 0 then c\<lparr>pkt_id_seq := fresh_id (pkt_id_seq c)\<rparr> else c)"
  define m where "m = 2 + length t + length payload + (if qos > 0 then 2 else 0)"
  define n :: u16 where "n = of_nat (2 + length t + length payload) + (if qos > 0 then 2 else 0)"
  obtain r rs where rq: "mqtt_create_request pid cb arg (req_slots c1) = (r, rs)" by fastforce
  have g: "(if qos > 0 then msg_generate_packet_id c else (0, c)) = (pid, c1)"
    by (simp add: pid_def c1_def generate_packet_id)
  have bound: "length t + length payload \<le> 65525" using assms(4) by (simp add: t_def)
  have nm: "n = of_nat m" by (simp add: n_def m_def)
  have un: "unat n = m" unfolding nm using bound by (intro unat_u16) (simp add: m_def)
  let ?bs = "publish_bytes qos retain (fresh_id (pkt_id_seq c)) t payload"
  let ?rb = "let rb = mqtt_output_append_fixed_header MQTT_MSG_TYPE_PUBLISH 0 qos retain n (out_rb c1);
                 rb = mqtt_output_append_string t (of_nat (length t)) rb;
                 rb = (if qos > 0 then mqtt_output_append_u16 pid rb else rb)
             in (if payload \<noteq> [] then mqtt_output_append_buf payload rb else rb)"
  have "submitted T snt ?bs (cb, arg, pid) c1
    (case r of
       None \<Rightarrow> Inr (ERR_MEM, c1)
     | Some i \<Rightarrow>
         if \<not> mqtt_output_check_space n (out_rb c1) then Inr (ERR_MEM, c1\<lparr>req_slots := mqtt_delete_request (Some i) rs\<rparr>)
         else rbind (or_halt (mqtt_append_request i (pend_req_queue c1, rs))) (\<lambda>q.
           rbind (client_send T ((set_queue q c1)\<lparr>out_rb := ?rb\<rparr>)) (\<lambda>c. Inr (ERR_OK, c))))"
  proof (rule submit [OF assms(1) _ _ rq])
    show "client_ok c1" "conn_state c1 \<noteq> TCP_DISCONNECTED" using assms(2,3) by (simp_all add: c1_def)
    show "length ?bs = 1 + length (rl_bytes (unat n)) + unat n" "unat n < 65530"
      using bound by (simp_all add: un publish_bytes_def m_def)
    show "?rb = fold mqtt_ringbuf_put ?bs (out_rb c1)"
      using bound by (simp add: Let_def output_append_fold un publish_bytes_def m_def pid_def)
  qed
  moreover have "mqtt_publish T topic payload qos retain cb arg c =
    (case r of
       None \<Rightarrow> Inr (ERR_MEM, c1)
     | Some i \<Rightarrow>
         if \<not> mqtt_output_check_space n (out_rb c1) then Inr (ERR_MEM, c1\<lparr>req_slots := mqtt_delete_request (Some i) rs\<rparr>)
         else rbind (or_halt (mqtt_append_request i (pend_req_queue c1, rs))) (\<lambda>q.
           rbind (client_send T ((set_queue q c1)\<lparr>out_rb := ?rb\<rparr>)) (\<lambda>c. Inr (ERR_OK, c))))"
    using assms(3) bound unfolding mqtt_publish_def t_def [symmetric]
    by (simp only: if_False assert_or_halt_def if_True Let_def g rq prod.case n_def cong: if_cong) (simp add: assert_or_halt_def)
  ultimately show ?thesis unfolding pid_def [symmetric] t_def [symmetric] by (simp add: c1_def split: if_splits)
qed

lemma sub_unsub_submits:
  assumes "tcp_stream T snt" "client_ok c" "conn_state c \<noteq> TCP_DISCONNECTED" "length (cstring topic) \<le> 65524" "qos < 3"
  shows "submitted T snt (subscribe_bytes sub qos (fresh_id (pkt_id_seq c)) (cstring topic))
    (cb, arg, fresh_id (pkt_id_seq c)) c (mqtt_sub_unsub T topic qos cb arg sub c)"
proof -
  define t where "t = cstring topic"
  define pid where "pid = fresh_id (pkt_id_seq c)"
  define c1 where "c1 = c\<lparr>pkt_id_seq := pid\<rparr>"
  define m where "m = length t + 2 + 2 + (if sub then 1 else 0)"
  define n :: u16 where "n = of_nat m"
  obtain r rs where rq: "mqtt_create_request pid cb arg (req_slots c1) = (r, rs)" by fastforce
  have g: "msg_generate_packet_id c = (pid, c1)" by (simp add: pid_def c1_def generate_packet_id)
  have bound: "length t \<le> 65524" using assms(4) by (simp add: t_def)
  have un: "unat n = m" unfolding n_def using bound by (intro unat_u16) (simp add: m_def)
  let ?bs = "subscribe_bytes sub qos pid t"
  let ?rb = "let rb = mqtt_output_append_fixed_header (if sub then MQTT_MSG_TYPE_SUBSCRIBE else MQTT_MSG_TYPE_UNSUBSCRIBE) 0 1 0 n (out_rb c1);
                 rb = mqtt_output_append_u16 pid rb;
                 rb = mqtt_output_append_string t (of_nat (length t)) rb
             in (if sub then mqtt_output_append_u8 (min qos 2) rb else rb)"
  let ?m = "case r of
       None \<Rightarrow> Inr (ERR_MEM, c1)
     | Some i \<Rightarrow>
         if \<not> mqtt_output_check_space n (out_rb c1) then Inr (ERR_MEM, c1\<lparr>req_slots := mqtt_delete_request (Some i) rs\<rparr>)
         else rbind (or_halt (mqtt_append_request i (pend_req_queue c1, rs))) (\<lambda>q.
           rbind (client_send T ((set_queue q c1)\<lparr>out_rb := ?rb\<rparr>)) (\<lambda>c. Inr (ERR_OK, c)))"
  have "submitted T snt ?bs (cb, arg, pid) c1 ?m"
  proof (rule submit [OF assms(1) _ _ rq])
    show "client_ok c1" "conn_state c1 \<noteq> TCP_DISCONNECTED" using assms(2,3) by (simp_all add: c1_def)
    show "length ?bs = 1 + length (rl_bytes (unat n)) + unat n" "unat n < 65530"
      using bound by (simp_all add: un subscribe_bytes_def m_def)
    show "?rb = fold mqtt_ringbuf_put ?bs (out_rb c1)"
      using bound by (simp add: Let_def output_append_fold un subscribe_bytes_def m_def)
  qed
  moreover have "mqtt_sub_unsub T topic qos cb arg sub c = ?m"
    using assms(3,5) bound unfolding mqtt_sub_unsub_def t_def [symmetric]
    by (simp only: if_False assert_or_halt_def if_True Let_def g rq prod.case n_def m_def cong: if_cong)
      (simp add: assert_or_halt_def)
  ultimately show ?thesis unfolding pid_def [symmetric] t_def [symmetric] by (simp add: c1_def)
qed

section \<open>Connecting and disconnecting\<close>

lemma disconnect_safe:
  assumes "client_ok c"
  shows "safe client_ok (mqtt_disconnect T c)"
proof -
  let ?c = "c\<lparr>conn_state := TCP_DISCONNECTED\<rparr>"
  have "safe (\<lambda>c'. core_ok c' \<and> conn_state c' = TCP_DISCONNECTED \<and> rx_buffer c' = rx_buffer ?c) (mqtt_close T 0 ?c)"
    using assms by (intro mqtt_close_safe) (auto simp: client_ok_def core_ok_def queue_of_def)
  then show ?thesis using assms by (auto simp: mqtt_disconnect_def client_ok_def elim!: safe_mono)
qed

lemma set_inpub_ok: "client_ok c \<Longrightarrow> client_ok (mqtt_set_inpub_callback pcb dcb arg c)"
  by (simp add: mqtt_set_inpub_callback_def client_ok_def)

lemma zero_client_ok: "client_ok zero_client"
proof -
  have "queue_ok (queue_of zero_client) []"
    by (simp add: zero_client_def queue_of_def queue_ok_def)
  then show ?thesis
    by (auto simp: client_ok_def core_ok_def zero_client_def running_def ring_ok_def zero_ring_def
        MQTT_VAR_HEADER_BUFFER_LEN_def MQTT_OUTPUT_RINGBUF_SIZE_def queue_of_def mqtt_ringbuf_len_def)
qed

text \<open>The arguments for which no assertion of \<open>mqtt_client_connect\<close> fails.\<close>

definition info_ok :: "mqtt_connect_client_info \<Rightarrow> bool" where
  "info_ok ci \<longleftrightarrow> length (cstring (ci_client_id ci)) \<le> 65000 \<and>
     (\<forall>t m. ci_will_topic ci = Some t \<and> ci_will_msg ci = Some m \<longrightarrow>
       length (cstring t) \<le> 255 \<and> cstring t \<noteq> [] \<and> length (cstring m) \<le> 255)"

definition will_bytes :: "u8 \<Rightarrow> u8 list \<Rightarrow> u8 list \<Rightarrow> u8 list" where
  "will_bytes flags t m = (if flags AND 0x04 \<noteq> 0 then be16 (of_nat (length t) :: u16) @ t @ be16 (of_nat (length m) :: u16) @ m else [])"

definition connect_bytes :: "u8 \<Rightarrow> u16 \<Rightarrow> u8 list \<Rightarrow> u8 list \<Rightarrow> u8 list \<Rightarrow> u8 list" where
  "connect_bytes flags ka client_id t m =
     fixed_header_byte MQTT_MSG_TYPE_CONNECT 0 0 0 # rl_bytes (12 + length client_id + length (will_bytes flags t m)) @
       be16 (4 :: u16) @ [0x4d, 0x51, 0x54, 0x54] @ [4, flags] @ be16 ka @
       be16 (of_nat (length client_id) :: u16) @ client_id @ will_bytes flags t m"

lemma connect_will_runs:
  assumes "info_ok ci"
  obtains wf t m where "connect_will ci = Inr (wf, t, m, 10 + length (will_bytes (wf OR 0x02) t m))"
    "length t \<le> 255" "length m \<le> 255"
proof (cases "\<exists>t m. ci_will_topic ci = Some t \<and> ci_will_msg ci = Some m")
  case True
  then obtain t m where tm: "ci_will_topic ci = Some t" "ci_will_msg ci = Some m" by blast
  have flags: "(0x04 OR x OR y OR 0x02) AND 0x04 \<noteq> (0 :: u8)" for x y
  proof
    assume "(0x04 OR x OR y OR 0x02) AND 0x04 = (0 :: u8)"
    then have "bit ((0x04 OR x OR y OR 0x02) AND 0x04 :: u8) 2 = bit (0 :: u8) 2" by simp
    then show False by (simp add: bit_simps)
  qed
  show thesis
    using assms tm
    by (intro that [of "0x04 OR push_bit 3 (ci_will_qos ci AND 3) OR (if ci_will_retain ci then 0x20 else 0)" "cstring t" "cstring m"])
      (auto simp: connect_will_def info_ok_def Let_def will_bytes_def flags [simplified or.assoc] or.assoc)
next
  case False
  then have "connect_will ci = Inr (0, [], [], 10)" by (auto simp: connect_will_def split: option.splits)
  then show thesis by (intro that [of 0 "[]" "[]"]) (simp_all add: will_bytes_def)
qed

lemma connect_message_fold:
  assumes "length client_id \<le> 65000" "length t \<le> 255" "length m \<le> 255"
    "n = of_nat (10 + length (will_bytes flags t m) + 2 + length client_id)"
  shows "connect_message flags ka client_id t m n rb = fold mqtt_ringbuf_put (connect_bytes flags ka client_id t m) rb"
    "length (connect_bytes flags ka client_id t m) = 1 + length (rl_bytes (unat n)) + unat n" "unat n < 65530"
proof -
  have w: "length (will_bytes flags t m) \<le> 514" using assms(2,3) by (simp add: will_bytes_def)
  have un: "unat n = 12 + length client_id + length (will_bytes flags t m)"
  proof -
    have "unat n = 10 + length (will_bytes flags t m) + 2 + length client_id"
      unfolding assms(4) using assms(1) w by (intro unat_u16) simp
    then show ?thesis by simp
  qed
  show "unat n < 65530" "length (connect_bytes flags ka client_id t m) = 1 + length (rl_bytes (unat n)) + unat n"
    using un w assms(1) by (simp_all add: connect_bytes_def)
  show "connect_message flags ka client_id t m n rb = fold mqtt_ringbuf_put (connect_bytes flags ka client_id t m) rb"
    using assms(1-3)
    by (simp add: connect_message_def Let_def output_append_fold connect_bytes_def un will_bytes_def)
qed

lemma wiped_ok:
  fixes c :: "'p mqtt_client"
  assumes "client_ok c" "conn_state c = TCP_DISCONNECTED"
    and c1_def: "c1 = (wipe c)\<lparr>connect_arg := arg, connect_cb := cb, keep_alive := ka,
     req_slots := mqtt_init_requests (req_slots (wipe c))\<rparr>"
  shows "client_ok c1" "conn_state c1 = TCP_DISCONNECTED" "ring_view (out_rb c1) = []"
proof -
  have z: "client_ok (zero_client :: 'p mqtt_client)" by (rule zero_client_ok)
  have t: "timers c = 0" using assms(1,2) by (simp add: client_ok_def core_ok_def running_def)
  have "queue_ok (None, mqtt_init_requests (req_slots (wipe c))) []"
    by (rule init_requests) (simp add: wipe_def zero_client_def)
  then show "client_ok c1" "conn_state c1 = TCP_DISCONNECTED"
    using z t by (auto simp: c1_def wipe_def client_ok_def core_ok_def running_def queue_of_def zero_client_def)
  show "ring_view (out_rb c1) = []"
    by (simp add: c1_def wipe_def zero_client_def zero_ring_def ring_view_def mqtt_ringbuf_len_def)
qed

lemma client_connect_safe:
  assumes "client_ok c" "info_ok ci"
  shows "safe (\<lambda>(e, c'). client_ok c') (mqtt_client_connect T cb arg ci c)"
proof (cases "conn_state c = TCP_DISCONNECTED")
  case True
  define c1 where "c1 = (wipe c)\<lparr>connect_arg := arg, connect_cb := cb, keep_alive := ci_keep_alive ci,
     req_slots := mqtt_init_requests (req_slots (wipe c))\<rparr>"
  have c1: "client_ok c1" "conn_state c1 = TCP_DISCONNECTED"
    by (intro wiped_ok(1,2) [OF assms(1) True c1_def])+
  obtain wf t m where w: "connect_will ci = Inr (wf, t, m, 10 + length (will_bytes (wf OR 0x02) t m))"
      "length t \<le> 255" "length m \<le> 255"
    using connect_will_runs [OF assms(2)] by metis
  define id where "id = cstring (ci_client_id ci)"
  have lid: "length id \<le> 65000" using assms(2) by (simp add: info_ok_def id_def)
  have wl: "length (will_bytes (wf OR 0x02) t m) \<le> 514" using w(2,3) by (simp add: will_bytes_def)
  define n :: u16 where "n = of_nat (10 + length (will_bytes (wf OR 0x02) t m) + 2 + length id)"
  note cm = connect_message_fold [OF lid w(2,3) n_def]
  have rb: "ring_ok (connect_message (wf OR 0x02) (ci_keep_alive ci) id t m n (out_rb c1))"
    if "mqtt_output_check_space n (out_rb c1)"
    unfolding cm(1) using that c1(1) cm(2,3) by (intro append_ring_ok(1)) (simp_all add: client_ok_def core_ok_def)
  have up: "client_ok (c1\<lparr>conn := Some p, conn_state := TCP_CONNECTING,
      out_rb := connect_message (wf OR 0x02) (ci_keep_alive ci) id t m n (out_rb c1)\<rparr>)"
    if "mqtt_output_check_space n (out_rb c1)" for p
    using c1 rb [OF that] by (auto simp: client_ok_def core_ok_def running_def queue_of_def)
  have "mqtt_client_connect T cb arg ci c =
      (if \<not> mqtt_output_check_space n (out_rb c1) then Inr (ERR_MEM, c1)
       else case tcp_new T of None \<Rightarrow> Inr (ERR_MEM, c1)
          | Some p \<Rightarrow> (let (err, p) = tcp_bind T p in if err \<noteq> ERR_OK then Inr (err, c1)
              else let (err, p) = tcp_connect T p in if err \<noteq> ERR_OK then Inr (err, c1)
              else Inr (ERR_OK, c1\<lparr>conn := Some (tcp_err T p True), conn_state := TCP_CONNECTING,
                out_rb := connect_message (wf OR 0x02) (ci_keep_alive ci) id t m n (out_rb c1)\<rparr>)))"
    using True lid wl unfolding mqtt_client_connect_def id_def [symmetric]
    by (simp add: w(1) n_def Let_def c1_def add.assoc cong: if_cong option.case_cong)
  then show ?thesis using c1(1) up by (auto simp: Let_def split: option.splits prod.splits)
qed (use assms in \<open>simp add: mqtt_client_connect_def\<close>)

end
