(* ===== verification/MqttRun.thy ===== *)
theory MqttRun
  imports MqttInv
begin

text \<open>
  The state machine of the MQTT client as a step relation, its reachable states, and the properties that hold in them.
\<close>

section \<open>The state machine\<close>

text \<open>One step of a client on the TCP stack \<open>T\<close>: a call of the application, an event of the connection that the TCP
  layer reports, or the timeout. The guards are what the callers guarantee: the TCP layer delivers data
  only to the callback that \<open>mqtt_tcp_connect_cb\<close> has registered, reports the connection once, and a timeout
  happens only if one was requested. A call that faults leads to no state.\<close>

inductive mqtt_step :: "'p tcp_ops \<Rightarrow> 'p mqtt_client \<Rightarrow> 'p mqtt_client \<Rightarrow> bool" for T where
  step_connect: "info_ok ci \<Longrightarrow> mqtt_client_connect T cb arg ci c = Inr (e, c') \<Longrightarrow> mqtt_step T c c'"
| step_disconnect: "mqtt_disconnect T c = Inr c' \<Longrightarrow> mqtt_step T c c'"
| step_inpub: "mqtt_step T c (mqtt_set_inpub_callback pcb dcb arg c)"
| step_publish: "length (cstring topic) + length payload \<le> 65525 \<Longrightarrow>
    mqtt_publish T topic payload qos retain cb arg c = Inr (e, c') \<Longrightarrow> mqtt_step T c c'"
| step_sub_unsub: "length (cstring topic) \<le> 65524 \<Longrightarrow> qos < 3 \<Longrightarrow>
    mqtt_sub_unsub T topic qos cb arg sub c = Inr (e, c') \<Longrightarrow> mqtt_step T c c'"
| step_connected: "conn_state c = TCP_CONNECTING \<Longrightarrow> mqtt_tcp_connect_cb T err c = Inr (e, c') \<Longrightarrow> mqtt_step T c c'"
| step_recv: "running c \<Longrightarrow> unat (msg_idx c) + length (case q of None \<Rightarrow> [] | Some bs \<Rightarrow> bs) < 2 ^ 32 \<Longrightarrow>
    mqtt_tcp_recv_cb T q err c = Some (Inr (e, c')) \<Longrightarrow> mqtt_step T c c'"
| step_sent: "running c \<Longrightarrow> mqtt_tcp_sent_cb T c = Inr (e, c') \<Longrightarrow> mqtt_step T c c'"
| step_poll: "running c \<Longrightarrow> mqtt_tcp_poll_cb T c = Inr (e, c') \<Longrightarrow> mqtt_step T c c'"
| step_err: "conn c = Some p \<Longrightarrow> mqtt_tcp_err_cb T c = Inr c' \<Longrightarrow> mqtt_step T c c'"
| step_timer: "0 < timers c \<Longrightarrow> mqtt_cyclic_timer T (c\<lparr>timers := timers c - 1\<rparr>) = Inr c' \<Longrightarrow> mqtt_step T c c'"

text \<open>Client states that are reachable from a fresh client.\<close>

inductive mqtt_reach :: "'p tcp_ops \<Rightarrow> 'p mqtt_client \<Rightarrow> bool" for T where
  reach_new: "mqtt_client_new True = Some c \<Longrightarrow> mqtt_reach T c"
| reach_step: "mqtt_reach T c \<Longrightarrow> mqtt_step T c c' \<Longrightarrow> mqtt_reach T c'"

lemma safe_Inr: "safe P m \<Longrightarrow> m = Inr x \<Longrightarrow> P x"
  by simp

lemma submitted_safe: "submitted T snt bs rq c m \<Longrightarrow> safe (\<lambda>(e, c'). client_ok c') m"
  by (auto simp: submitted_def)

text \<open>The stream of a connection is only an observer, so for safety any will do.\<close>

lemma publish_safe:
  assumes "tcp_stream T snt" "client_ok c" "length (cstring topic) + length payload \<le> 65525"
  shows "safe (\<lambda>(e, c'). client_ok c') (mqtt_publish T topic payload qos retain cb arg c)"
  using submitted_safe [OF publish_submits [OF assms(1,2) _ assms(3)]] assms(2)
  by (cases "conn_state c = TCP_DISCONNECTED") (simp_all add: mqtt_publish_def)

lemma sub_unsub_safe:
  assumes "tcp_stream T snt" "client_ok c" "length (cstring topic) \<le> 65524" "qos < 3"
  shows "safe (\<lambda>(e, c'). client_ok c') (mqtt_sub_unsub T topic qos cb arg sub c)"
  using submitted_safe [OF sub_unsub_submits [OF assms(1,2) _ assms(3,4)]] assms
  by (cases "conn_state c = TCP_DISCONNECTED") (simp_all add: mqtt_sub_unsub_def Let_def)

lemma mqtt_step_ok:
  assumes "mqtt_step T c c'" "tcp_stream T snt" "client_ok c"
  shows "client_ok c'"
  using assms(1)
proof cases
  case (step_connect ci cb arg e)
  with client_connect_safe [OF assms(3), of ci T cb arg] show ?thesis by simp
next
  case step_disconnect
  with disconnect_safe [OF assms(3), of T] show ?thesis by simp
next
  case (step_inpub pcb dcb arg)
  with set_inpub_ok [OF assms(3)] show ?thesis by simp
next
  case (step_publish topic payload qos retain cb arg e)
  with publish_safe [OF assms(2,3), of topic payload qos retain cb arg] show ?thesis by simp
next
  case (step_sub_unsub topic qos cb arg sub e)
  with sub_unsub_safe [OF assms(2,3), of topic qos cb arg sub] show ?thesis by simp
next
  case (step_connected err e)
  with connect_cb_safe [OF assms(3), of T err] show ?thesis by simp
next
  case (step_recv q err e)
  have "\<forall>p. q = Some p \<longrightarrow> unat (msg_idx c) + length p < 2 ^ 32" using step_recv(2) by auto
  with recv_cb_safe [OF assms(3) step_recv(1), of q T err] step_recv(3) show ?thesis by auto
next
  case (step_sent e)
  with sent_cb_safe [OF assms(3), of T] show ?thesis by simp
next
  case (step_poll e)
  with poll_cb_safe [OF assms(3), of T] show ?thesis by simp
next
  case (step_err p)
  with err_cb_safe [OF assms(3), of T] show ?thesis by simp
next
  case step_timer
  with timer_safe [OF assms(3), of T] show ?thesis by simp
qed

lemma mqtt_reach_ok: "mqtt_reach T c \<Longrightarrow> tcp_stream T snt \<Longrightarrow> client_ok c"
  by (induction rule: mqtt_reach.induct) (auto simp: mqtt_client_new_def zero_client_ok dest: mqtt_step_ok)

section \<open>The properties\<close>

text \<open>No call in the state halts on an assertion, follows a null connection or loops in a corrupted request queue.\<close>

definition never_halts :: "'p tcp_ops \<Rightarrow> 'p mqtt_client \<Rightarrow> bool" where
  "never_halts T c \<longleftrightarrow>
     (\<forall>ci cb arg. info_ok ci \<longrightarrow> mqtt_client_connect T cb arg ci c \<noteq> Inl Halt) \<and>
     mqtt_disconnect T c \<noteq> Inl Halt \<and>
     (\<forall>topic payload qos retain cb arg. length (cstring topic) + length payload \<le> 65525 \<longrightarrow>
       mqtt_publish T topic payload qos retain cb arg c \<noteq> Inl Halt) \<and>
     (\<forall>topic qos cb arg sub. length (cstring topic) \<le> 65524 \<and> qos < 3 \<longrightarrow> mqtt_sub_unsub T topic qos cb arg sub c \<noteq> Inl Halt) \<and>
     (\<forall>err. conn_state c = TCP_CONNECTING \<longrightarrow> mqtt_tcp_connect_cb T err c \<noteq> Inl Halt) \<and>
     (\<forall>bs err. running c \<and> unat (msg_idx c) + length bs < 2 ^ 32 \<longrightarrow>
       mqtt_tcp_recv_cb T (Some bs) err c \<notin> {None, Some (Inl Halt)}) \<and>
     mqtt_tcp_sent_cb T c \<noteq> Inl Halt \<and> mqtt_tcp_poll_cb T c \<noteq> Inl Halt \<and> mqtt_tcp_err_cb T c \<noteq> Inl Halt \<and>
     (0 < timers c \<longrightarrow> mqtt_cyclic_timer T (c\<lparr>timers := timers c - 1\<rparr>) \<noteq> Inl Halt)"

lemma safe_not_halt: "safe P m \<Longrightarrow> m \<noteq> Inl Halt"
  by auto

lemma ok_never_halts:
  assumes "tcp_stream T snt" "client_ok c"
  shows "never_halts T c"
proof -
  have "mqtt_tcp_recv_cb T (Some bs) err c \<notin> {None, Some (Inl Halt)}"
    if "running c" "unat (msg_idx c) + length bs < 2 ^ 32" for bs err
    using recv_cb_safe [OF assms(2) that(1), of "Some bs" T err] that(2) by auto
  then show ?thesis
    unfolding never_halts_def
    using safe_not_halt [OF client_connect_safe [OF assms(2)]] safe_not_halt [OF disconnect_safe [OF assms(2)]]
      safe_not_halt [OF publish_safe [OF assms]] safe_not_halt [OF sub_unsub_safe [OF assms]]
      safe_not_halt [OF connect_cb_safe [OF assms(2)]] safe_not_halt [OF sent_cb_safe [OF assms(2)]]
      safe_not_halt [OF poll_cb_safe [OF assms(2)]] safe_not_halt [OF err_cb_safe [OF assms(2)]]
      safe_not_halt [OF timer_safe [OF assms(2)]]
    by simp
qed


lemma zero_reach: "mqtt_reach T zero_client"
  by (rule reach_new) (simp add: mqtt_client_new_def)



definition connected_client :: "u8 list mqtt_client" where
  "connected_client = zero_client\<lparr>conn := Some [], conn_state := MQTT_CONNECTED, timers := 1,
     req_slots := mqtt_init_requests (req_slots (zero_client :: u8 list mqtt_client))\<rparr>"

lemma connected_client_ok: "client_ok connected_client"
proof -
  have "queue_ok (queue_of connected_client) []"
    using init_requests [of "req_slots (zero_client :: u8 list mqtt_client)"]
    by (simp add: connected_client_def queue_of_def zero_client_def)
  then show ?thesis
    using zero_client_ok by (auto simp: connected_client_def client_ok_def core_ok_def running_def zero_client_def)
qed


lemma publish_header:
  "MQTT_CTL_PACKET_TYPE (fixed_header_byte MQTT_MSG_TYPE_PUBLISH 0 0 retain) = MQTT_MSG_TYPE_PUBLISH"
  "MQTT_CTL_PACKET_QOS (fixed_header_byte MQTT_MSG_TYPE_PUBLISH 0 0 retain) = 0"
  by (rule byte_eqI, simp_all add: MQTT_CTL_PACKET_TYPE_def MQTT_CTL_PACKET_QOS_def fixed_header_byte_def msg_types bit_simps)+

lemma cstring_no_nul: "0 \<notin> set (cstring topic)"
  by (auto simp: cstring_def dest: set_takeWhileD)

lemma fold_put: "\<exists>b. fold mqtt_ringbuf_put bs rb = rb\<lparr>rb_put := rb_put rb + of_nat (length bs), rb_buf := b\<rparr>"
proof (induction bs arbitrary: rb)
  case (Cons x bs)
  obtain b where "fold mqtt_ringbuf_put bs (mqtt_ringbuf_put x rb) =
      (mqtt_ringbuf_put x rb)\<lparr>rb_put := rb_put (mqtt_ringbuf_put x rb) + of_nat (length bs), rb_buf := b\<rparr>"
    using Cons.IH by blast
  moreover have "rb_put (mqtt_ringbuf_put x rb) = rb_put rb + 1"
    "(mqtt_ringbuf_put x rb)\<lparr>rb_put := k, rb_buf := b\<rparr> = rb\<lparr>rb_put := k, rb_buf := b\<rparr>" for k
    by (simp_all add: mqtt_ringbuf_put_def)
  ultimately show ?case by (intro exI [of _ b]) (simp add: add.assoc)
next
  case Nil
  show ?case by (rule exI [of _ "rb_buf rb"]) simp
qed

lemma loop_tcp_sends: "\<exists>p'. mqtt_output_send loop_tcp (zero_ring\<lparr>rb_put := 8, rb_buf := b\<rparr>) p = (zero_ring\<lparr>rb_put := 8, rb_get := 8, rb_buf := b\<rparr>, p')"
  by (simp add: mqtt_output_send_def Let_def loop_tcp_def output_sent_def mqtt_ringbuf_len_def mqtt_ringbuf_linear_read_length_def
     mqtt_ringbuf_advance_get_idx_def MQTT_OUTPUT_RINGBUF_SIZE_def MQTT_RINGBUF_IDX_MASK_def mqtt_ringbuf_get_idx_def zero_ring_def)

lemma publish_example:
  obtains c' p' where "mqtt_publish loop_tcp [0x61] [1, 2, 3] 0 0 None 0 connected_client = Inr (ERR_OK, c')" "conn c' = Some p'"
    "ring_view (out_rb c') = []"
proof -
  obtain b where b: "fold mqtt_ringbuf_put (fixed_header_byte MQTT_MSG_TYPE_PUBLISH 0 0 0 # rl_bytes 6 @ be16 (1 :: u16) @ [0x61, 1, 2, 3]) zero_ring =
      zero_ring\<lparr>rb_put := 8, rb_buf := b\<rparr>"
    using fold_put [of "fixed_header_byte MQTT_MSG_TYPE_PUBLISH 0 0 0 # rl_bytes 6 @ be16 (1 :: u16) @ [0x61, 1, 2, 3]" zero_ring]
    by (auto simp: rl_bytes.simps [of 6] be16_def zero_ring_def)
  obtain p' where p': "mqtt_output_send loop_tcp (zero_ring\<lparr>rb_put := 8, rb_buf := b\<rparr>) [] = (zero_ring\<lparr>rb_put := 8, rb_get := 8, rb_buf := b\<rparr>, p')"
    using loop_tcp_sends by blast
  have sp: "mqtt_output_check_space 6 zero_ring"
    using check_space_exact [of 6 zero_ring] by (simp add: rl_bytes.simps [of 6] mqtt_ringbuf_len_def zero_ring_def)
  have "\<exists>c'. mqtt_publish loop_tcp [0x61] [1, 2, 3] 0 0 None 0 connected_client = Inr (ERR_OK, c') \<and>
      conn c' = Some p' \<and> out_rb c' = zero_ring\<lparr>rb_put := 8, rb_get := 8, rb_buf := b\<rparr>"
    by (simp add: mqtt_publish_def output_append_fold cstring_def sp b [simplified] Let_def client_send_def p'
      mqtt_create_request_def connected_client_def zero_client_def MQTT_REQ_MAX_IN_FLIGHT_def mqtt_init_requests_def upt_rec
      mqtt_append_request_def MQTT_REQ_TIMEOUT_def set_queue_def)
  then show thesis using that by (auto simp: ring_view_def mqtt_ringbuf_len_def)
qed




definition two_requests :: req_list where
  "two_requests =
     [\<lparr>rq_next = Some 0, rq_cb = None, rq_arg = 0, rq_pkt_id = 0, rq_timeout_diff = 0\<rparr>,
      \<lparr>rq_next = None, rq_cb = Some 8, rq_arg = 2, rq_pkt_id = 6, rq_timeout_diff = 20\<rparr>,
      \<lparr>rq_next = Some 1, rq_cb = Some 7, rq_arg = 1, rq_pkt_id = 5, rq_timeout_diff = 3\<rparr>,
      \<lparr>rq_next = Some 3, rq_cb = None, rq_arg = 0, rq_pkt_id = 0, rq_timeout_diff = 0\<rparr>]"


text \<open>C31. The space check adds up the length of a message in 16 bits. For the remaining lengths from 65532 on,
  which pass all assertions of \<open>mqtt_publish\<close>, the sum wraps: the check then passes whenever four bytes
  are free although the ring buffer holds 256 bytes only.\<close>

theorem check_space_wraps:
  assumes "65532 \<le> unat r" "4 \<le> mqtt_ringbuf_free rb"
  shows "mqtt_output_check_space r rb"
proof -
  have "unat r < 65536" using unsigned_less [where 'a = nat, of r] by simp
  then have l: "length (rl_bytes (unat r)) = 3"
    using assms(1) div_le_mono [of 65532 "unat r" 128] by (simp add: div_mult2_eq [symmetric] rl_bytes.simps [of "unat r"] rl_bytes.simps [of "unat r div 128"] rl_bytes.simps [of "unat r div 16384"] less_mult_imp_div_less)
  have "unat (1 + r + 3) = (4 + unat r) mod 65536" by (simp add: unat_word_ariths add.assoc)
  also have "\<dots> \<le> 4" using assms(1) \<open>unat r < 65536\<close> by (simp add: mod_if [of "4 + unat r"])
  finally have "uint (1 + r + 3) \<le> 4" by (simp add: uint_nat del: of_nat_unat)
  then show ?thesis using assms(2) by (simp add: mqtt_output_check_space_def count_length_bytes_eq l)
qed

theorem check_space_wraps_witness: "mqtt_output_check_space 65535 zero_ring"
proof (rule check_space_wraps)
  show "4 \<le> mqtt_ringbuf_free zero_ring"
    by (simp add: mqtt_ringbuf_free_def mqtt_ringbuf_len_def zero_ring_def MQTT_OUTPUT_RINGBUF_SIZE_def)
qed simp

end
