(* ===== verification/KQueue.thy ===== *)
theory KQueue
  imports Prelude
begin

text \<open>
  The thread queues of the kernel (\<^verbatim>\<open>os/rt/include/chschd.h\<close>): circular doubly linked lists through the
  \<open>queue\<close> field of the threads, with a header of the same shape, and the singly linked stacks of waiting
  threads. Nodes, that is headers and threads, are named by numbers; the two link fields of all nodes are two
  functions. The operations are the pointer assignments of the source; the
  lemmas show that on well-formed queues they are operations on lists. Semaphores, mutexes, condition variables,
  mailboxes and the ready list are all built on these queues.
\<close>

type_synonym node = nat

record links =
  qnext :: "node \<Rightarrow> node"
  qprev :: "node \<Rightarrow> node"

definition set_qnext :: "node \<Rightarrow> node \<Rightarrow> links \<Rightarrow> links" where
  "set_qnext n v l = l\<lparr>qnext := (qnext l)(n := v)\<rparr>"

definition set_qprev :: "node \<Rightarrow> node \<Rightarrow> links \<Rightarrow> links" where
  "set_qprev n v l = l\<lparr>qprev := (qprev l)(n := v)\<rparr>"

lemma set_link_simps [simp]:
  "qnext (set_qnext n v l) = (qnext l)(n := v)" "qprev (set_qnext n v l) = qprev l"
  "qprev (set_qprev n v l) = (qprev l)(n := v)" "qnext (set_qprev n v l) = qnext l"
  by (simp_all add: set_qnext_def set_qprev_def)

section \<open>Operations\<close>

definition list_init :: "node \<Rightarrow> links \<Rightarrow> links" where
  "list_init tlp l = set_qnext tlp tlp l"

definition list_isempty :: "node \<Rightarrow> links \<Rightarrow> bool" where
  "list_isempty tlp l \<longleftrightarrow> qnext l tlp = tlp"

definition list_notempty :: "node \<Rightarrow> links \<Rightarrow> bool" where
  "list_notempty tlp l \<longleftrightarrow> qnext l tlp \<noteq> tlp"

definition list_insert :: "node \<Rightarrow> node \<Rightarrow> links \<Rightarrow> links" where
  "list_insert tp tlp l = set_qnext tlp tp (set_qnext tp (qnext l tlp) l)"

definition list_remove :: "node \<Rightarrow> links \<Rightarrow> node \<times> links" where
  "list_remove tlp l = (let tp = qnext l tlp in (tp, set_qnext tlp (qnext l tp) l))"

definition queue_init :: "node \<Rightarrow> links \<Rightarrow> links" where
  "queue_init tqp l = set_qprev tqp tqp (set_qnext tqp tqp l)"

definition queue_isempty :: "node \<Rightarrow> links \<Rightarrow> bool" where
  "queue_isempty tqp l \<longleftrightarrow> qnext l tqp = tqp"

definition queue_notempty :: "node \<Rightarrow> links \<Rightarrow> bool" where
  "queue_notempty tqp l \<longleftrightarrow> qnext l tqp \<noteq> tqp"

text \<open>
  The search loop of the ordered insertions, \<open>do cp = cp->queue.next; while (cond(cp))\<close>. That it does not return
  is the value \<open>None\<close>.
\<close>

partial_function (option) queue_scan :: "(node \<Rightarrow> bool) \<Rightarrow> links \<Rightarrow> node \<Rightarrow> node option" where
  "queue_scan cond l cp = (let cp = qnext l cp in if cond cp then queue_scan cond l cp else Some cp)"

text \<open>The four assignments that link \<open>tp\<close> in before \<open>cp\<close>.\<close>

definition insert_on_prev :: "node \<Rightarrow> node \<Rightarrow> links \<Rightarrow> links" where
  "insert_on_prev tp cp l =
     (let l = set_qnext tp cp l;
          l = set_qprev tp (qprev l cp) l;
          l = set_qnext (qprev l tp) tp l
      in set_qprev cp tp l)"

definition queue_prio_insert :: "(node \<Rightarrow> nat) \<Rightarrow> node \<Rightarrow> node \<Rightarrow> links \<Rightarrow> links option" where
  "queue_prio_insert prio tp tqp l =
     map_option (\<lambda>cp. insert_on_prev tp cp l) (queue_scan (\<lambda>cp. cp \<noteq> tqp \<and> prio cp \<ge> prio tp) l tqp)"

definition queue_insert :: "node \<Rightarrow> node \<Rightarrow> links \<Rightarrow> links" where
  "queue_insert tp tqp l =
     (let l = set_qnext tp tqp l;
          l = set_qprev tp (qprev l tqp) l;
          l = set_qnext (qprev l tp) tp l
      in set_qprev tqp tp l)"

definition queue_fifo_remove :: "node \<Rightarrow> links \<Rightarrow> node \<times> links" where
  "queue_fifo_remove tqp l =
     (let tp = qnext l tqp;
          l = set_qnext tqp (qnext l tp) l
      in (tp, set_qprev (qnext l tqp) tqp l))"

definition queue_lifo_remove :: "node \<Rightarrow> links \<Rightarrow> node \<times> links" where
  "queue_lifo_remove tqp l =
     (let tp = qprev l tqp;
          l = set_qprev tqp (qprev l tp) l
      in (tp, set_qnext (qprev l tqp) tqp l))"

definition queue_dequeue :: "node \<Rightarrow> links \<Rightarrow> links" where
  "queue_dequeue tp l =
     (let l = set_qnext (qprev l tp) (qnext l tp) l
      in set_qprev (qnext l tp) (qprev l tp) l)"

section \<open>Well-formed queues\<close>

text \<open>The links lead from \<open>p\<close> through \<open>xs\<close> to \<open>q\<close> and back.\<close>

fun qlinked :: "links \<Rightarrow> node \<Rightarrow> node list \<Rightarrow> node \<Rightarrow> bool" where
  "qlinked l p [] q \<longleftrightarrow> qnext l p = q \<and> qprev l q = p"
| "qlinked l p (x # xs) q \<longleftrightarrow> qnext l p = x \<and> qprev l x = p \<and> qlinked l x xs q"

definition is_queue :: "links \<Rightarrow> node \<Rightarrow> node list \<Rightarrow> bool" where
  "is_queue l q xs \<longleftrightarrow> distinct (q # xs) \<and> qlinked l q xs q"

lemma qlinked_append: "qlinked l p (xs @ y # ys) q \<longleftrightarrow> qlinked l p xs y \<and> qlinked l y ys q"
  by (induction xs arbitrary: p) auto

lemma qlinked_cong:
  assumes "\<And>n. n = p \<or> n \<in> set xs \<Longrightarrow> qnext l' n = qnext l n" "\<And>n. n = q \<or> n \<in> set xs \<Longrightarrow> qprev l' n = qprev l n"
  shows "qlinked l' p xs q = qlinked l p xs q"
  using assms by (induction xs arbitrary: p) auto

lemma qlinked_last: "qlinked l p xs q \<Longrightarrow> qprev l q = last (p # xs)"
  by (induction xs arbitrary: p) auto

lemma qlinked_first: "qlinked l p xs q \<Longrightarrow> qnext l p = hd (xs @ [q])"
  by (cases xs) auto

lemma is_queue_frame:
  assumes "\<And>n. n = q \<or> n \<in> set xs \<Longrightarrow> qnext l' n = qnext l n \<and> qprev l' n = qprev l n"
  shows "is_queue l' q xs = is_queue l q xs"
  using qlinked_cong [of q xs l' l q] assms by (simp add: is_queue_def)

lemma is_queue_ends:
  assumes "is_queue l q xs"
  shows "qnext l q = hd (xs @ [q])" "qprev l q = last (q # xs)"
  using assms qlinked_first qlinked_last unfolding is_queue_def by blast+

lemma queue_isempty_iff: "is_queue l q xs \<Longrightarrow> queue_isempty q l \<longleftrightarrow> xs = []"
  by (cases xs) (auto simp: queue_isempty_def is_queue_def)

lemma queue_notempty_iff: "is_queue l q xs \<Longrightarrow> queue_notempty q l \<longleftrightarrow> xs \<noteq> []"
  using queue_isempty_iff by (simp add: queue_isempty_def queue_notempty_def)

lemma is_queue_init: "is_queue (queue_init q l) q []"
  by (simp add: is_queue_def queue_init_def)

section \<open>Insertion and removal\<close>

text \<open>A path with the same inner nodes that ends in another node.\<close>

lemma qlinked_redirect:
  assumes "qlinked l p xs c" "distinct (p # xs)"
    and "qnext l' (last (p # xs)) = t" "qprev l' t = last (p # xs)"
    and "\<And>n. n \<in> set (butlast (p # xs)) \<Longrightarrow> qnext l' n = qnext l n" "\<And>n. n \<in> set xs \<Longrightarrow> qprev l' n = qprev l n"
  shows "qlinked l' p xs t"
  using assms
proof (induction xs arbitrary: p)
  case (Cons x xs)
  have "qlinked l' x xs t" using Cons.prems by (intro Cons.IH) auto
  then show ?case using Cons.prems by auto
qed simp

lemma insert_on_prev_links:
  assumes "tp \<noteq> cp"
  shows "qnext (insert_on_prev tp cp l) = (qnext l)(tp := cp, qprev l cp := tp)"
    "qprev (insert_on_prev tp cp l) = (qprev l)(tp := qprev l cp, cp := tp)"
  using assms by (simp_all add: insert_on_prev_def Let_def)

lemma queue_dequeue_links:
  assumes "qprev l tp \<noteq> tp"
  shows "qnext (queue_dequeue tp l) = (qnext l)(qprev l tp := qnext l tp)"
    "qprev (queue_dequeue tp l) = (qprev l)(qnext l tp := qprev l tp)"
  using assms by (simp_all add: queue_dequeue_def Let_def)

lemma is_queue_parts:
  assumes "is_queue l q (xs @ ys)"
  shows "qlinked l q xs (hd (ys @ [q]))" "ys \<noteq> [] \<Longrightarrow> qlinked l (hd ys) (tl ys) q"
    "qprev l (hd (ys @ [q])) = last (q # xs)"
proof -
  show l: "qlinked l q xs (hd (ys @ [q]))" "ys \<noteq> [] \<Longrightarrow> qlinked l (hd ys) (tl ys) q"
    using assms by (cases ys; simp add: is_queue_def qlinked_append)+
  show "qprev l (hd (ys @ [q])) = last (q # xs)" using qlinked_last [OF l(1)] .
qed

lemma last_in: "last (q # xs) \<in> insert q (set xs)"
  by (metis last_in_set list.distinct(1) list.simps(15))

text \<open>Replacing the links between the two parts of a queue.\<close>

lemma splice_queue:
  assumes q: "qlinked l q xs c0" "ys \<noteq> [] \<Longrightarrow> qlinked l (hd ys) (tl ys) q" and d: "distinct (q # xs @ zs @ ys)"
    and e: "e = last (q # xs)" and c: "c = hd (ys @ [q])"
    and nx: "\<And>n. n \<noteq> e \<Longrightarrow> n \<notin> set zs \<Longrightarrow> qnext l' n = qnext l n"
    and pv: "\<And>n. n \<noteq> c \<Longrightarrow> n \<notin> set zs \<Longrightarrow> qprev l' n = qprev l n"
    and z: "qlinked l' e zs c"
  shows "is_queue l' q (xs @ zs @ ys)"
proof -
  have ein: "e \<in> insert q (set xs)" unfolding e by (rule last_in)
  have cin: "c \<in> insert q (set ys)" unfolding c by (cases ys) auto
  have bl: "n \<noteq> e \<and> n \<in> insert q (set xs)" if "n \<in> set (butlast (q # xs))" for n
    using that d unfolding e
    by (metis append_butlast_last_id append_Cons distinct.simps(2) distinct_append in_set_butlastD list.distinct(1)
        list.simps(15) not_distinct_conv_prefix)
  have left: "qlinked l' q xs t" if "qnext l' e = t" "qprev l' t = e" for t
    using q(1)
  proof (rule qlinked_redirect)
    show "distinct (q # xs)" using d by simp
    show "qnext l' (last (q # xs)) = t" "qprev l' t = last (q # xs)" using that e by auto
    show "qnext l' n = qnext l n" if "n \<in> set (butlast (q # xs))" for n using bl [OF that] d by (intro nx) auto
    show "qprev l' n = qprev l n" if "n \<in> set xs" for n using that d cin by (intro pv) auto
  qed
  have right: "qlinked l' y vs q" if "ys = y # vs" for y vs
  proof -
    have "qlinked l' y vs q = qlinked l y vs q"
      using d ein c that by (intro qlinked_cong nx pv) auto
    then show ?thesis using q(2) that by simp
  qed
  show ?thesis
  proof (cases "zs @ ys")
    case Nil
    then have "qlinked l' q xs q" using z c by (intro left) auto
    then show ?thesis using d Nil by (simp add: is_queue_def)
  next
    case (Cons y vs)
    have "qlinked l' e (zs @ ys) q"
      using z right c by (cases ys) (auto simp: qlinked_append)
    then have "qnext l' e = y" "qprev l' y = e" "qlinked l' y vs q" using Cons by auto
    then have "qlinked l' q (xs @ y # vs) q" using left by (simp add: qlinked_append)
    then show ?thesis using d Cons by (simp add: is_queue_def)
  qed
qed

lemma hd_in: "hd (ys @ [q]) \<in> insert q (set ys)"
  by (cases ys) auto

lemma insert_on_prev_queue:
  assumes q: "is_queue l q (xs @ ys)" and cp: "cp = hd (ys @ [q])" and t: "tp \<notin> set (q # xs @ ys)"
  shows "is_queue (insert_on_prev tp cp l) q (xs @ tp # ys)"
proof -
  have cpin: "cp \<in> insert q (set ys)" unfolding cp by (rule hd_in)
  have ne: "tp \<noteq> cp" "last (q # xs) \<noteq> tp" using t cpin last_in [of q xs] by auto
  have e: "qprev l cp = last (q # xs)" using is_queue_parts(3) [OF q] cp by simp
  note lk = insert_on_prev_links [OF ne(1), of l, unfolded e]
  have "is_queue (insert_on_prev tp cp l) q (xs @ [tp] @ ys)"
    using q t ne
    by (intro splice_queue [OF is_queue_parts(1,2) [OF q] _ refl cp]) (auto simp: is_queue_def lk simp del: last.simps)
  then show ?thesis by simp
qed

lemma queue_dequeue_queue:
  assumes q: "is_queue l q (xs @ tp # ys)"
  shows "is_queue (queue_dequeue tp l) q (xs @ ys)"
proof -
  have d: "distinct (q # xs @ tp # ys)" using q by (simp add: is_queue_def)
  have p: "qlinked l q xs tp" "qlinked l tp ys q" using q by (simp_all add: is_queue_def qlinked_append)
  have e: "qprev l tp = last (q # xs)" using qlinked_last [OF p(1)] .
  have c: "qnext l tp = hd (ys @ [q])" using qlinked_first [OF p(2)] .
  have ne: "qprev l tp \<noteq> tp" using e d last_in [of q xs] by auto
  note lk = queue_dequeue_links [OF ne]
  have "qlinked l (hd ys) (tl ys) q" if "ys \<noteq> []" using p(2) that by (cases ys) auto
  then have "is_queue (queue_dequeue tp l) q (xs @ [] @ ys)"
    using d by (intro splice_queue [OF p(1) _ _ e c]) (auto simp: lk)
  then show ?thesis by simp
qed

lemma queue_insert_eq: "queue_insert tp q l = insert_on_prev tp q l"
  by (simp add: queue_insert_def insert_on_prev_def)

lemma queue_insert_queue:
  assumes "is_queue l q xs" "tp \<notin> set (q # xs)"
  shows "is_queue (queue_insert tp q l) q (xs @ [tp])"
  using insert_on_prev_queue [of l q xs "[]" q tp] assms by (simp add: queue_insert_eq)

lemma queue_fifo_remove_eq:
  assumes "is_queue l q (tp # xs)"
  shows "queue_fifo_remove q l = (tp, queue_dequeue tp l)"
  using assms by (auto simp: queue_fifo_remove_def queue_dequeue_def is_queue_def Let_def)

lemma queue_lifo_remove_eq:
  assumes "is_queue l q (xs @ [tp])"
  shows "queue_lifo_remove q l = (tp, queue_dequeue tp l)"
proof -
  have p: "qnext l tp = q" "qprev l q = tp" "qprev l tp \<noteq> tp" "tp \<noteq> q"
    using assms last_in [of q xs] qlinked_last [of l q xs tp] by (auto simp: is_queue_def qlinked_append)
  then show ?thesis by (simp add: queue_lifo_remove_def queue_dequeue_def Let_def set_qnext_def set_qprev_def)
qed

section \<open>Ordered insertion\<close>

lemma queue_scan_list:
  assumes "qlinked l p xs q" "\<not> cond q"
  shows "queue_scan cond l p = Some (hd (dropWhile cond xs @ [q]))"
  using assms by (induction xs arbitrary: p) (subst queue_scan.simps, simp)+

text \<open>Insertion behind all elements that satisfy the condition of the search loop.\<close>

definition insert_after :: "(node \<Rightarrow> bool) \<Rightarrow> node \<Rightarrow> node list \<Rightarrow> node list" where
  "insert_after cond tp xs = takeWhile cond xs @ tp # dropWhile cond xs"

lemma insert_after_simps [simp]:
  "set (insert_after cond tp xs) = insert tp (set xs)" "distinct (insert_after cond tp xs) \<longleftrightarrow> tp \<notin> set xs \<and> distinct xs"
  "insert_after cond tp [] = [tp]" "length (insert_after cond tp xs) = Suc (length xs)"
proof -
  have u: "set (takeWhile cond xs) \<union> set (dropWhile cond xs) = set xs" by (metis set_append takeWhile_dropWhile_id)
  then show "set (insert_after cond tp xs) = insert tp (set xs)" by (auto simp: insert_after_def)
  have "distinct (takeWhile cond xs @ dropWhile cond xs) = distinct xs" by simp
  then show "distinct (insert_after cond tp xs) \<longleftrightarrow> tp \<notin> set xs \<and> distinct xs"
    using u by (auto simp: insert_after_def simp del: takeWhile_dropWhile_id)
  have "length (takeWhile cond xs @ dropWhile cond xs) = length xs" by simp
  then show "length (insert_after cond tp xs) = Suc (length xs)"
    by (simp add: insert_after_def del: takeWhile_dropWhile_id)
qed (simp add: insert_after_def)

lemma scan_insert_queue:
  assumes "is_queue l q xs" "\<not> cond q" "tp \<notin> set (q # xs)"
  shows "\<exists>cp. queue_scan cond l q = Some cp \<and> tp \<noteq> cp \<and> is_queue (insert_on_prev tp cp l) q (insert_after cond tp xs)"
proof -
  let ?cp = "hd (dropWhile cond xs @ [q])"
  have "is_queue (insert_on_prev tp ?cp l) q (takeWhile cond xs @ tp # dropWhile cond xs)"
    by (rule insert_on_prev_queue [OF _ refl]) (use assms in \<open>auto dest: set_takeWhileD set_dropWhileD\<close>)
  moreover have "queue_scan cond l q = Some ?cp"
    using assms(1,2) by (intro queue_scan_list) (simp_all add: is_queue_def)
  moreover have "?cp \<in> insert q (set xs)"
    using hd_in [of "dropWhile cond xs" q] set_dropWhileD [of _ cond xs] by auto
  ultimately show ?thesis using assms(3) by (auto simp: insert_after_def)
qed

section \<open>A system of queues\<close>

text \<open>
  The nodes of the kernel form several queues with headers \<open>H\<close>, no node being in two of them. \<open>Q\<close> gives the
  elements of each queue: the abstract state that the links implement. Each operation on the links is
  one on \<open>Q\<close>, and leaves the other queues alone.
\<close>

definition members :: "(node \<Rightarrow> node list) \<Rightarrow> node \<Rightarrow> node set" where
  "members Q h = insert h (set (Q h))"

definition queues :: "links \<Rightarrow> node set \<Rightarrow> (node \<Rightarrow> node list) \<Rightarrow> bool" where
  "queues l H Q \<longleftrightarrow> (\<forall>h \<in> H. is_queue l h (Q h)) \<and> (\<forall>h \<in> H. \<forall>h' \<in> H. h \<noteq> h' \<longrightarrow> members Q h \<inter> members Q h' = {})"

text \<open>A node in none of the queues.\<close>

definition loose :: "node set \<Rightarrow> (node \<Rightarrow> node list) \<Rightarrow> node \<Rightarrow> bool" where
  "loose H Q t \<longleftrightarrow> (\<forall>h \<in> H. t \<notin> members Q h)"

lemma queuesD: "queues l H Q \<Longrightarrow> h \<in> H \<Longrightarrow> is_queue l h (Q h)"
  by (simp add: queues_def)

lemma queues_distinct: "queues l H Q \<Longrightarrow> h \<in> H \<Longrightarrow> distinct (h # Q h)"
  by (auto simp: queues_def is_queue_def)

lemma queues_update:
  assumes "queues l H Q" "h \<in> H" "is_queue l' h xs"
    and "\<And>n. n \<notin> members Q h \<Longrightarrow> n \<notin> T \<Longrightarrow> qnext l' n = qnext l n \<and> qprev l' n = qprev l n"
    and "set xs \<subseteq> set (Q h) \<union> T" "\<And>t. t \<in> T \<Longrightarrow> loose H Q t"
  shows "queues l' H (Q(h := xs))"
proof -
  have dj: "members Q k \<inter> members Q k' = {}" if "k \<in> H" "k' \<in> H" "k \<noteq> k'" for k k'
    using assms(1) that by (simp add: queues_def)
  have dT: "T \<inter> members Q k = {}" if "k \<in> H" for k using assms(6) that by (auto simp: loose_def)
  have m: "members (Q(h := xs)) h \<subseteq> members Q h \<union> T" "k \<noteq> h \<Longrightarrow> members (Q(h := xs)) k = members Q k" for k
    using assms(5) by (auto simp: members_def)
  have other: "is_queue l' k (Q k)" if k: "k \<in> H" "k \<noteq> h" for k
  proof -
    have "qnext l' n = qnext l n \<and> qprev l' n = qprev l n" if "n = k \<or> n \<in> set (Q k)" for n
    proof (rule assms(4))
      have "n \<in> members Q k" using that by (auto simp: members_def)
      then show "n \<notin> members Q h" "n \<notin> T" using dj [OF k(1) assms(2) k(2)] dT [OF k(1)] by auto
    qed
    then have "is_queue l' k (Q k) = is_queue l k (Q k)" by (rule is_queue_frame)
    then show ?thesis using assms(1) k by (simp add: queues_def)
  qed
  have h: "members (Q(h := xs)) h \<inter> members (Q(h := xs)) k = {}" if "k \<in> H" "k \<noteq> h" for k
    using m(1) m(2) [OF that(2)] dj [OF assms(2) that(1)] dT [OF that(1)] that(2) by blast
  have "members (Q(h := xs)) k \<inter> members (Q(h := xs)) k' = {}" if "k \<in> H" "k' \<in> H" "k \<noteq> k'" for k k'
  proof (cases "k = h \<or> k' = h")
    case True
    then show ?thesis using h [of k] h [of k'] that by (metis Int_commute)
  next
    case False
    then show ?thesis using dj that m(2) by simp
  qed
  then show ?thesis using other assms(3) by (simp add: queues_def)
qed

lemma insert_frame:
  assumes "queues l H Q" "h \<in> H" "cp \<in> members Q h" "tp \<noteq> cp" "n \<notin> members Q h" "n \<noteq> tp"
  shows "qnext (insert_on_prev tp cp l) n = qnext l n \<and> qprev (insert_on_prev tp cp l) n = qprev l n"
proof -
  have "qprev l cp \<in> members Q h"
  proof (cases "cp = h")
    case True
    then show ?thesis using is_queue_ends(2) [OF queuesD [OF assms(1,2)]] last_in [of h "Q h"] by (simp add: members_def)
  next
    case False
    then obtain xs ys where Q: "Q h = xs @ cp # ys" using assms(3) by (auto simp: members_def dest: split_list)
    then have "qprev l cp = last (h # xs)" using is_queue_parts(3) [of l h xs "cp # ys"] queuesD [OF assms(1,2)] by simp
    then show ?thesis using last_in [of h xs] Q by (auto simp: members_def simp del: last.simps)
  qed
  then show ?thesis using assms(3-6) by (auto simp: insert_on_prev_links)
qed

lemma dequeue_frame:
  assumes "queues l H Q" "h \<in> H" "tp \<in> set (Q h)" "n \<notin> members Q h"
  shows "qnext (queue_dequeue tp l) n = qnext l n \<and> qprev (queue_dequeue tp l) n = qprev l n"
proof -
  obtain xs ys where Q: "Q h = xs @ tp # ys" using assms(3) by (auto dest: split_list)
  have q: "is_queue l h (xs @ tp # ys)" using queuesD [OF assms(1,2)] Q by simp
  have "qprev l tp = last (h # xs)" using is_queue_parts(3) [OF q] by simp
  moreover have "qnext l tp = hd (ys @ [h])" using q by (auto simp: is_queue_def qlinked_append qlinked_first)
  moreover have "qprev l tp \<noteq> tp" using calculation(1) last_in [of h xs] q by (auto simp: is_queue_def simp del: last.simps)
  ultimately show ?thesis
    using assms(4) Q last_in [of h xs] hd_in [of ys h] by (auto simp: queue_dequeue_links members_def simp del: last.simps)
qed

lemma queues_scan_insert:
  assumes "queues l H Q" "h \<in> H" "loose H Q tp" "\<not> cond h"
  obtains cp where "queue_scan cond l h = Some cp" "queues (insert_on_prev tp cp l) H (Q(h := insert_after cond tp (Q h)))"
proof -
  have t: "tp \<notin> set (h # Q h)" using assms(2,3) by (auto simp: loose_def members_def)
  obtain cp where cp: "queue_scan cond l h = Some cp" "tp \<noteq> cp" "is_queue (insert_on_prev tp cp l) h (insert_after cond tp (Q h))"
    using scan_insert_queue [of l h "Q h" cond tp] queuesD [OF assms(1,2)] assms(4) t by blast
  have "cp \<in> members Q h"
    using queue_scan_list [of l h "Q h" h cond] cp(1) queuesD [OF assms(1,2)] assms(4) hd_in [of "dropWhile cond (Q h)" h]
    by (auto simp: is_queue_def members_def dest: set_dropWhileD)
  then have "queues (insert_on_prev tp cp l) H (Q(h := insert_after cond tp (Q h)))"
    using assms cp(2,3)
    by (intro queues_update [OF assms(1,2), where T = "{tp}"] insert_frame [OF assms(1,2)]) auto
  then show thesis using that cp(1) by blast
qed

lemma queues_insert:
  assumes "queues l H Q" "h \<in> H" "loose H Q tp"
  shows "queues (queue_insert tp h l) H (Q(h := Q h @ [tp]))"
proof -
  have t: "tp \<notin> set (h # Q h)" using assms(2,3) by (auto simp: loose_def members_def)
  have "is_queue (queue_insert tp h l) h (Q h @ [tp])" by (rule queue_insert_queue [OF queuesD [OF assms(1,2)] t])
  then show ?thesis
    using assms t unfolding queue_insert_eq
    by (intro queues_update [OF assms(1,2), where T = "{tp}"] insert_frame [OF assms(1,2)]) (auto simp: members_def)
qed

lemma queues_dequeue:
  assumes "queues l H Q" "h \<in> H" "tp \<in> set (Q h)"
  shows "queues (queue_dequeue tp l) H (Q(h := remove1 tp (Q h)))"
proof -
  obtain xs ys where Q: "Q h = xs @ tp # ys" "tp \<notin> set xs" using assms(3) by (auto dest: split_list_first)
  have "is_queue (queue_dequeue tp l) h (xs @ ys)" using queue_dequeue_queue queuesD [OF assms(1,2)] Q by simp
  then have "queues (queue_dequeue tp l) H (Q(h := xs @ ys))"
    using assms Q by (intro queues_update [OF assms(1,2), where T = "{}"] dequeue_frame [OF assms]) auto
  then show ?thesis using Q by (simp add: remove1_append)
qed

lemma queues_fifo:
  assumes "queues l H Q" "h \<in> H" "Q h = tp # xs"
  shows "queue_fifo_remove h l = (tp, queue_dequeue tp l)" "queues (queue_dequeue tp l) H (Q(h := xs))"
  using queue_fifo_remove_eq queuesD [OF assms(1,2)] queues_dequeue [OF assms(1,2), of tp] assms(3) by simp_all

lemma queues_lifo:
  assumes "queues l H Q" "h \<in> H" "Q h = xs @ [tp]"
  shows "queue_lifo_remove h l = (tp, queue_dequeue tp l)" "queues (queue_dequeue tp l) H (Q(h := xs))"
  using queue_lifo_remove_eq queuesD [OF assms(1,2)] queues_dequeue [OF assms(1,2), of tp]
    queues_distinct [OF assms(1,2)] assms(3) by (simp_all add: remove1_append)

lemma loose_after:
  assumes "queues l H Q" "h \<in> H" "t \<in> set (Q h)"
  shows "loose H (Q(h := remove1 t (Q h))) t"
proof -
  have "t \<notin> members Q k" if "k \<in> H" "k \<noteq> h" for k
    using assms that by (auto simp: queues_def members_def)
  then show ?thesis using queues_distinct [OF assms(1,2)] assms(3) by (auto simp: loose_def members_def)
qed

end
