(* ===== verification/KVt.thy ===== *)
theory KVt
  imports KQueue ChTime Fault
begin

text \<open>
  The virtual timers of the kernel (\<^verbatim>\<open>os/rt/src/chvt.c\<close> and \<^verbatim>\<open>os/rt/include/chvt.h\<close>) in the tickless
  configuration: a circular doubly linked list ordered by expiry in which every timer stores the time from its
  predecessor, with a header whose delta is the largest interval and ends every search, the time of the last event and
  the alarm programmed in the hardware timer. Timers are numbered; a callback is its kind and its parameter. The value
  of the hardware counter is a parameter \<open>now\<close> of the operations that read it.
\<close>

definition CH_CFG_ST_TIMEDELTA :: sysinterval where "CH_CFG_ST_TIMEDELTA = 2"

datatype vtfunc = Wakeup | UserFunc nat

record vtlist =
  vlinks :: links
  delta :: "node \<Rightarrow> sysinterval"
  vfunc :: "node \<Rightarrow> (vtfunc \<times> node) option"
  lasttime :: systime
  alarm :: "systime option"

definition VTL :: node where "VTL = 0"

definition vt_empty :: "vtlist \<Rightarrow> bool" where
  "vt_empty v \<longleftrightarrow> qnext (vlinks v) VTL = VTL"

definition vt_init :: "vtlist \<Rightarrow> vtlist" where
  "vt_init v = v\<lparr>vlinks := queue_init VTL (vlinks v), delta := (delta v)(VTL := -1), lasttime := 0\<rparr>"

text \<open>The search loop of \<open>chVTDoSetI\<close>: the position and the rest of the delay.\<close>

partial_function (option) vt_scan :: "vtlist \<Rightarrow> node \<Rightarrow> node \<Rightarrow> sysinterval \<Rightarrow> (node \<times> sysinterval) result option" where
  "vt_scan v vtp p d =
     (if delta v p < d then if p = vtp then Some (Inl Halt) else vt_scan v vtp (qnext (vlinks v) p) (d - delta v p)
      else Some (Inr (p, d)))"

definition vt_insert :: "node \<Rightarrow> node \<Rightarrow> sysinterval \<Rightarrow> vtlist \<Rightarrow> vtlist" where
  "vt_insert vtp p d v =
     v\<lparr>vlinks := insert_on_prev vtp p (vlinks v), delta := (delta v)(vtp := d, p := delta v p - d, VTL := -1)\<rparr>"

definition chVTDoSetI :: "node \<Rightarrow> sysinterval \<Rightarrow> vtfunc \<Rightarrow> node \<Rightarrow> systime \<Rightarrow> vtlist \<Rightarrow> vtlist result" where
  "chVTDoSetI vtp delay f par now v =
     rbind (assert_or_halt (delay \<noteq> TIME_IMMEDIATE)) (\<lambda>_.
       let v = v\<lparr>vfunc := (vfunc v)(vtp := Some (f, par))\<rparr>;
           delay = (if delay < CH_CFG_ST_TIMEDELTA then CH_CFG_ST_TIMEDELTA else delay)
       in if vt_empty v then
            let l = set_qprev VTL vtp (set_qnext VTL vtp (vlinks v));
                l = set_qprev vtp VTL (set_qnext vtp VTL l)
            in Inr (v\<lparr>lasttime := now, vlinks := l, delta := (delta v)(vtp := delay), alarm := Some (chTimeAddX now delay)\<rparr>)
          else
            let p = qnext (vlinks v) VTL; e = chTimeDiffX (lasttime v) now; d = e + delay;
                (p, d, v) =
                  (if d < e then (qnext (vlinks v) p, d - delta v p, v)
                   else (p, d, if d < delta v p then v\<lparr>alarm := Some (chTimeAddX (lasttime v) d)\<rparr> else v))
            in rbind (rbind (or_fault Diverge (vt_scan v vtp p d)) (\<lambda>r. r)) (\<lambda>(p, d). Inr (vt_insert vtp p d v)))"

text \<open>The next alarm after the first timer has been removed.\<close>

definition next_alarm :: "systime \<Rightarrow> vtlist \<Rightarrow> vtlist" where
  "next_alarm now v =
     (let nowdelta = chTimeDiffX (lasttime v) now; d = delta v (qnext (vlinks v) VTL) in
      if nowdelta \<ge> d then v
      else
        let d = d - nowdelta; d = (if d < CH_CFG_ST_TIMEDELTA then nowdelta + CH_CFG_ST_TIMEDELTA else nowdelta + d)
        in v\<lparr>alarm := Some (chTimeAddX (lasttime v) d)\<rparr>)"

definition chVTDoResetI :: "node \<Rightarrow> systime \<Rightarrow> vtlist \<Rightarrow> vtlist result" where
  "chVTDoResetI vtp now v =
     rbind (assert_or_halt (vfunc v vtp \<noteq> None)) (\<lambda>_.
       let l = vlinks v in
       if qnext l VTL \<noteq> vtp then
         let nx = qnext l vtp; l = set_qnext (qprev l vtp) nx l; l = set_qprev (qnext l vtp) (qprev l vtp) l;
             v = v\<lparr>vlinks := l, vfunc := (vfunc v)(vtp := None)\<rparr>
         in Inr (if VTL \<noteq> qnext l vtp then v\<lparr>delta := (delta v)(qnext l vtp := delta v (qnext l vtp) + delta v vtp)\<rparr> else v)
       else
         let l = set_qnext VTL (qnext l vtp) l; l = set_qprev (qnext l VTL) VTL l;
             v = v\<lparr>vlinks := l, vfunc := (vfunc v)(vtp := None)\<rparr>
         in if vt_empty v then Inr (v\<lparr>alarm := None\<rparr>)
            else
              let p = qnext l VTL; v = v\<lparr>delta := (delta v)(p := delta v p + delta v vtp)\<rparr>
              in Inr (next_alarm now v))"

definition chVTIsArmedI :: "node \<Rightarrow> vtlist \<Rightarrow> bool" where
  "chVTIsArmedI vtp v \<longleftrightarrow> vfunc v vtp \<noteq> None"

definition chVTResetI :: "node \<Rightarrow> systime \<Rightarrow> vtlist \<Rightarrow> vtlist result" where
  "chVTResetI vtp now v = (if chVTIsArmedI vtp v then chVTDoResetI vtp now v else Inr v)"

definition chVTSetI :: "node \<Rightarrow> sysinterval \<Rightarrow> vtfunc \<Rightarrow> node \<Rightarrow> systime \<Rightarrow> vtlist \<Rightarrow> vtlist result" where
  "chVTSetI vtp delay f par now v = rbind (chVTResetI vtp now v) (chVTDoSetI vtp delay f par now)"

definition chVTObjectInit :: "node \<Rightarrow> vtlist \<Rightarrow> vtlist" where
  "chVTObjectInit vtp v = v\<lparr>vfunc := (vfunc v)(vtp := None)\<rparr>"

definition chVTGetTimersStateI :: "systime \<Rightarrow> vtlist \<Rightarrow> sysinterval option" where
  "chVTGetTimersStateI now v =
     (if vt_empty v then None
      else Some (chTimeDiffX now (chTimeAddX (lasttime v) (delta v (qnext (vlinks v) VTL) + CH_CFG_ST_TIMEDELTA))))"

text \<open>Removal of the first timer when it is due, in \<open>chVTDoTickI\<close>: its callback and the time not yet processed.\<close>

definition vt_expire :: "sysinterval \<Rightarrow> vtlist \<Rightarrow> (vtfunc \<times> node) option \<times> sysinterval \<times> vtlist" where
  "vt_expire nowdelta v =
     (let l = vlinks v; vtp = qnext l VTL; lt = lasttime v + delta v vtp; nowdelta = nowdelta - delta v vtp;
          l = set_qprev (qnext l vtp) VTL l; l = set_qnext VTL (qnext l vtp) l; fn = vfunc v vtp;
          v = v\<lparr>lasttime := lt, vlinks := l, vfunc := (vfunc v)(vtp := None)\<rparr>
      in (fn, nowdelta, if vt_empty v then v\<lparr>alarm := None\<rparr> else v))"

text \<open>The end of \<open>chVTDoTickI\<close>: the unprocessed time is moved into the time of the last event and the alarm is set.\<close>

definition vt_rebase :: "systime \<Rightarrow> sysinterval \<Rightarrow> vtlist \<Rightarrow> vtlist" where
  "vt_rebase now nowdelta v =
     (if vt_empty v then v
      else
        let p = qnext (vlinks v) VTL;
            v = v\<lparr>lasttime := lasttime v + nowdelta, delta := (delta v)(p := delta v p - nowdelta)\<rparr>;
            d = chTimeDiffX now (chTimeAddX (lasttime v) (delta v p));
            d = (if d < CH_CFG_ST_TIMEDELTA then CH_CFG_ST_TIMEDELTA else d)
        in v\<lparr>alarm := Some (chTimeAddX now d)\<rparr>)"

text \<open>
  The timer interrupt, \<open>chVTDoTickI\<close>. A callback runs outside the critical zone and acts on the rest \<open>'s\<close> of the system;
  the callbacks of the kernel do not arm timers. \<open>time i\<close> is the value of the hardware counter when it is
  read for the \<open>i\<close>-th time.
\<close>

type_synonym 's vt_callback = "vtfunc \<Rightarrow> node \<Rightarrow> 's \<Rightarrow> 's result"

partial_function (option) tick_inner ::
    "'s vt_callback \<Rightarrow> sysinterval \<Rightarrow> 's \<Rightarrow> vtlist \<Rightarrow> (sysinterval \<times> 's \<times> vtlist) result option" where
  "tick_inner cb nowdelta s v =
     (let (fn, nowdelta, v) = vt_expire nowdelta v in
      case fn of
        None \<Rightarrow> Some (Inl NullCall)
      | Some (f, par) \<Rightarrow>
          (case cb f par s of
             Inl e \<Rightarrow> Some (Inl e)
           | Inr s \<Rightarrow> if delta v (qnext (vlinks v) VTL) \<le> nowdelta then tick_inner cb nowdelta s v
                     else Some (Inr (nowdelta, s, v))))"

partial_function (option) tick_outer ::
    "'s vt_callback \<Rightarrow> (nat \<Rightarrow> systime) \<Rightarrow> nat \<Rightarrow> 's \<Rightarrow> vtlist \<Rightarrow> (nat \<times> 's \<times> vtlist) result option" where
  "tick_outer cb time i s v =
     (let nowdelta = chTimeDiffX (lasttime v) (time i) in
      if nowdelta < delta v (qnext (vlinks v) VTL) then Some (Inr (i, s, v))
      else
        Option.bind (tick_inner cb nowdelta s v)
          (\<lambda>r. case r of Inl e \<Rightarrow> Some (Inl e) | Inr (_, s, v) \<Rightarrow> tick_outer cb time (Suc i) s v))"

definition chVTDoTickI :: "'s vt_callback \<Rightarrow> (nat \<Rightarrow> systime) \<Rightarrow> 's \<Rightarrow> vtlist \<Rightarrow> ('s \<times> vtlist) result" where
  "chVTDoTickI cb time s v =
     rbind (rbind (or_fault Diverge (tick_outer cb time 0 s v)) (\<lambda>r. r)) (\<lambda>(i, s, v).
       let now = time i; v' = vt_rebase now (chTimeDiffX (lasttime v) now) v in
       rbind (assert_or_halt (vt_empty v \<or> (case alarm v' of None \<Rightarrow> False | Some a \<Rightarrow>
           chTimeDiffX (lasttime v') (time (Suc i)) \<le> chTimeDiffX (lasttime v') a)))
         (\<lambda>_. Inr (s, v')))"

section \<open>The list of expiry times\<close>

text \<open>The timers with the time from the last event to their expiry, as natural numbers.\<close>

fun expiries :: "(node \<Rightarrow> sysinterval) \<Rightarrow> nat \<Rightarrow> node list \<Rightarrow> (node \<times> nat) list" where
  "expiries d t [] = []"
| "expiries d t (x # xs) = (x, t + unat (d x)) # expiries d (t + unat (d x)) xs"

definition delta_sum :: "(node \<Rightarrow> sysinterval) \<Rightarrow> node list \<Rightarrow> nat" where
  "delta_sum d xs = (\<Sum>x\<leftarrow>xs. unat (d x))"

lemma delta_sum_simps [simp]:
  "delta_sum d [] = 0" "delta_sum d (x # xs) = unat (d x) + delta_sum d xs" "delta_sum d (xs @ ys) = delta_sum d xs + delta_sum d ys"
  by (simp_all add: delta_sum_def)

lemma expiries_append: "expiries d t (xs @ ys) = expiries d t xs @ expiries d (t + delta_sum d xs) ys"
  by (induction xs arbitrary: t) (simp_all add: add.assoc)

lemma expiries_cong: "(\<And>x. x \<in> set xs \<Longrightarrow> d x = d' x) \<Longrightarrow> expiries d t xs = expiries d' t xs"
  by (induction xs arbitrary: t) simp_all

lemma delta_sum_cong: "(\<And>x. x \<in> set xs \<Longrightarrow> d x = d' x) \<Longrightarrow> delta_sum d xs = delta_sum d' xs"
  by (induction xs) simp_all

lemma expiries_ge: "(x, e) \<in> set (expiries d t xs) \<Longrightarrow> t \<le> e"
  by (induction xs arbitrary: t) fastforce+

lemma expiries_le: "(x, e) \<in> set (expiries d t xs) \<Longrightarrow> e \<le> t + delta_sum d xs"
  by (induction xs arbitrary: t) fastforce+

lemma map_fst_expiries [simp]: "map fst (expiries d t xs) = xs"
  by (induction xs arbitrary: t) simp_all

lemma expiries_add: "expiries d (t + s) xs = map (\<lambda>(x, e). (x, e + s)) (expiries d t xs)"
proof (induction xs arbitrary: t)
  case (Cons x xs)
  then show ?case using Cons.IH [of "t + unat (d x)"] by (simp add: ac_simps)
qed simp

lemma expiries_shift: "s \<le> t \<Longrightarrow> expiries d (t - s) xs = map (\<lambda>(x, e). (x, e - s)) (expiries d t xs)"
proof (induction xs arbitrary: t)
  case (Cons x xs)
  then show ?case using Cons.IH [of "t + unat (d x)"] by simp
qed simp

text \<open>A well-formed timer list: armed timers are the listed ones.\<close>

definition vt_ok :: "vtlist \<Rightarrow> node list \<Rightarrow> bool" where
  "vt_ok v xs \<longleftrightarrow> is_queue (vlinks v) VTL xs \<and> delta v VTL = -1 \<and> (\<forall>x. vfunc v x \<noteq> None \<longleftrightarrow> x \<in> set xs)"

lemma vt_empty_iff: "is_queue (vlinks v) VTL xs \<Longrightarrow> vt_empty v \<longleftrightarrow> xs = []"
  using queue_isempty_iff [of "vlinks v" VTL xs] by (simp add: vt_empty_def queue_isempty_def)

lemma vt_scan_list:
  assumes "qlinked (vlinks v) q xs VTL" "delta v VTL = -1" "vtp \<notin> set xs" "vtp \<noteq> VTL"
  shows "\<exists>us vs r. xs = us @ vs \<and> vt_scan v vtp (hd (xs @ [VTL])) d = Some (Inr (hd (vs @ [VTL]), r)) \<and>
    unat d = delta_sum (delta v) us + unat r \<and> (\<forall>(y, e) \<in> set (expiries (delta v) t us). e < t + unat d) \<and>
    r \<le> delta v (hd (vs @ [VTL]))"
  using assms
proof (induction xs arbitrary: q d t)
  case Nil
  have "\<not> (-1 :: u32) < d" by simp
  then have "vt_scan v vtp VTL d = Some (Inr (VTL, d))" using Nil by (simp add: vt_scan.simps [of v vtp VTL])
  then show ?case using Nil by auto
next
  case (Cons x xs)
  show ?case
  proof (cases "delta v x < d")
    case False
    then have "vt_scan v vtp x d = Some (Inr (x, d))" by (simp add: vt_scan.simps [of v vtp x])
    then show ?thesis using False by (intro exI [of _ "[]"] exI [of _ "x # xs"] exI [of _ d]) simp
  next
    case True
    have nx: "qnext (vlinks v) x = hd (xs @ [VTL])" using Cons.prems(1) by (auto simp: qlinked_first)
    have st: "vt_scan v vtp x d = vt_scan v vtp (hd (xs @ [VTL])) (d - delta v x)"
      using True Cons.prems(3) nx by (auto simp: vt_scan.simps [of v vtp x])
    have ud: "unat (d - delta v x) = unat d - unat (delta v x)" "unat (delta v x) < unat d"
      using True by (simp_all add: unat_sub word_less_nat_alt word_le_nat_alt)
    obtain us vs r where r: "xs = us @ vs" "vt_scan v vtp (hd (xs @ [VTL])) (d - delta v x) = Some (Inr (hd (vs @ [VTL]), r))"
        "unat (d - delta v x) = delta_sum (delta v) us + unat r"
        "\<forall>(y, e) \<in> set (expiries (delta v) (t + unat (delta v x)) us). e < t + unat (delta v x) + unat (d - delta v x)"
        "r \<le> delta v (hd (vs @ [VTL]))"
      using Cons.IH [of x "d - delta v x" "t + unat (delta v x)"] Cons.prems by auto
    then show ?thesis using st ud by (intro exI [of _ "x # us"] exI [of _ vs] exI [of _ r]) auto
  qed
qed

text \<open>Insertion of an expiry time before all that are not earlier.\<close>

definition insert_expiry :: "node \<Rightarrow> nat \<Rightarrow> (node \<times> nat) list \<Rightarrow> (node \<times> nat) list" where
  "insert_expiry x t es = takeWhile (\<lambda>(y, e). e < t) es @ (x, t) # dropWhile (\<lambda>(y, e). e < t) es"

lemma insert_expiry_split:
  assumes "\<forall>(y, e) \<in> set es. e < t" "es' \<noteq> [] \<Longrightarrow> t \<le> snd (hd es')"
  shows "insert_expiry x t (es @ es') = es @ (x, t) # es'"
proof -
  have "takeWhile (\<lambda>(y, e). e < t) es' = []" "dropWhile (\<lambda>(y, e). e < t) es' = es'"
    using assms(2) by (cases es'; auto)+
  then have "takeWhile (\<lambda>(y, e). e < t) (es @ es') = es" "dropWhile (\<lambda>(y, e). e < t) (es @ es') = es'"
    using assms(1) by (induction es) auto
  then show ?thesis by (simp add: insert_expiry_def)
qed

lemma vt_insert_ok:
  assumes q: "is_queue (vlinks v) VTL (us @ vs)" "delta v VTL = -1" and t: "vtp \<notin> set (VTL # us @ vs)"
    and le: "r \<le> delta v (hd (vs @ [VTL]))" and lt: "\<forall>(y, e) \<in> set (expiries (delta v) 0 us). e < delta_sum (delta v) us + unat r"
  shows "is_queue (vlinks (vt_insert vtp (hd (vs @ [VTL])) r v)) VTL (us @ vtp # vs)"
    "delta (vt_insert vtp (hd (vs @ [VTL])) r v) VTL = -1"
    "expiries (delta (vt_insert vtp (hd (vs @ [VTL])) r v)) 0 (us @ vtp # vs) =
       insert_expiry vtp (delta_sum (delta v) us + unat r) (expiries (delta v) 0 (us @ vs))"
proof -
  let ?v = "vt_insert vtp (hd (vs @ [VTL])) r v"
  have d: "distinct (VTL # us @ vs)" using q(1) by (simp add: is_queue_def)
  show "is_queue (vlinks ?v) VTL (us @ vtp # vs)"
    using insert_on_prev_queue [OF q(1) refl t] by (simp add: vt_insert_def)
  show "delta ?v VTL = -1" by (simp add: vt_insert_def)
  have us: "delta ?v x = delta v x" if "x \<in> set us" for x
    using that d t hd_in [of vs VTL] by (auto simp: vt_insert_def)
  have e: "expiries (delta ?v) 0 us = expiries (delta v) 0 us" "delta_sum (delta ?v) us = delta_sum (delta v) us"
    using us by (intro expiries_cong delta_sum_cong; simp)+
  have dv: "delta ?v vtp = r" using t hd_in [of vs VTL] by (auto simp: vt_insert_def)
  have vs: "expiries (delta ?v) (T + unat r) vs = expiries (delta v) T vs" for T
  proof (cases vs)
    case (Cons y zs)
    have "delta ?v x = delta v x" if "x \<in> set zs" for x using that d t Cons by (auto simp: vt_insert_def)
    then have "expiries (delta ?v) T' zs = expiries (delta v) T' zs" for T' by (rule expiries_cong)
    moreover have "delta ?v y = delta v y - r" using d t Cons by (auto simp: vt_insert_def)
    moreover have "unat (delta v y - r) + unat r = unat (delta v y)" using le Cons by (simp add: unat_sub word_le_nat_alt)
    ultimately show ?thesis using Cons by (simp add: add.assoc add.commute)
  qed simp
  have "delta_sum (delta v) us + unat r \<le> snd (hd (expiries (delta v) (delta_sum (delta v) us) vs))" if "vs \<noteq> []"
    using that le by (cases vs) (simp_all add: word_le_nat_alt)
  then have "insert_expiry vtp (delta_sum (delta v) us + unat r) (expiries (delta v) 0 us @ expiries (delta v) (delta_sum (delta v) us) vs) =
      expiries (delta v) 0 us @ (vtp, delta_sum (delta v) us + unat r) # expiries (delta v) (delta_sum (delta v) us) vs"
    using lt by (intro insert_expiry_split) (cases vs; auto)+
  then show "expiries (delta ?v) 0 (us @ vtp # vs) =
       insert_expiry vtp (delta_sum (delta v) us + unat r) (expiries (delta v) 0 (us @ vs))"
    by (simp add: expiries_append e dv vs)
qed

section \<open>Arming\<close>

text \<open>The delay that is used is at least the smallest safe one.\<close>

definition safe_delay :: "sysinterval \<Rightarrow> nat" where
  "safe_delay d = max 2 (unat d)"

lemma safe_delay: "unat (if d < CH_CFG_ST_TIMEDELTA then CH_CFG_ST_TIMEDELTA else d) = safe_delay d"
  by (auto simp: safe_delay_def CH_CFG_ST_TIMEDELTA_def word_less_nat_alt)

lemma set_empty:
  assumes "vt_ok v []" "delay \<noteq> 0" "vtp \<noteq> VTL"
  shows "\<exists>v'. chVTDoSetI vtp delay f par now v = Inr v' \<and> vt_ok v' [vtp] \<and> lasttime v' = now \<and>
    expiries (delta v') 0 [vtp] = [(vtp, safe_delay delay)] \<and> alarm v' = Some (now + of_nat (safe_delay delay)) \<and>
    vfunc v' = (vfunc v)(vtp := Some (f, par))"
proof -
  have e: "vt_empty v" using assms(1) vt_empty_iff [of v "[]"] by (simp add: vt_ok_def)
  have w: "(if delay < CH_CFG_ST_TIMEDELTA then CH_CFG_ST_TIMEDELTA else delay) = of_nat (safe_delay delay)"
    by (simp flip: safe_delay)
  have "safe_delay delay < 2 ^ 32"
    using unsigned_less [where 'a = nat, of "if delay < CH_CFG_ST_TIMEDELTA then CH_CFG_ST_TIMEDELTA else delay"]
    by (simp only: safe_delay) simp
  then have "unat (of_nat (safe_delay delay) :: u32) = safe_delay delay" by (simp only: unat_of_nat) simp
  then show ?thesis
    using assms e by (auto simp: chVTDoSetI_def TIME_IMMEDIATE_def Let_def vt_empty_def vt_ok_def is_queue_def w
        chTimeAddX_def)
qed

text \<open>
  With a timer in the list, the position is found from the time since the last event. The first timer may be due
  now but not before.
\<close>

lemma set_nonempty:
  assumes ok: "vt_ok v xs" "xs \<noteq> []" and a: "delay \<noteq> 0" "vtp \<notin> set (VTL # xs)"
    and e: "e = unat (now - lasttime v)" "e \<le> unat (delta v (hd xs))"
  shows "\<exists>v' xs'. chVTDoSetI vtp delay f par now v = Inr v' \<and> vt_ok v' xs' \<and> lasttime v' = lasttime v \<and>
    expiries (delta v') 0 xs' = insert_expiry vtp (e + safe_delay delay) (expiries (delta v) 0 xs) \<and>
    vfunc v' = (vfunc v)(vtp := Some (f, par)) \<and>
    alarm v' = (if e + safe_delay delay < unat (delta v (hd xs)) then Some (lasttime v + of_nat (e + safe_delay delay)) else alarm v)"
proof -
  define v1 where "v1 = v\<lparr>vfunc := (vfunc v)(vtp := Some (f, par))\<rparr>"
  obtain x ys where xs: "xs = x # ys" using ok(2) by (cases xs) auto
  have q: "is_queue (vlinks v) VTL (x # ys)" "delta v VTL = -1" using ok(1) xs by (simp_all add: vt_ok_def)
  have first: "qnext (vlinks v) VTL = x" "qlinked (vlinks v) x ys VTL" "qnext (vlinks v) x = hd (ys @ [VTL])"
    using q(1) by (auto simp: is_queue_def qlinked_first)
  have ne: "\<not> vt_empty v1" using q(1) first(1) by (auto simp: vt_empty_def v1_def is_queue_def)
  define w where "w = (if delay < CH_CFG_ST_TIMEDELTA then CH_CFG_ST_TIMEDELTA else delay)"
  have uw: "unat w = safe_delay delay" unfolding w_def by (rule safe_delay)
  define ew where "ew = now - lasttime v"
  have ue: "unat ew = e" using e(1) by (simp add: ew_def)
  define T where "T = e + safe_delay delay"
  have b: "e < 2 ^ 32" "safe_delay delay < 2 ^ 32" using unsigned_less [where 'a = nat, of ew] unsigned_less [where 'a = nat, of w] ue uw by simp_all
  define over where "over \<longleftrightarrow> 2 ^ 32 \<le> T"
  have T: "of_nat T = ew + w" by (simp add: T_def ue [symmetric] uw [symmetric])
  have od: "ew + w < ew \<longleftrightarrow> over"
    using b by (simp add: word_less_nat_alt unat_word_ariths ue uw over_def T_def mod_if) arith
  have nd: "unat (ew + w) = T" if "\<not> over" using that by (simp add: unat_word_ariths ue uw over_def T_def)
  have Dx: "unat (delta v x) < 2 ^ 32" using unsigned_less [where 'a = nat, of "delta v x"] by simp
  have wd: "unat (ew + w - delta v x) = T - unat (delta v x)" if "over"
  proof -
    have eq: "ew + w - delta v x = of_nat (T - unat (delta v x))" using that Dx T by (simp add: over_def of_nat_diff)
    have "T - unat (delta v x) < 2 ^ 32" using e(2) b(2) xs by (simp add: T_def)
    then show ?thesis unfolding eq by (simp only: unat_of_nat) simp
  qed
  define v2 where "v2 = (if \<not> over \<and> T < unat (delta v x) then v1\<lparr>alarm := Some (lasttime v + (ew + w))\<rparr> else v1)"
  have v2: "vlinks v2 = vlinks v" "delta v2 = delta v" "lasttime v2 = lasttime v" "vfunc v2 = (vfunc v)(vtp := Some (f, par))"
      "alarm v2 = (if T < unat (delta v x) then Some (lasttime v + of_nat T) else alarm v)"
    using Dx by (auto simp: v2_def v1_def T over_def)
  have run: "chVTDoSetI vtp delay f par now v =
      rbind (rbind (or_fault Diverge (if over then vt_scan v2 vtp (hd (ys @ [VTL])) (ew + w - delta v x) else vt_scan v2 vtp x (ew + w))) (\<lambda>r. r))
        (\<lambda>(p, d). Inr (vt_insert vtp p d v2))"
  proof -
    have v1: "vlinks v1 = vlinks v" "delta v1 = delta v" "lasttime v1 = lasttime v" by (simp_all add: v1_def)
    have cond: "ew + w < delta v x \<longleftrightarrow> T < unat (delta v x)" if "\<not> over" using nd [OF that] by (simp add: word_less_nat_alt)
    show ?thesis
      unfolding chVTDoSetI_def v1_def [symmetric] w_def [symmetric] Let_def
      using a(1) ne first cond by (simp add: TIME_IMMEDIATE_def v1 chTimeDiffX_def ew_def [symmetric] od chTimeAddX_def v2_def)
  qed
  have vtp: "vtp \<notin> set (x # ys)" "vtp \<noteq> VTL" using a(2) xs by auto
  obtain us vs r where r: "xs = us @ vs" "T = delta_sum (delta v) us + unat r" "\<forall>(y, e) \<in> set (expiries (delta v) 0 us). e < T"
      "r \<le> delta v (hd (vs @ [VTL]))"
      "(if over then vt_scan v2 vtp (hd (ys @ [VTL])) (ew + w - delta v x) else vt_scan v2 vtp x (ew + w)) = Some (Inr (hd (vs @ [VTL]), r))"
  proof (cases over)
    case True
    obtain us vs r where r: "ys = us @ vs" "vt_scan v2 vtp (hd (ys @ [VTL])) (ew + w - delta v x) = Some (Inr (hd (vs @ [VTL]), r))"
        "unat (ew + w - delta v x) = delta_sum (delta v) us + unat r"
        "\<forall>(y, e) \<in> set (expiries (delta v) (unat (delta v x)) us). e < unat (delta v x) + unat (ew + w - delta v x)"
        "r \<le> delta v (hd (vs @ [VTL]))"
      using vt_scan_list [of v2 x ys vtp "ew + w - delta v x" "unat (delta v x)"] first(2) q(2) vtp v2 by auto
    have "unat (delta v x) < T" using True Dx by (simp add: over_def)
    then show thesis using r wd [OF True] True xs by (intro that [of "x # us" vs r]) auto
  next
    case False
    have "qlinked (vlinks v2) VTL (x # ys) VTL" using q(1) v2 by (simp add: is_queue_def)
    from vt_scan_list [OF this, of vtp "ew + w" 0] show thesis
      using q(2) vtp v2 False nd xs that by auto
  qed
  note ins = vt_insert_ok [of v2 us vs vtp r, unfolded v2(1,2)]
  have "chVTDoSetI vtp delay f par now v = Inr (vt_insert vtp (hd (vs @ [VTL])) r v2)" using run r(5) by simp
  moreover have "vt_ok (vt_insert vtp (hd (vs @ [VTL])) r v2) (us @ vtp # vs)"
    using ins(1,2) q r(1-4) xs a(2) ok(1) by (auto simp: vt_ok_def vt_insert_def v2)
  moreover have "lasttime (vt_insert vtp (hd (vs @ [VTL])) r v2) = lasttime v"
    "vfunc (vt_insert vtp (hd (vs @ [VTL])) r v2) = (vfunc v)(vtp := Some (f, par))"
    "alarm (vt_insert vtp (hd (vs @ [VTL])) r v2) = (if T < unat (delta v (hd xs)) then Some (lasttime v + of_nat T) else alarm v)"
    by (simp_all add: vt_insert_def v2 xs)
  moreover have "is_queue (vlinks v) VTL (us @ vs)" "vtp \<notin> set (VTL # us @ vs)" using q(1) xs r(1) a(2) by simp_all
  then have "expiries (delta (vt_insert vtp (hd (vs @ [VTL])) r v2)) 0 (us @ vtp # vs) = insert_expiry vtp T (expiries (delta v) 0 xs)"
    using ins(3) q(2) r(2-4) by (simp add: r(1))
  ultimately show ?thesis unfolding T_def [symmetric] by blast
qed

section \<open>Disarming\<close>

lemma vt_ok_remove:
  assumes ok: "vt_ok v (us @ t # vs)" and b: "vs \<noteq> [] \<Longrightarrow> unat (delta v t) + unat (delta v (hd vs)) < 2 ^ 32"
    and v': "is_queue (vlinks v') VTL (us @ vs)" "vfunc v' = (vfunc v)(t := None)"
      "delta v' = (if vs = [] then delta v else (delta v)(hd vs := delta v (hd vs) + delta v t))"
  shows "vt_ok v' (us @ vs)" "expiries (delta v') 0 (us @ vs) = filter (\<lambda>(x, e). x \<noteq> t) (expiries (delta v) 0 (us @ t # vs))"
proof -
  have d: "distinct (VTL # us @ t # vs)" "delta v VTL = -1" using ok by (auto simp: vt_ok_def is_queue_def)
  show "vt_ok v' (us @ vs)"
    using ok v' d by (cases vs) (auto simp: vt_ok_def)
  have "delta v' x = delta v x" if "x \<in> set us" for x using that d v'(3) by (cases vs) auto
  then have us: "expiries (delta v') 0 us = expiries (delta v) 0 us" "delta_sum (delta v') us = delta_sum (delta v) us"
    by (intro expiries_cong delta_sum_cong; simp)+
  have vs: "expiries (delta v') s vs = expiries (delta v) (s + unat (delta v t)) vs" for s
  proof (cases vs)
    case (Cons y zs)
    have "delta v' x = delta v x" if "x \<in> set zs" for x using that d v'(3) Cons by auto
    then have "expiries (delta v') k zs = expiries (delta v) k zs" for k by (rule expiries_cong)
    moreover have "unat (delta v y + delta v t) = unat (delta v y) + unat (delta v t)"
      using b Cons by (simp add: unat_word_ariths)
    ultimately show ?thesis using v'(3) Cons by (simp add: ac_simps)
  qed simp
  have keep: "filter (\<lambda>(x, e). x \<noteq> t) (expiries (delta v) k xs) = expiries (delta v) k xs" if "t \<notin> set xs" for k xs
    using that by (induction xs arbitrary: k) auto
  show "expiries (delta v') 0 (us @ vs) = filter (\<lambda>(x, e). x \<noteq> t) (expiries (delta v) 0 (us @ t # vs))"
    using keep d by (simp add: expiries_append us vs)
qed

lemma next_alarm_same [simp]:
  "vlinks (next_alarm now v) = vlinks v" "delta (next_alarm now v) = delta v" "vfunc (next_alarm now v) = vfunc v"
  "lasttime (next_alarm now v) = lasttime v"
  by (simp_all add: next_alarm_def Let_def)

lemma reset_links:
  assumes ok: "vt_ok v (us @ t # vs)"
  shows "\<exists>v'. chVTDoResetI t now v = Inr v' \<and> vlinks v' = queue_dequeue t (vlinks v) \<and> vfunc v' = (vfunc v)(t := None) \<and>
      lasttime v' = lasttime v \<and> delta v' = (if vs = [] then delta v else (delta v)(hd vs := delta v (hd vs) + delta v t))"
proof -
  have q: "is_queue (vlinks v) VTL (us @ t # vs)" "vfunc v t \<noteq> None" using ok by (auto simp: vt_ok_def)
  have d: "distinct (VTL # us @ t # vs)" using q(1) by (simp add: is_queue_def)
  have nx: "qnext (vlinks v) t = hd (vs @ [VTL])" "qprev (vlinks v) t = last (VTL # us)"
    using q(1) by (auto simp: is_queue_def qlinked_append qlinked_first qlinked_last simp del: last.simps)
  have hv: "hd (vs @ [VTL]) = VTL \<longleftrightarrow> vs = []" using d by (cases vs) auto
  have n: "qnext (vlinks v) t = VTL \<longleftrightarrow> vs = []" "vs \<noteq> [] \<Longrightarrow> qnext (vlinks v) t = hd vs" using nx(1) hv by auto
  have ne: "qprev (vlinks v) t \<noteq> t" "t \<noteq> VTL" using nx(2) last_in [of VTL us] d by (auto simp del: last.simps)
  show ?thesis
  proof (cases us)
    case (Cons u us')
    have f: "qnext (vlinks v) VTL \<noteq> t" using is_queue_ends(1) [OF q(1)] Cons d by auto
    show ?thesis
      using q(2) f ne n by (cases "vs = []") (auto simp: chVTDoResetI_def Let_def queue_dequeue_def)
  next
    case Nil
    have f: "qnext (vlinks v) VTL = t" "qprev (vlinks v) t = VTL" using q(1) Nil by (simp_all add: is_queue_def)
    show ?thesis
      using q(2) f ne n by (cases "vs = []") (auto simp: chVTDoResetI_def Let_def queue_dequeue_def vt_empty_def)
  qed
qed

lemma reset_timer:
  assumes ok: "vt_ok v (us @ t # vs)" and b: "vs \<noteq> [] \<Longrightarrow> unat (delta v t) + unat (delta v (hd vs)) < 2 ^ 32"
  shows "\<exists>v'. chVTDoResetI t now v = Inr v' \<and> vt_ok v' (us @ vs) \<and> lasttime v' = lasttime v \<and> vfunc v' = (vfunc v)(t := None) \<and>
    expiries (delta v') 0 (us @ vs) = filter (\<lambda>(x, e). x \<noteq> t) (expiries (delta v) 0 (us @ t # vs))"
proof -
  have q: "is_queue (vlinks v) VTL (us @ t # vs)" using ok by (auto simp: vt_ok_def)
  have dq: "is_queue (queue_dequeue t (vlinks v)) VTL (us @ vs)" by (rule queue_dequeue_queue [OF q])
  obtain v' where v': "chVTDoResetI t now v = Inr v'" "vlinks v' = queue_dequeue t (vlinks v)" "vfunc v' = (vfunc v)(t := None)"
      "lasttime v' = lasttime v" "delta v' = (if vs = [] then delta v else (delta v)(hd vs := delta v (hd vs) + delta v t))"
    using reset_links [OF ok] by blast
  then show ?thesis using vt_ok_remove [OF ok b dq [folded v'(2)] v'(3,5)] by blast
qed

section \<open>Expiry\<close>

lemma expire_first:
  assumes ok: "vt_ok v (t # xs)"
  shows "\<exists>v'. vt_expire nd v = (vfunc v t, nd - delta v t, v') \<and> vt_ok v' xs \<and> lasttime v' = lasttime v + delta v t \<and>
    vfunc v' = (vfunc v)(t := None) \<and> delta v' = delta v"
proof -
  have q: "is_queue (vlinks v) VTL (t # xs)" using ok by (simp add: vt_ok_def)
  have f: "qnext (vlinks v) VTL = t" "qprev (vlinks v) t = VTL" "t \<noteq> VTL" using q by (auto simp: is_queue_def)
  have l: "set_qnext VTL (qnext (vlinks v) t) (set_qprev (qnext (vlinks v) t) VTL (vlinks v)) = queue_dequeue t (vlinks v)"
    using f by (simp add: queue_dequeue_def Let_def set_qnext_def set_qprev_def)
  have "is_queue (queue_dequeue t (vlinks v)) VTL xs" using queue_dequeue_queue [of "vlinks v" VTL "[]" t xs] q by simp
  moreover have "t \<notin> set xs" using q by (simp add: is_queue_def)
  ultimately show ?thesis
    using ok by (auto simp: vt_expire_def Let_def f l vt_ok_def)
qed

definition total_callback :: "'s vt_callback \<Rightarrow> bool" where
  "total_callback cb \<longleftrightarrow> (\<forall>f par s. \<exists>s'. cb f par s = Inr s')"

text \<open>The callbacks of expired timers, one after the other.\<close>

fun call_all :: "'s vt_callback \<Rightarrow> (node \<Rightarrow> (vtfunc \<times> node) option) \<Rightarrow> node list \<Rightarrow> 's \<Rightarrow> 's result" where
  "call_all cb fn [] s = Inr s"
| "call_all cb fn (x # xs) s =
     (case fn x of None \<Rightarrow> Inl NullCall | Some (f, par) \<Rightarrow> rbind (cb f par s) (call_all cb fn xs))"

lemma call_all_append: "call_all cb fn (xs @ ys) s = rbind (call_all cb fn xs s) (call_all cb fn ys)"
proof (induction xs arbitrary: s)
  case (Cons x xs)
  then show ?case by (cases "fn x") (auto simp: rbind_def split: sum.splits)
qed simp

lemma call_all_cong: "(\<And>x. x \<in> set xs \<Longrightarrow> fn x = fn' x) \<Longrightarrow> call_all cb fn xs s = call_all cb fn' xs s"
proof (induction xs arbitrary: s)
  case (Cons x xs)
  then have "call_all cb fn xs = call_all cb fn' xs" by (intro ext) simp
  then show ?case using Cons.prems by (auto split: option.splits)
qed simp

text \<open>The callbacks do not fail when the timers are called in order, however many of them.\<close>

definition callable :: "'s vt_callback \<Rightarrow> (node \<Rightarrow> (vtfunc \<times> node) option) \<Rightarrow> node list \<Rightarrow> 's \<Rightarrow> bool" where
  "callable cb fn xs s \<longleftrightarrow> (\<forall>us vs. xs = us @ vs \<longrightarrow> (\<exists>s'. call_all cb fn us s = Inr s'))"

lemma callable_append:
  assumes "callable cb fn (xs @ ys) s" "call_all cb fn xs s = Inr s'"
  shows "callable cb fn ys s'"
  unfolding callable_def
proof (intro allI impI)
  fix us vs assume "ys = us @ vs"
  then have "\<exists>s''. call_all cb fn (xs @ us) s = Inr s''" using assms(1) by (simp add: callable_def)
  then show "\<exists>s''. call_all cb fn us s' = Inr s''" using assms(2) by (simp add: call_all_append)
qed

lemma callable_step:
  assumes "callable cb fn (x # xs) s" "fn x = Some (f, par)"
  shows "\<exists>s'. cb f par s = Inr s' \<and> callable cb fn xs s'"
proof -
  have "x # xs = [x] @ xs" by simp
  then have "\<exists>s'. call_all cb fn [x] s = Inr s'" using assms(1) unfolding callable_def by blast
  then obtain s' where s': "cb f par s = Inr s'" using assms(2) by (auto simp: rbind_Inr)
  then have "call_all cb fn [x] s = Inr s'" using assms(2) by simp
  then show ?thesis using callable_append [of cb fn "[x]" xs s s'] assms(1) s' by simp
qed

lemma callable_cong: "callable cb fn xs s \<Longrightarrow> (\<And>x. x \<in> set xs \<Longrightarrow> fn x = fn' x) \<Longrightarrow> callable cb fn' xs s"
  using call_all_cong [of _ fn fn' cb s] by (auto simp: callable_def)

lemma total_callable: "total_callback cb \<Longrightarrow> (\<And>x. x \<in> set xs \<Longrightarrow> fn x \<noteq> None) \<Longrightarrow> callable cb fn xs s"
proof -
  assume a: "total_callback cb" "\<And>x. x \<in> set xs \<Longrightarrow> fn x \<noteq> None"
  have "\<exists>s'. call_all cb fn us s = Inr s'" if "set us \<subseteq> set xs" for us
    using that
  proof (induction us arbitrary: s)
    case (Cons u us)
    obtain f par where f: "fn u = Some (f, par)" using a(2) [of u] Cons.prems by auto
    obtain s' where "cb f par s = Inr s'" using a(1) unfolding total_callback_def by blast
    then show ?case using Cons f by simp
  qed simp
  then show ?thesis by (auto simp: callable_def)
qed

text \<open>The inner loop removes the timers up to the time given, at least one, and calls them in order.\<close>

lemma tick_inner_run:
  assumes "vt_ok v (t # xs)" "delta v t \<le> nd" "nd < -1" "callable cb (vfunc v) (t # xs) s"
  shows "\<exists>us vs s' v'. xs = us @ vs \<and> call_all cb (vfunc v) (t # us) s = Inr s' \<and>
    tick_inner cb nd s v = Some (Inr (nd - of_nat (delta_sum (delta v) (t # us)), s', v')) \<and>
    delta_sum (delta v) (t # us) \<le> unat nd \<and> vt_ok v' vs \<and> delta v' = delta v \<and>
    lasttime v' = lasttime v + of_nat (delta_sum (delta v) (t # us)) \<and>
    (\<forall>x. vfunc v' x = (if x \<in> set (t # us) then None else vfunc v x)) \<and>
    nd - of_nat (delta_sum (delta v) (t # us)) < delta v (hd (vs @ [VTL]))"
  using assms
proof (induction xs arbitrary: t s v nd)
  case Nil
  obtain v' where v': "vt_expire nd v = (vfunc v t, nd - delta v t, v')" "vt_ok v' []" "lasttime v' = lasttime v + delta v t"
      "vfunc v' = (vfunc v)(t := None)" "delta v' = delta v"
    using expire_first [OF Nil.prems(1)] by blast
  obtain f par where fn: "vfunc v t = Some (f, par)" using Nil.prems(1) by (force simp: vt_ok_def)
  obtain s' where s': "cb f par s = Inr s'" using callable_step [OF Nil.prems(4) fn] by blast
  have "qnext (vlinks v') VTL = VTL" "delta v VTL = -1" using v'(2,5) by (simp_all add: vt_ok_def is_queue_def)
  moreover have "\<not> -1 \<le> nd - delta v t"
    using Nil.prems(2,3) by (metis word_le_sub1 word_sub_le order.strict_trans1 leD)
  ultimately have "tick_inner cb nd s v = Some (Inr (nd - delta v t, s', v'))" "nd - delta v t < -1"
    using v' fn s' by (simp_all add: tick_inner.simps [of cb nd s v])
  then show ?case using v' fn s' Nil.prems(2) \<open>delta v VTL = -1\<close>
    by (intro exI [of _ "[]"] exI [of _ s'] exI [of _ v']) (simp add: word_le_nat_alt)
next
  case (Cons y ys)
  obtain v' where v': "vt_expire nd v = (vfunc v t, nd - delta v t, v')" "vt_ok v' (y # ys)" "lasttime v' = lasttime v + delta v t"
      "vfunc v' = (vfunc v)(t := None)" "delta v' = delta v"
    using expire_first [OF Cons.prems(1)] by blast
  obtain f par where fn: "vfunc v t = Some (f, par)" using Cons.prems(1) by (force simp: vt_ok_def)
  obtain s' where s': "cb f par s = Inr s'" "callable cb (vfunc v) (y # ys) s'" using callable_step [OF Cons.prems(4) fn] by blast
  have d: "t \<notin> set (y # ys)" "qnext (vlinks v') VTL = y" using Cons.prems(1) v'(2) by (auto simp: vt_ok_def is_queue_def)
  have ca: "callable cb (vfunc v') (y # ys) s'" by (rule callable_cong [OF s'(2)]) (use d(1) v'(4) in auto)
  have un: "unat (nd - delta v t) = unat nd - unat (delta v t)" "unat (delta v t) \<le> unat nd"
    using Cons.prems(2) by (simp_all add: unat_sub word_le_nat_alt)
  show ?case
  proof (cases "delta v y \<le> nd - delta v t")
    case False
    then have "tick_inner cb nd s v = Some (Inr (nd - delta v t, s', v'))"
      using v' fn s' d by (simp add: tick_inner.simps [of cb nd s v])
    then show ?thesis using False v' fn s' un
      by (intro exI [of _ "[]"] exI [of _ "y # ys"] exI [of _ s'] exI [of _ v']) simp
  next
    case True
    have "nd - delta v t < -1" using Cons.prems(3) un by (simp add: word_less_nat_alt)
    then obtain us vs s2 v2 where r: "ys = us @ vs" "call_all cb (vfunc v') (y # us) s' = Inr s2"
        "tick_inner cb (nd - delta v t) s' v' = Some (Inr (nd - delta v t - of_nat (delta_sum (delta v) (y # us)), s2, v2))"
        "delta_sum (delta v) (y # us) \<le> unat (nd - delta v t)" "vt_ok v2 vs" "delta v2 = delta v"
        "lasttime v2 = lasttime v + delta v t + of_nat (delta_sum (delta v) (y # us))"
        "\<forall>x. vfunc v2 x = (if x \<in> set (y # us) then None else vfunc v' x)"
        "nd - delta v t - of_nat (delta_sum (delta v) (y # us)) < delta v (hd (vs @ [VTL]))"
      using Cons.IH [OF v'(2) _ _ ca, of "nd - delta v t"] True unfolding v'(3,5) by blast
    have "call_all cb (vfunc v') (y # us) s' = call_all cb (vfunc v) (y # us) s'"
      using d r(1) v'(4) by (intro call_all_cong) auto
    then have c: "call_all cb (vfunc v) (t # y # us) s = Inr s2" using r(2) fn s' by simp
    have i: "tick_inner cb nd s v = tick_inner cb (nd - delta v t) s' v'"
      using v' fn s' d True by (simp add: tick_inner.simps [of cb nd s v])
    have w: "nd - delta v t - of_nat (delta_sum (delta v) (y # us)) = nd - of_nat (delta_sum (delta v) (t # y # us))"
      "lasttime v + delta v t + of_nat (delta_sum (delta v) (y # us)) = lasttime v + of_nat (delta_sum (delta v) (t # y # us))"
      by simp_all
    have "\<forall>x. vfunc v2 x = (if x \<in> set (t # y # us) then None else vfunc v x)" using r(8) v'(4) by auto
    moreover have "delta_sum (delta v) (t # y # us) \<le> unat nd" using r(4) un by simp
    ultimately show ?thesis using r(1,5,6) c r(3,7,9) i unfolding w
      by (intro exI [of _ "y # us"] exI [of _ vs] exI [of _ s2] exI [of _ v2]) simp
  qed
qed

text \<open>
  The whole interrupt: the counter moves on between the readings, but by less than its range. The timers that are due
  at the last reading are called in the order of their expiry, and no others.
\<close>

lemma tick_outer_run:
  assumes "vt_ok v xs" "callable cb (vfunc v) xs s"
    and mono: "\<And>j. i \<le> j \<Longrightarrow> unat (time j - lasttime v) \<le> unat (time (Suc j) - lasttime v)"
    and bound: "\<And>j. i \<le> j \<Longrightarrow> unat (time j - lasttime v) < 2 ^ 32 - 1"
  shows "\<exists>k us vs s' v'. i \<le> k \<and> xs = us @ vs \<and> call_all cb (vfunc v) us s = Inr s' \<and>
    tick_outer cb time i s v = Some (Inr (k, s', v')) \<and> vt_ok v' vs \<and> delta v' = delta v \<and>
    lasttime v' = lasttime v + of_nat (delta_sum (delta v) us) \<and> delta_sum (delta v) us \<le> unat (time k - lasttime v) \<and>
    (\<forall>x. vfunc v' x = (if x \<in> set us then None else vfunc v x)) \<and>
    (vs \<noteq> [] \<longrightarrow> unat (time k - lasttime v) < delta_sum (delta v) us + unat (delta v (hd vs)))"
  using assms
proof (induction "length xs" arbitrary: xs i s v rule: less_induct)
  case less
  note ok = less.prems(1)
  define nd where "nd = time i - lasttime v"
  have nd1: "nd < -1" using less.prems(4) [of i] by (simp add: nd_def word_less_nat_alt unsigned_minus_1_eq_mask mask_eq_exp_minus_1)
  have nx: "qnext (vlinks v) VTL = hd (xs @ [VTL])" "delta v VTL = -1"
    using ok is_queue_ends(1) by (auto simp: vt_ok_def)
  show ?case
  proof (cases "nd < delta v (hd (xs @ [VTL]))")
    case True
    then have "tick_outer cb time i s v = Some (Inr (i, s, v))"
      by (simp add: tick_outer.simps [of cb time i s v] chTimeDiffX_def nd_def nx)
    then show ?thesis using True ok
      by (intro exI [of _ i] exI [of _ "[]"] exI [of _ xs] exI [of _ s] exI [of _ v]) (auto simp: nd_def word_less_nat_alt)
  next
    case False
    then obtain t ys where xs: "xs = t # ys" using nd1 nx by (cases xs) auto
    have le: "delta v t \<le> nd" using False xs by simp
    obtain us vs s1 v1 where r: "ys = us @ vs" "call_all cb (vfunc v) (t # us) s = Inr s1"
        "tick_inner cb nd s v = Some (Inr (nd - of_nat (delta_sum (delta v) (t # us)), s1, v1))"
        "delta_sum (delta v) (t # us) \<le> unat nd" "vt_ok v1 vs" "delta v1 = delta v"
        "lasttime v1 = lasttime v + of_nat (delta_sum (delta v) (t # us))"
        "\<forall>x. vfunc v1 x = (if x \<in> set (t # us) then None else vfunc v x)"
      using tick_inner_run [OF ok [unfolded xs] le nd1 less.prems(2) [unfolded xs]]
      by (elim exE conjE) (rule that)
    define S where "S = delta_sum (delta v) (t # us)"
    have ge: "unat nd \<le> unat (time j - lasttime v)" if "i \<le> j" for j
      using that
    proof (induction j rule: dec_induct)
      case (step j)
      then show ?case using less.prems(3) [of j] by linarith
    qed (simp add: nd_def)
    have rel: "unat (time j - lasttime v1) = unat (time j - lasttime v) - S" if "i \<le> j" for j
    proof -
      have S: "S \<le> unat (time j - lasttime v)" using r(4) ge [OF that] by (simp add: S_def)
      then have "S < 2 ^ 32" using unsigned_less [where 'a = nat, of "time j - lasttime v"] by simp
      then have u: "unat (of_nat S :: u32) = S" by (simp only: unat_of_nat) simp
      have "time j - lasttime v1 = time j - lasttime v - of_nat S" by (simp add: r(7) S_def)
      then show ?thesis using S by (simp only: unat_sub word_le_nat_alt u)
    qed
    have ca: "callable cb (vfunc v1) vs s1"
    proof (rule callable_cong)
      show "callable cb (vfunc v) vs s1" using callable_append [of cb "vfunc v" "t # us" vs s s1] less.prems(2) xs r(1,2) by simp
      show "vfunc v x = vfunc v1 x" if "x \<in> set vs" for x using that r(1,8) ok xs by (auto simp: vt_ok_def is_queue_def)
    qed
    have "\<exists>k us2 vs2 s' v'. Suc i \<le> k \<and> vs = us2 @ vs2 \<and> call_all cb (vfunc v1) us2 s1 = Inr s' \<and>
      tick_outer cb time (Suc i) s1 v1 = Some (Inr (k, s', v')) \<and> vt_ok v' vs2 \<and> delta v' = delta v1 \<and>
      lasttime v' = lasttime v1 + of_nat (delta_sum (delta v1) us2) \<and> delta_sum (delta v1) us2 \<le> unat (time k - lasttime v1) \<and>
      (\<forall>x. vfunc v' x = (if x \<in> set us2 then None else vfunc v1 x)) \<and>
      (vs2 \<noteq> [] \<longrightarrow> unat (time k - lasttime v1) < delta_sum (delta v1) us2 + unat (delta v1 (hd vs2)))"
    proof (rule less.hyps [OF _ r(5) ca])
      show "length vs < length xs" by (simp add: xs r(1))
      show "unat (time j - lasttime v1) \<le> unat (time (Suc j) - lasttime v1)" if "Suc i \<le> j" for j
        using less.prems(3) [of j] that by (simp add: rel diff_le_mono)
      show "unat (time j - lasttime v1) < 2 ^ 32 - 1" if "Suc i \<le> j" for j
        using less.prems(4) [of j] that by (simp add: rel)
    qed
    then obtain k us2 vs2 s2 v2 where k: "Suc i \<le> k" "vs = us2 @ vs2" "call_all cb (vfunc v1) us2 s1 = Inr s2"
        "tick_outer cb time (Suc i) s1 v1 = Some (Inr (k, s2, v2))" "vt_ok v2 vs2" "delta v2 = delta v"
        "lasttime v2 = lasttime v1 + of_nat (delta_sum (delta v) us2)" "delta_sum (delta v) us2 \<le> unat (time k - lasttime v1)"
        "\<forall>x. vfunc v2 x = (if x \<in> set us2 then None else vfunc v1 x)"
        "vs2 \<noteq> [] \<longrightarrow> unat (time k - lasttime v1) < delta_sum (delta v) us2 + unat (delta v (hd vs2))"
      unfolding r(6) by blast
    have rk: "unat (time k - lasttime v1) = unat (time k - lasttime v) - S" using k(1) by (intro rel) simp
    have "distinct (t # us @ us2 @ vs2)" using ok xs r(1) k(2) by (simp add: vt_ok_def is_queue_def)
    then have "call_all cb (vfunc v1) us2 s1 = call_all cb (vfunc v) us2 s1" using r(8) by (intro call_all_cong) auto
    then have c: "call_all cb (vfunc v) (t # us @ us2) s = Inr s2"
      using call_all_append [of cb "vfunc v" "t # us" us2 s] r(2) k(3) by simp
    have o: "tick_outer cb time i s v = Some (Inr (k, s2, v2))"
      using False k(4) r(3) by (simp add: tick_outer.simps [of cb time i s v] chTimeDiffX_def nd_def [symmetric] nx)
    have S: "S \<le> unat (time k - lasttime v)" using r(4) ge [of k] k(1) by (simp add: S_def)
    have f: "\<forall>x. vfunc v2 x = (if x \<in> set (t # us @ us2) then None else vfunc v x)" using k(9) r(8) by auto
    have sum: "delta_sum (delta v) (t # us @ us2) = S + delta_sum (delta v) us2" by (simp add: S_def)
    have l: "lasttime v2 = lasttime v + of_nat (delta_sum (delta v) (t # us @ us2))"
      unfolding sum by (simp add: k(7) r(7) S_def)
    show ?thesis
    proof (rule exI [of _ k], rule exI [of _ "t # us @ us2"], rule exI [of _ vs2], rule exI [of _ s2], rule exI [of _ v2],
        intro conjI c o f l k(5,6))
      show "i \<le> k" "xs = (t # us @ us2) @ vs2" using k(1,2) xs r(1) by simp_all
      show "delta_sum (delta v) (t # us @ us2) \<le> unat (time k - lasttime v)" unfolding sum using k(8) S rk by simp
      show "vs2 \<noteq> [] \<longrightarrow> unat (time k - lasttime v) < delta_sum (delta v) (t # us @ us2) + unat (delta v (hd vs2))"
        unfolding sum using k(10) S rk by linarith
    qed
  qed
qed

lemma vt_ok_rebase:
  assumes "vt_ok v xs" "xs \<noteq> [] \<Longrightarrow> nd \<le> delta v (hd xs)"
  shows "vt_ok (vt_rebase now nd v) xs"
    "expiries (delta (vt_rebase now nd v)) 0 xs = map (\<lambda>(x, e). (x, e - unat nd)) (expiries (delta v) 0 xs)"
    "xs \<noteq> [] \<Longrightarrow> lasttime (vt_rebase now nd v) = lasttime v + nd" "vfunc (vt_rebase now nd v) = vfunc v"
proof -
  have q: "is_queue (vlinks v) VTL xs" "delta v VTL = -1" using assms(1) by (simp_all add: vt_ok_def)
  have e: "vt_empty v \<longleftrightarrow> xs = []" by (rule vt_empty_iff [OF q(1)])
  have nx: "qnext (vlinks v) VTL = hd (xs @ [VTL])" using is_queue_ends(1) [OF q(1)] .
  have hd: "hd xs \<noteq> VTL" if "xs \<noteq> []" using q(1) that by (cases xs) (auto simp: is_queue_def)
  show "vt_ok (vt_rebase now nd v) xs"
    using assms(1) e nx hd by (cases "xs = []") (auto simp: vt_rebase_def Let_def vt_ok_def)
  show "xs \<noteq> [] \<Longrightarrow> lasttime (vt_rebase now nd v) = lasttime v + nd" "vfunc (vt_rebase now nd v) = vfunc v"
    using e by (simp_all add: vt_rebase_def Let_def)
  show "expiries (delta (vt_rebase now nd v)) 0 xs = map (\<lambda>(x, e). (x, e - unat nd)) (expiries (delta v) 0 xs)"
  proof (cases xs)
    case (Cons y ys)
    have d: "y \<notin> set ys" using q(1) Cons by (simp add: is_queue_def)
    have dv: "delta (vt_rebase now nd v) = (delta v)(y := delta v y - nd)" using e nx Cons by (simp add: vt_rebase_def Let_def)
    have u: "unat (delta v y - nd) = unat (delta v y) - unat nd" "unat nd \<le> unat (delta v y)"
      using assms(2) Cons by (simp_all add: unat_sub word_le_nat_alt)
    have "expiries ((delta v)(y := delta v y - nd)) k ys = expiries (delta v) k ys" for k using d by (intro expiries_cong) auto
    then show ?thesis using expiries_shift [OF u(2), of "delta v" ys] u(1) Cons by (simp add: dv)
  qed simp
qed

text \<open>Successive readings of the counter, as time since \<open>t\<close>: they grow by at most two ticks and not beyond the range.\<close>

definition counter_runs :: "(nat \<Rightarrow> systime) \<Rightarrow> systime \<Rightarrow> bool" where
  "counter_runs time t \<longleftrightarrow> (\<forall>j. unat (time j - t) \<le> unat (time (Suc j) - t) \<and> unat (time (Suc j) - time j) \<le> 2 \<and>
     unat (time j - t) < 2 ^ 32 - 1)"

text \<open>The list stays well formed whatever the delays are.\<close>

lemma set_armed:
  assumes ok: "vt_ok v xs" and a: "delay \<noteq> 0" "vtp \<notin> set (VTL # xs)"
  shows "\<exists>v' xs'. chVTDoSetI vtp delay f par now v = Inr v' \<and> vt_ok v' xs' \<and> set xs' = insert vtp (set xs) \<and>
    vfunc v' = (vfunc v)(vtp := Some (f, par))"
proof (cases xs)
  case Nil
  then show ?thesis using set_empty [of v delay vtp f par now] ok a by (auto intro!: exI [of _ "[vtp]"])
next
  case (Cons x ys)
  define v1 where "v1 = v\<lparr>vfunc := (vfunc v)(vtp := Some (f, par))\<rparr>"
  define w where "w = (if delay < CH_CFG_ST_TIMEDELTA then CH_CFG_ST_TIMEDELTA else delay)"
  define e where "e = chTimeDiffX (lasttime v) now"
  have q: "is_queue (vlinks v) VTL (x # ys)" "delta v VTL = -1" using ok Cons by (simp_all add: vt_ok_def)
  have first: "qnext (vlinks v) VTL = x" "qlinked (vlinks v) x ys VTL" "qnext (vlinks v) x = hd (ys @ [VTL])"
    using q(1) by (auto simp: is_queue_def qlinked_first)
  have ne: "\<not> vt_empty v1" using q(1) first(1) by (auto simp: vt_empty_def v1_def is_queue_def)
  have vtp: "vtp \<notin> set (x # ys)" "vtp \<noteq> VTL" using a(2) Cons by auto
  define p0 where "p0 = (if e + w < e then hd (ys @ [VTL]) else x)"
  define d0 where "d0 = (if e + w < e then e + w - delta v x else e + w)"
  define v2 where "v2 = (if \<not> e + w < e \<and> e + w < delta v x then v1\<lparr>alarm := Some (chTimeAddX (lasttime v) (e + w))\<rparr> else v1)"
  have v2: "vlinks v2 = vlinks v" "delta v2 = delta v" "vfunc v2 = (vfunc v)(vtp := Some (f, par))" by (simp_all add: v2_def v1_def)
  have run: "chVTDoSetI vtp delay f par now v =
      rbind (rbind (or_fault Diverge (vt_scan v2 vtp p0 d0)) (\<lambda>r. r)) (\<lambda>(p, d). Inr (vt_insert vtp p d v2))"
    unfolding chVTDoSetI_def v1_def [symmetric] w_def [symmetric] Let_def
    using a(1) ne first by (simp add: TIME_IMMEDIATE_def v1_def e_def [symmetric] p0_def d0_def v2_def)
  obtain us vs r where r: "xs = us @ vs" "vt_scan v2 vtp p0 d0 = Some (Inr (hd (vs @ [VTL]), r))"
  proof (cases "e + w < e")
    case True
    have "qlinked (vlinks v2) x ys VTL" "delta v2 VTL = -1" "vtp \<notin> set ys" using first(2) q(2) vtp(1) v2 by simp_all
    from vt_scan_list [OF this vtp(2), of d0 0] obtain us vs r where
      "ys = us @ vs" "vt_scan v2 vtp (hd (ys @ [VTL])) d0 = Some (Inr (hd (vs @ [VTL]), r))" by blast
    then show thesis using that [of "x # us" vs r] True Cons by (simp add: p0_def)
  next
    case False
    have "qlinked (vlinks v2) VTL (x # ys) VTL" using q(1) v2 by (simp add: is_queue_def)
    then have "\<exists>us vs r. x # ys = us @ vs \<and> vt_scan v2 vtp (hd ((x # ys) @ [VTL])) d0 = Some (Inr (hd (vs @ [VTL]), r))"
      using vt_scan_list [of v2 VTL "x # ys" vtp d0 0] q(2) vtp v2 by fastforce
    then show thesis using False Cons that by (auto simp: p0_def)
  qed
  have "is_queue (insert_on_prev vtp (hd (vs @ [VTL])) (vlinks v)) VTL (us @ vtp # vs)"
  proof (rule insert_on_prev_queue [OF _ refl])
    show "is_queue (vlinks v) VTL (us @ vs)" using ok r(1) by (simp add: vt_ok_def)
    show "vtp \<notin> set (VTL # us @ vs)" using a(2) r(1) by simp
  qed
  then have "vt_ok (vt_insert vtp (hd (vs @ [VTL])) r v2) (us @ vtp # vs)"
    using ok r(1) by (auto simp: vt_ok_def vt_insert_def v2)
  moreover have "chVTDoSetI vtp delay f par now v = Inr (vt_insert vtp (hd (vs @ [VTL])) r v2)" using run r(2) by simp
  ultimately show ?thesis using r(1)
    by (intro exI [of _ "vt_insert vtp (hd (vs @ [VTL])) r v2"] exI [of _ "us @ vtp # vs"]) (simp add: vt_insert_def v2)
qed

lemma reset_armed:
  assumes ok: "vt_ok v xs" and t: "t \<in> set xs"
  shows "\<exists>v' xs'. chVTDoResetI t now v = Inr v' \<and> vt_ok v' xs' \<and> set xs' = set xs - {t} \<and> vfunc v' = (vfunc v)(t := None)"
proof -
  obtain us vs where xs: "xs = us @ t # vs" using t by (auto dest: split_list)
  obtain v' where v': "chVTDoResetI t now v = Inr v'" "vlinks v' = queue_dequeue t (vlinks v)" "vfunc v' = (vfunc v)(t := None)"
      "delta v' = (if vs = [] then delta v else (delta v)(hd vs := delta v (hd vs) + delta v t))"
    using reset_links [OF ok [unfolded xs]] by blast
  have q: "is_queue (vlinks v) VTL (us @ t # vs)" "delta v VTL = -1" using ok xs by (auto simp: vt_ok_def)
  have d: "distinct (VTL # us @ t # vs)" using q(1) by (simp add: is_queue_def)
  have "vt_ok v' (us @ vs)"
    using queue_dequeue_queue [OF q(1)] ok v' xs d by (cases vs) (auto simp: vt_ok_def)
  then show ?thesis using v' xs d by (intro exI [of _ v'] exI [of _ "us @ vs"]) auto
qed

text \<open>The interrupt as a whole.\<close>

lemma tick_run:
  assumes "vt_ok v xs" "callable cb (vfunc v) xs s" "counter_runs time (lasttime v)"
  shows "\<exists>k us vs s' v'. xs = us @ vs \<and> call_all cb (vfunc v) us s = Inr s' \<and> chVTDoTickI cb time s v = Inr (s', v') \<and> vt_ok v' vs \<and>
    (\<forall>x. vfunc v' x = (if x \<in> set us then None else vfunc v x)) \<and>
    (\<forall>(x, e) \<in> set (expiries (delta v) 0 us). e \<le> unat (time k - lasttime v)) \<and>
    (\<forall>(x, e) \<in> set (expiries (delta v) (delta_sum (delta v) us) vs). unat (time k - lasttime v) < e) \<and>
    expiries (delta v') 0 vs = map (\<lambda>(x, e). (x, e - unat (time k - lasttime v))) (expiries (delta v) (delta_sum (delta v) us) vs)"
proof -
  have mono: "unat (time j - lasttime v) \<le> unat (time (Suc j) - lasttime v)" and close: "unat (time (Suc j) - time j) \<le> 2"
    and bound: "unat (time j - lasttime v) < 2 ^ 32 - 1" for j
    using assms(3) by (simp_all add: counter_runs_def)
  obtain k us vs s' v1 where r: "xs = us @ vs" "call_all cb (vfunc v) us s = Inr s'"
      "tick_outer cb time 0 s v = Some (Inr (k, s', v1))" "vt_ok v1 vs" "delta v1 = delta v"
      "lasttime v1 = lasttime v + of_nat (delta_sum (delta v) us)" "delta_sum (delta v) us \<le> unat (time k - lasttime v)"
      "vs \<noteq> [] \<longrightarrow> unat (time k - lasttime v) < delta_sum (delta v) us + unat (delta v (hd vs))"
      "\<forall>x. vfunc v1 x = (if x \<in> set us then None else vfunc v x)"
    using tick_outer_run [where time = time and i = 0, OF assms(1,2), OF mono bound] by (elim exE conjE) (rule that)
  define E where "E = unat (time k - lasttime v)"
  define S where "S = delta_sum (delta v) us"
  define nd where "nd = time k - lasttime v1"
  have u: "unat nd = E - S"
  proof -
    have S: "S \<le> unat (time k - lasttime v)" using r(7) by (simp add: S_def)
    then have "S < 2 ^ 32" using bound [of k] by simp
    then have u: "unat (of_nat S :: u32) = S" by (simp only: unat_of_nat) simp
    have "nd = time k - lasttime v - of_nat S" by (simp add: nd_def r(6) S_def)
    then show ?thesis using S by (simp only: unat_sub word_le_nat_alt u E_def)
  qed
  have le: "nd \<le> delta v1 (hd vs)" if "vs \<noteq> []" using r(5,8) that u by (simp add: word_le_nat_alt E_def S_def)
  note rb = vt_ok_rebase [OF r(4) le, of "time k"]
  let ?v = "vt_rebase (time k) nd v1"
  have "vt_empty v1 \<or> (case alarm ?v of None \<Rightarrow> False | Some a \<Rightarrow>
           chTimeDiffX (lasttime ?v) (time (Suc k)) \<le> chTimeDiffX (lasttime ?v) a)"
  proof (cases "vt_empty v1")
    case False
    then have l: "lasttime ?v = time k" by (simp add: vt_rebase_def Let_def nd_def)
    define d where "d = chTimeDiffX (time k) (chTimeAddX (time k) (delta ?v (qnext (vlinks v1) VTL)))"
    have "alarm ?v = Some (chTimeAddX (time k) (if d < CH_CFG_ST_TIMEDELTA then CH_CFG_ST_TIMEDELTA else d))"
      using False l by (simp add: vt_rebase_def Let_def d_def)
    moreover have "2 \<le> (if d < CH_CFG_ST_TIMEDELTA then CH_CFG_ST_TIMEDELTA else d)" by (simp add: CH_CFG_ST_TIMEDELTA_def not_less)
    moreover have "time (Suc k) - time k \<le> 2" using close [of k] by (simp add: word_le_nat_alt)
    ultimately show ?thesis using l by (auto simp: chTimeDiffX_def chTimeAddX_def CH_CFG_ST_TIMEDELTA_def split: if_splits)
  qed simp
  moreover have nd: "chTimeDiffX (lasttime v1) (time k) = nd" by (simp add: chTimeDiffX_def nd_def)
  ultimately have run: "chVTDoTickI cb time s v = Inr (s', ?v)"
    unfolding chVTDoTickI_def Let_def r(3) or_fault_simps rbind_simps prod.case nd by simp
  have due: "\<forall>(x, e) \<in> set (expiries (delta v) 0 us). e \<le> E"
    using expiries_le [of _ _ "delta v" 0 us] r(7) by (fastforce simp: E_def)
  have late: "\<forall>(x, e) \<in> set (expiries (delta v) S vs). E < e"
  proof (cases vs)
    case (Cons y ys)
    have "S + unat (delta v y) \<le> e" if "(x, e) \<in> set (expiries (delta v) S vs)" for x e
      using that Cons expiries_ge [of x e "delta v" "S + unat (delta v y)" ys] by auto
    moreover have "E < S + unat (delta v y)" using r(8) Cons by (simp add: E_def S_def)
    ultimately show ?thesis by fastforce
  qed simp
  have left: "expiries (delta ?v) 0 vs = map (\<lambda>(x, e). (x, e - E)) (expiries (delta v) S vs)"
    using rb(2) r(5,7) u expiries_add [of "delta v" 0 S vs] by (simp add: E_def S_def split_beta)
  have fn: "\<forall>x. vfunc ?v x = (if x \<in> set us then None else vfunc v x)" using r(9) rb(4) by simp
  show ?thesis
    by (rule exI [of _ k], fold E_def, rule exI [of _ us], rule exI [of _ vs], rule exI [of _ s'], rule exI [of _ ?v],
        fold S_def, intro conjI r(1,2) run rb(1) fn due late left)
qed

section \<open>The properties\<close>


definition one_timer :: vtlist where
  "one_timer = \<lparr>vlinks = \<lparr>qnext = (\<lambda>_. 0)(0 := 1), qprev = (\<lambda>_. 0)(0 := 1)\<rparr>, delta = (\<lambda>_. 0)(0 := -1, 1 := 4294967286),
     vfunc = [1 \<mapsto> (Wakeup, 1)], lasttime = 7, alarm = Some 4294967293\<rparr>"

lemma one_timer_ok: "vt_ok one_timer [1]"
  by (auto simp: vt_ok_def one_timer_def is_queue_def VTL_def)



definition note_call :: "(vtfunc \<times> node) list vt_callback" where
  "note_call f par s = Inr (s @ [(f, par)])"


text \<open>C34. Disarming a timer adds its delta to that of its successor in 32 bits. When the two deltas add up to more than the
  range, which needs delays of more than half of it, the successor expires a whole range too early.\<close>

theorem vt_reset_wraps:
  assumes "vt_ok v [t, y]" "2 ^ 32 \<le> unat (delta v t) + unat (delta v y)"
  shows "\<exists>v'. chVTDoResetI t now v = Inr v' \<and> vt_ok v' [y] \<and> lasttime v' = lasttime v \<and>
    (\<exists>e. expiries (delta v) 0 [t, y] = [(t, unat (delta v t)), (y, e)] \<and> expiries (delta v') 0 [y] = [(y, e - 2 ^ 32)])"
proof -
  have q: "is_queue (vlinks v) VTL [t, y]" "vfunc v t \<noteq> None" "delta v VTL = -1" using assms(1) by (auto simp: vt_ok_def)
  have f: "qnext (vlinks v) VTL = t" "qnext (vlinks v) t = y" "distinct [VTL, t, y]" using q(1) by (auto simp: is_queue_def)
  have l: "set_qprev y VTL (set_qnext VTL y (vlinks v)) = queue_dequeue t (vlinks v)"
    using q(1) by (auto simp: queue_dequeue_def Let_def is_queue_def)
  have dq: "is_queue (queue_dequeue t (vlinks v)) VTL [y]" using queue_dequeue_queue [of "vlinks v" VTL "[]" t "[y]"] q(1) by simp
  define v1 where "v1 = v\<lparr>vlinks := queue_dequeue t (vlinks v), vfunc := (vfunc v)(t := None), delta := (delta v)(y := delta v y + delta v t)\<rparr>"
  have ne: "\<not> vt_empty (v\<lparr>vlinks := queue_dequeue t (vlinks v), vfunc := (vfunc v)(t := None)\<rparr>)"
    using dq f by (subst vt_empty_iff [of _ "[y]"]) auto
  have "chVTDoResetI t now v = Inr (next_alarm now v1)"
    using q(2) f ne dq by (auto simp: chVTDoResetI_def Let_def l v1_def is_queue_def)
  moreover have "vt_ok (next_alarm now v1) [y]" using dq assms(1) f by (auto simp: vt_ok_def v1_def)
  moreover have "unat (delta v y + delta v t) = unat (delta v t) + unat (delta v y) - 2 ^ 32"
    using assms(2) unsigned_less [where 'a = nat, of "delta v t"] unsigned_less [where 'a = nat, of "delta v y"]
    by (simp add: unat_word_ariths mod_if) linarith
  ultimately show ?thesis by (intro exI [of _ "next_alarm now v1"]) (simp add: v1_def)
qed

theorem vt_reset_wraps_witness:
  "\<exists>v v'. chVTDoSetI 2 4294967294 Wakeup 2 (7 + 2 ^ 31) one_timer = Inr v \<and> chVTDoResetI 1 (8 + 2 ^ 31) v = Inr v' \<and>
    expiries (delta v) 0 [1, 2] = [(1, 2 ^ 32 - 10), (2, 2 ^ 31 + 2 ^ 32 - 2)] \<and> expiries (delta v') 0 [2] = [(2, 2 ^ 31 - 2)]"
proof -
  have "\<exists>v' xs'. chVTDoSetI 2 4294967294 Wakeup 2 (7 + 2 ^ 31) one_timer = Inr v' \<and> vt_ok v' xs' \<and> lasttime v' = lasttime one_timer \<and>
    expiries (delta v') 0 xs' = insert_expiry 2 (2 ^ 31 + safe_delay 4294967294) (expiries (delta one_timer) 0 [1]) \<and>
    vfunc v' = (vfunc one_timer)(2 := Some (Wakeup, 2)) \<and>
    alarm v' = (if 2 ^ 31 + safe_delay 4294967294 < unat (delta one_timer (hd [1])) then Some (lasttime one_timer + of_nat (2 ^ 31 + safe_delay 4294967294)) else alarm one_timer)"
    by (rule set_nonempty [OF one_timer_ok]) (simp_all add: one_timer_def VTL_def)
  then obtain v xs where v: "chVTDoSetI 2 4294967294 Wakeup 2 (7 + 2 ^ 31) one_timer = Inr v" "vt_ok v xs"
      "expiries (delta v) 0 xs = [(1, 2 ^ 32 - 10), (2, 2 ^ 31 + 2 ^ 32 - 2)]"
    by (auto simp: one_timer_def insert_expiry_def safe_delay_def)
  have "xs = [1, 2]" using map_fst_expiries [of "delta v" 0 xs] v(3) by simp
  then have w: "vt_ok v [1, 2]" "2 ^ 32 \<le> unat (delta v 1) + unat (delta v 2)" using v(2,3) by simp_all
  have d: "unat (delta v 1) = 2 ^ 32 - 10" "unat (delta v 1) + unat (delta v 2) = 2 ^ 31 + 2 ^ 32 - 2"
    using v(3) \<open>xs = [1, 2]\<close> by simp_all
  from vt_reset_wraps [OF w, of "8 + 2 ^ 31"] obtain v' e where
    "chVTDoResetI 1 (8 + 2 ^ 31) v = Inr v'" "expiries (delta v) 0 [1, 2] = [(1, unat (delta v 1)), (2, e)]"
    "expiries (delta v') 0 [2] = [(2, e - 2 ^ 32)]" by (elim exE conjE) (rule that)
  moreover have "e = 2 ^ 31 + 2 ^ 32 - 2" using calculation(2) d by simp
  ultimately show ?thesis using v(1) d(1) by (intro exI [of _ v] exI [of _ v'] conjI) simp_all
qed

end
