(* ===== verification/KSched.thy ===== *)
theory KSched
  imports KVt
begin

text \<open>
  The scheduler of the kernel (\<^verbatim>\<open>os/rt/src/chschd.c\<close>, \<^verbatim>\<open>chschd.h\<close>). A thread, a queue header, a semaphore, a mutex and a thread
  reference are named by numbers; the fields of the structures are functions of these. The links of all queues
  are in \<open>ql\<close>, those of the timers in \<open>vtl\<close>, where the timer on the stack of a thread that sleeps
  with a timeout has the name of the thread. An operation that switches to another thread saves in the context of the
  old one what it still has to do when it runs again: a list of frames.
\<close>

section \<open>State\<close>

type_synonym msg = int

definition MSG_OK :: msg where "MSG_OK = 0"
definition MSG_TIMEOUT :: msg where "MSG_TIMEOUT = -1"
definition MSG_RESET :: msg where "MSG_RESET = -2"

definition NOPRIO :: nat where "NOPRIO = 0"
definition IDLEPRIO :: nat where "IDLEPRIO = 1"
definition LOWPRIO :: nat where "LOWPRIO = 2"
definition NORMALPRIO :: nat where "NORMALPRIO = 128"
definition HIGHPRIO :: nat where "HIGHPRIO = 255"

datatype tstate = CH_STATE_READY | CH_STATE_CURRENT | CH_STATE_WTSTART | CH_STATE_SUSPENDED | CH_STATE_QUEUED
  | CH_STATE_WTSEM | CH_STATE_WTMTX | CH_STATE_WTCOND | CH_STATE_SLEEPING | CH_STATE_WTEXIT | CH_STATE_WTOREVT
  | CH_STATE_WTANDEVT | CH_STATE_SNDMSGQ | CH_STATE_SNDMSG | CH_STATE_WTMSG | CH_STATE_FINAL

text \<open>
  The union of a thread: the messages \<open>rdymsg\<close> and \<open>exitcode\<close>, the pointers to a synchronisation object
  \<open>wtsemp\<close>, \<open>wtmtxp\<close> and \<open>wtobjp\<close>, and the pointer to a thread reference \<open>wttrp\<close>.
\<close>

datatype tunion = U_msg msg | U_obj node | U_ref node

text \<open>
  What is left to do when a thread runs again: to disarm the timer of \<open>chSchGoSleepTimeoutS\<close>, to read \<open>rdymsg\<close>,
  to check the ownership in \<open>chMtxLockS\<close>, or to go round the loop of a mailbox operation.
\<close>

datatype frame = F_reset | F_msg | F_mtx node | F_post node msg sysinterval | F_post_ahead node msg sysinterval
  | F_fetch node sysinterval

record kernel =
  ql :: links
  prio :: "node \<Rightarrow> nat"
  realprio :: "node \<Rightarrow> nat"
  kstate :: "node \<Rightarrow> tstate"
  tu :: "node \<Rightarrow> tunion"
  ctx :: "node \<Rightarrow> frame list"
  currp :: node
  cnt :: "node \<Rightarrow> int"
  tref :: "node \<Rightarrow> node option"
  mtxlist :: "node \<Rightarrow> node option"
  m_owner :: "node \<Rightarrow> node option"
  m_next :: "node \<Rightarrow> node option"
  vtl :: vtlist

text \<open>The header of the ready list, which also has a priority.\<close>

definition RL :: node where "RL = 0"

definition set_state :: "node \<Rightarrow> tstate \<Rightarrow> kernel \<Rightarrow> kernel" where
  "set_state t s k = k\<lparr>kstate := (kstate k)(t := s)\<rparr>"

definition set_u :: "node \<Rightarrow> tunion \<Rightarrow> kernel \<Rightarrow> kernel" where
  "set_u t x k = k\<lparr>tu := (tu k)(t := x)\<rparr>"

definition scheduler_init :: "kernel \<Rightarrow> kernel" where
  "scheduler_init k = k\<lparr>ql := queue_init RL (ql k), prio := (prio k)(RL := NOPRIO)\<rparr>"

definition firstprio :: "kernel \<Rightarrow> nat" where
  "firstprio k = prio k (qnext (ql k) RL)"

section \<open>Operations\<close>

definition chSchReadyI :: "node \<Rightarrow> kernel \<Rightarrow> kernel result" where
  "chSchReadyI tp k =
     rbind (assert_or_halt (kstate k tp \<noteq> CH_STATE_READY \<and> kstate k tp \<noteq> CH_STATE_FINAL)) (\<lambda>_.
       let k = set_state tp CH_STATE_READY k in
       rbind (or_fault Diverge (queue_scan (\<lambda>cp. prio k cp \<ge> prio k tp) (ql k) RL)) (\<lambda>cp.
         Inr (k\<lparr>ql := insert_on_prev tp cp (ql k)\<rparr>)))"

definition chSchReadyAheadI :: "node \<Rightarrow> kernel \<Rightarrow> kernel result" where
  "chSchReadyAheadI tp k =
     rbind (assert_or_halt (kstate k tp \<noteq> CH_STATE_READY \<and> kstate k tp \<noteq> CH_STATE_FINAL)) (\<lambda>_.
       let k = set_state tp CH_STATE_READY k in
       rbind (or_fault Diverge (queue_scan (\<lambda>cp. prio k cp > prio k tp) (ql k) RL)) (\<lambda>cp.
         Inr (k\<lparr>ql := insert_on_prev tp cp (ql k)\<rparr>)))"

text \<open>The first ready thread becomes the current one.\<close>

definition take_first :: "kernel \<Rightarrow> kernel" where
  "take_first k =
     (let (tp, l) = queue_fifo_remove RL (ql k) in set_state tp CH_STATE_CURRENT (k\<lparr>ql := l, currp := tp\<rparr>))"

definition chSysSwitch :: "node \<Rightarrow> frame list \<Rightarrow> kernel \<Rightarrow> kernel" where
  "chSysSwitch otp fs k = k\<lparr>ctx := (ctx k)(otp := fs)\<rparr>"

definition chSchGoSleepS :: "frame list \<Rightarrow> tstate \<Rightarrow> kernel \<Rightarrow> kernel" where
  "chSchGoSleepS fs newstate k =
     (let otp = currp k in chSysSwitch otp fs (take_first (set_state otp newstate k)))"

definition chSchGoSleepTimeoutS :: "frame list \<Rightarrow> tstate \<Rightarrow> sysinterval \<Rightarrow> systime \<Rightarrow> kernel \<Rightarrow> kernel result" where
  "chSchGoSleepTimeoutS fs newstate timeout now k =
     (if timeout \<noteq> TIME_INFINITE then
        rbind (chVTDoSetI (currp k) timeout Wakeup (currp k) now (vtl k)) (\<lambda>v.
          Inr (chSchGoSleepS (F_reset # F_msg # fs) newstate (k\<lparr>vtl := v\<rparr>)))
      else Inr (chSchGoSleepS (F_msg # fs) newstate k))"

text \<open>Increment and decrement of a semaphore counter, a signed 32-bit integer.\<close>

definition cnt_add :: "int \<Rightarrow> node \<Rightarrow> kernel \<Rightarrow> kernel result" where
  "cnt_add d sp k =
     (if - (2 ^ 31) \<le> cnt k sp + d \<and> cnt k sp + d < 2 ^ 31 then Inr (k\<lparr>cnt := (cnt k)(sp := cnt k sp + d)\<rparr>)
      else Inl SignedOverflow)"

definition chSemFastSignalI :: "node \<Rightarrow> kernel \<Rightarrow> kernel result" where
  "chSemFastSignalI sp = cnt_add 1 sp"

text \<open>The callback of the timer of a sleeping thread.\<close>

definition timed_out :: "node \<Rightarrow> kernel \<Rightarrow> kernel result" where
  "timed_out tp k = chSchReadyI tp (set_u tp (U_msg MSG_TIMEOUT) k)"

definition wakeup :: "node \<Rightarrow> kernel \<Rightarrow> kernel result" where
  "wakeup tp k =
     (case kstate k tp of
        CH_STATE_READY \<Rightarrow> Inr k
      | CH_STATE_SUSPENDED \<Rightarrow>
          (case tu k tp of U_ref r \<Rightarrow> timed_out tp (k\<lparr>tref := (tref k)(r := None)\<rparr>) | _ \<Rightarrow> Inl Garbage)
      | CH_STATE_WTSEM \<Rightarrow>
          (case tu k tp of
             U_obj sp \<Rightarrow> rbind (chSemFastSignalI sp k) (\<lambda>k. timed_out tp (k\<lparr>ql := queue_dequeue tp (ql k)\<rparr>))
           | _ \<Rightarrow> Inl Garbage)
      | CH_STATE_QUEUED \<Rightarrow> timed_out tp (k\<lparr>ql := queue_dequeue tp (ql k)\<rparr>)
      | CH_STATE_WTCOND \<Rightarrow> timed_out tp (k\<lparr>ql := queue_dequeue tp (ql k)\<rparr>)
      | _ \<Rightarrow> timed_out tp k)"

definition chSchWakeupS :: "node \<Rightarrow> msg \<Rightarrow> kernel \<Rightarrow> kernel result" where
  "chSchWakeupS ntp msg k =
     (let otp = currp k in
      rbind (assert_or_halt (qnext (ql k) RL = RL \<or> prio k (currp k) \<ge> firstprio k)) (\<lambda>_.
        let k = set_u ntp (U_msg msg) k in
        if prio k ntp \<le> prio k otp then chSchReadyI ntp k
        else rbind (chSchReadyI otp k) (\<lambda>k.
          Inr (chSysSwitch otp [] (set_state ntp CH_STATE_CURRENT (k\<lparr>currp := ntp\<rparr>))))))"

definition chSchIsRescRequiredI :: "kernel \<Rightarrow> bool" where
  "chSchIsRescRequiredI k \<longleftrightarrow> firstprio k > prio k (currp k)"

definition chSchCanYieldS :: "kernel \<Rightarrow> bool" where
  "chSchCanYieldS k \<longleftrightarrow> firstprio k \<ge> prio k (currp k)"

definition chSchIsPreemptionRequired :: "kernel \<Rightarrow> bool" where
  "chSchIsPreemptionRequired k \<longleftrightarrow> (let p1 = firstprio k; p2 = prio k (currp k) in p1 > p2)"

definition chSchDoRescheduleBehind :: "kernel \<Rightarrow> kernel result" where
  "chSchDoRescheduleBehind k =
     (let otp = currp k in rbind (chSchReadyI otp (take_first k)) (\<lambda>k. Inr (chSysSwitch otp [] k)))"

definition chSchDoRescheduleAhead :: "kernel \<Rightarrow> kernel result" where
  "chSchDoRescheduleAhead k =
     (let otp = currp k in rbind (chSchReadyAheadI otp (take_first k)) (\<lambda>k. Inr (chSysSwitch otp [] k)))"

definition chSchDoReschedule :: "kernel \<Rightarrow> kernel result" where
  "chSchDoReschedule k =
     (let otp = currp k in rbind (chSchReadyAheadI otp (take_first k)) (\<lambda>k. Inr (chSysSwitch otp [] k)))"

definition chSchRescheduleS :: "kernel \<Rightarrow> kernel result" where
  "chSchRescheduleS k = (if chSchIsRescRequiredI k then chSchDoRescheduleAhead k else Inr k)"

definition chSchDoYieldS :: "kernel \<Rightarrow> kernel result" where
  "chSchDoYieldS k = (if chSchCanYieldS k then chSchDoRescheduleBehind k else Inr k)"

definition chSchPreemption :: "kernel \<Rightarrow> kernel result" where
  "chSchPreemption k =
     (let p1 = firstprio k; p2 = prio k (currp k) in if p1 > p2 then chSchDoRescheduleAhead k else Inr k)"

text \<open>The rest of \<open>chSchGoSleepTimeoutS\<close>, run by the thread when it is current again.\<close>

definition resume_reset :: "systime \<Rightarrow> kernel \<Rightarrow> kernel result" where
  "resume_reset now k = rbind (chVTResetI (currp k) now (vtl k)) (\<lambda>v. Inr (k\<lparr>vtl := v\<rparr>))"

definition resume_msg :: "kernel \<Rightarrow> msg result" where
  "resume_msg k = (case tu k (currp k) of U_msg m \<Rightarrow> Inr m | _ \<Rightarrow> Inl Garbage)"

section \<open>The invariant\<close>

text \<open>What the nodes are. The idle thread is always ready or running.\<close>

datatype kind = KReady | KThread | KSem | KMtx | KCond | KQueue | KNone

definition IDLE :: node where "IDLE = 1"

definition hdr :: "(node \<Rightarrow> kind) \<Rightarrow> node \<Rightarrow> bool" where
  "hdr kd h \<longleftrightarrow> kd h \<in> {KReady, KSem, KMtx, KCond, KQueue}"

definition thread :: "(node \<Rightarrow> kind) \<Rightarrow> node \<Rightarrow> bool" where
  "thread kd t \<longleftrightarrow> kd t = KThread"

lemma thread_not_hdr [simp]: "thread kd t \<Longrightarrow> \<not> hdr kd t"
  by (simp add: thread_def hdr_def)

text \<open>The state that a thread has when it is in a queue.\<close>

fun lives :: "kind \<Rightarrow> kernel \<Rightarrow> node \<Rightarrow> node \<Rightarrow> bool" where
  "lives KReady k h t = (kstate k t = CH_STATE_READY)"
| "lives KSem k h t = (kstate k t = CH_STATE_WTSEM \<and> tu k t = U_obj h)"
| "lives KMtx k h t = (kstate k t = CH_STATE_WTMTX \<and> tu k t = U_obj h)"
| "lives KCond k h t = (kstate k t = CH_STATE_WTCOND \<and> tu k t = U_obj h)"
| "lives KQueue k h t = (kstate k t = CH_STATE_QUEUED)"
| "lives _ k h t = False"

definition in_queue :: "tstate \<Rightarrow> bool" where
  "in_queue s \<longleftrightarrow> s \<in> {CH_STATE_READY, CH_STATE_WTSEM, CH_STATE_WTMTX, CH_STATE_WTCOND, CH_STATE_QUEUED}"

definition timed :: "tstate \<Rightarrow> bool" where
  "timed s \<longleftrightarrow> s \<in> {CH_STATE_READY, CH_STATE_CURRENT, CH_STATE_SUSPENDED, CH_STATE_QUEUED, CH_STATE_WTSEM, CH_STATE_WTCOND,
     CH_STATE_SLEEPING}"

definition runnable :: "tstate \<Rightarrow> bool" where
  "runnable s \<longleftrightarrow> s \<in> {CH_STATE_READY, CH_STATE_CURRENT}"

lemmas state_defs = in_queue_def timed_def runnable_def

text \<open>The invariant of one thread. \<open>A\<close> is the set of threads with an armed timer, \<open>Q\<close> gives the elements of the queues.\<close>

definition tok :: "(node \<Rightarrow> kind) \<Rightarrow> node set \<Rightarrow> kernel \<Rightarrow> (node \<Rightarrow> node list) \<Rightarrow> node \<Rightarrow> bool" where
  "tok kd A k Q t \<longleftrightarrow>
     (\<forall>h. hdr kd h \<longrightarrow> t \<in> set (Q h) \<longrightarrow> lives (kd h) k h t) \<and>
     (in_queue (kstate k t) \<longrightarrow> (\<exists>h. hdr kd h \<and> t \<in> set (Q h))) \<and>
     (kstate k t = CH_STATE_CURRENT \<longleftrightarrow> t = currp k) \<and>
     (t = IDLE \<longrightarrow> runnable (kstate k t)) \<and>
     (\<forall>r. tref k r = Some t \<longrightarrow> kstate k t = CH_STATE_SUSPENDED \<and> tu k t = U_ref r) \<and>
     (kstate k t = CH_STATE_SUSPENDED \<longrightarrow> (\<exists>r. tref k r = Some t)) \<and>
     (t \<in> A \<longrightarrow> timed (kstate k t) \<and> (\<exists>fs. ctx k t = F_reset # fs)) \<and>
     (runnable (kstate k t) \<and> F_msg \<in> set (ctx k t) \<longrightarrow> (\<exists>m. tu k t = U_msg m))"

text \<open>A semaphore counts its waiting threads.\<close>

definition sem_ok :: "int \<Rightarrow> node list \<Rightarrow> bool" where
  "sem_ok n q \<longleftrightarrow> - int (length q) = min n 0 \<and> - (2 ^ 31) \<le> n \<and> n < 2 ^ 31"

definition by_prio :: "(node \<Rightarrow> nat) \<Rightarrow> node list \<Rightarrow> bool" where
  "by_prio p q \<longleftrightarrow> sorted_wrt (\<lambda>s t. p t \<le> p s) q"

definition kglob :: "(node \<Rightarrow> kind) \<Rightarrow> node set \<Rightarrow> kernel \<Rightarrow> (node \<Rightarrow> node list) \<Rightarrow> bool" where
  "kglob kd A k Q \<longleftrightarrow>
     queues (ql k) {h. hdr kd h} Q \<and> (\<forall>h t. hdr kd h \<longrightarrow> t \<in> set (Q h) \<longrightarrow> thread kd t) \<and>
     (\<forall>h. kd h = KReady \<longleftrightarrow> h = RL) \<and> thread kd IDLE \<and> thread kd (currp k) \<and>
     by_prio (prio k) (Q RL) \<and> (\<forall>t. thread kd t \<longrightarrow> 0 < prio k t) \<and> prio k RL = 0 \<and>
     (\<forall>s. kd s = KSem \<longrightarrow> sem_ok (cnt k s) (Q s)) \<and>
     (\<forall>r t. tref k r = Some t \<longrightarrow> thread kd t) \<and> (\<forall>t \<in> A. thread kd t)"

text \<open>The invariant with exceptions: the threads of \<open>X\<close> are on their way between two states.\<close>

definition kcore :: "(node \<Rightarrow> kind) \<Rightarrow> node set \<Rightarrow> kernel \<Rightarrow> (node \<Rightarrow> node list) \<Rightarrow> node set \<Rightarrow> bool" where
  "kcore kd A k Q X \<longleftrightarrow> kglob kd A k Q \<and> (\<forall>t. thread kd t \<longrightarrow> t \<notin> X \<longrightarrow> tok kd A k Q t)"

definition timers_ok :: "node set \<Rightarrow> kernel \<Rightarrow> bool" where
  "timers_ok A k \<longleftrightarrow> (\<exists>xs. vt_ok (vtl k) xs \<and> set xs = A \<and> (\<forall>t \<in> A. vfunc (vtl k) t = Some (Wakeup, t)))"

text \<open>No ready thread has a higher priority than the running one.\<close>

definition top_prio :: "kernel \<Rightarrow> (node \<Rightarrow> node list) \<Rightarrow> bool" where
  "top_prio k Q \<longleftrightarrow> (\<forall>t \<in> set (Q RL). prio k t \<le> prio k (currp k))"

lemma set_state_simps [simp]:
  "ql (set_state t s k) = ql k" "prio (set_state t s k) = prio k" "kstate (set_state t s k) = (kstate k)(t := s)"
  "tu (set_state t s k) = tu k" "ctx (set_state t s k) = ctx k" "currp (set_state t s k) = currp k" "cnt (set_state t s k) = cnt k"
  "tref (set_state t s k) = tref k" "vtl (set_state t s k) = vtl k" "realprio (set_state t s k) = realprio k"
  "mtxlist (set_state t s k) = mtxlist k" "m_owner (set_state t s k) = m_owner k" "m_next (set_state t s k) = m_next k"
  by (simp_all add: set_state_def)

lemma set_u_simps [simp]:
  "ql (set_u t x k) = ql k" "prio (set_u t x k) = prio k" "kstate (set_u t x k) = kstate k"
  "tu (set_u t x k) = (tu k)(t := x)" "ctx (set_u t x k) = ctx k" "currp (set_u t x k) = currp k" "cnt (set_u t x k) = cnt k"
  "tref (set_u t x k) = tref k" "vtl (set_u t x k) = vtl k" "realprio (set_u t x k) = realprio k"
  "mtxlist (set_u t x k) = mtxlist k" "m_owner (set_u t x k) = m_owner k" "m_next (set_u t x k) = m_next k"
  by (simp_all add: set_u_def)

lemma chSysSwitch_simps [simp]:
  "ql (chSysSwitch t x k) = ql k" "prio (chSysSwitch t x k) = prio k" "kstate (chSysSwitch t x k) = kstate k"
  "tu (chSysSwitch t x k) = tu k" "ctx (chSysSwitch t x k) = (ctx k)(t := x)" "currp (chSysSwitch t x k) = currp k" "cnt (chSysSwitch t x k) = cnt k"
  "tref (chSysSwitch t x k) = tref k" "vtl (chSysSwitch t x k) = vtl k" "realprio (chSysSwitch t x k) = realprio k"
  "mtxlist (chSysSwitch t x k) = mtxlist k" "m_owner (chSysSwitch t x k) = m_owner k" "m_next (chSysSwitch t x k) = m_next k"
  by (simp_all add: chSysSwitch_def)

text \<open>A thread is well as long as nothing of it changes.\<close>

lemma lives_cong: "kstate k' t = kstate k t \<Longrightarrow> tu k' t = tu k t \<Longrightarrow> lives d k' h t = lives d k h t"
  by (cases d) simp_all

lemma tok_frame:
  assumes "tok kd A k Q t" "kstate k' t = kstate k t" "tu k' t = tu k t" "ctx k' t = ctx k t" "t = currp k' \<longleftrightarrow> t = currp k"
    and "\<And>r. tref k' r = Some t \<longleftrightarrow> tref k r = Some t" "t \<in> A' \<longleftrightarrow> t \<in> A"
    and "\<And>h. hdr kd h \<Longrightarrow> t \<in> set (Q' h) \<longleftrightarrow> t \<in> set (Q h)"
  shows "tok kd A' k' Q' t"
  unfolding tok_def assms(2-7)
  using assms(1,8) unfolding tok_def by (simp add: lives_cong [OF assms(2,3)]) blast

lemma kcoreI:
  assumes "kglob kd A k Q" "\<And>t. thread kd t \<Longrightarrow> t \<notin> X \<Longrightarrow> tok kd A k Q t"
  shows "kcore kd A k Q X"
  using assms by (simp add: kcore_def)

lemma kcore_tok: "kcore kd A k Q X \<Longrightarrow> thread kd t \<Longrightarrow> t \<notin> X \<Longrightarrow> tok kd A k Q t"
  by (simp add: kcore_def)

lemma kcore_glob: "kcore kd A k Q X \<Longrightarrow> kglob kd A k Q"
  by (simp add: kcore_def)

lemma kcore_mono: "kcore kd A k Q X \<Longrightarrow> X \<subseteq> Y \<Longrightarrow> kcore kd A k Q Y"
  by (auto simp: kcore_def)

lemma kcore_settle:
  assumes "kcore kd A k Q (insert t X)" "tok kd A k Q t"
  shows "kcore kd A k Q X"
  using assms by (auto simp: kcore_def)

lemma kglobD:
  assumes "kglob kd A k Q"
  shows "queues (ql k) {h. hdr kd h} Q" "hdr kd h \<Longrightarrow> t \<in> set (Q h) \<Longrightarrow> thread kd t" "kd h = KReady \<longleftrightarrow> h = RL"
    "thread kd IDLE" "thread kd (currp k)" "by_prio (prio k) (Q RL)" "thread kd t \<Longrightarrow> 0 < prio k t" "prio k RL = 0"
    "kd s = KSem \<Longrightarrow> sem_ok (cnt k s) (Q s)" "tref k r = Some t \<Longrightarrow> thread kd t" "t \<in> A \<Longrightarrow> thread kd t"
  using assms by (simp_all add: kglob_def)

lemma hdr_RL: "kglob kd A k Q \<Longrightarrow> hdr kd RL"
  using kglobD(3) [of kd A k Q RL] by (simp add: hdr_def)

section \<open>Steps between consistent states\<close>

lemma kglob_queue:
  assumes "kglob kd A k Q" "queues (ql k') {h. hdr kd h} (Q(h := xs))" "\<And>t. t \<in> set xs \<Longrightarrow> thread kd t"
    "h = RL \<Longrightarrow> by_prio (prio k) xs" "\<And>s. kd s = KSem \<Longrightarrow> sem_ok (cnt k' s) ((Q(h := xs)) s)"
    "prio k' = prio k" "tref k' = tref k" "thread kd (currp k')"
  shows "kglob kd A k' (Q(h := xs))"
  using kglobD [OF assms(1)] assms(2-8) unfolding kglob_def by auto

lemma by_prio_remove: "by_prio p q \<Longrightarrow> by_prio p (remove1 t q)"
proof (induction q)
  case (Cons x q)
  then show ?case using set_remove1_subset [of t q] by (auto simp: by_prio_def)
qed simp

lemma kind_RL: "kglob kd A k Q \<Longrightarrow> kd s = KSem \<Longrightarrow> s \<noteq> RL"
  using kglobD(3) [of kd A k Q RL] by auto

text \<open>The fields of a thread on its way do not matter.\<close>

lemma kcore_local:
  assumes "kcore kd A k Q X" "t \<in> X"
    and "\<And>s. s \<noteq> t \<Longrightarrow> kstate k' s = kstate k s \<and> tu k' s = tu k s \<and> ctx k' s = ctx k s"
    and "ql k' = ql k" "currp k' = currp k" "prio k' = prio k" "cnt k' = cnt k" "tref k' = tref k"
  shows "kcore kd A k' Q X"
proof (rule kcoreI)
  show "kglob kd A k' Q" using kcore_glob [OF assms(1)] unfolding kglob_def assms(4-8) .
  fix s assume "thread kd s" "s \<notin> X"
  moreover have "s \<noteq> t" using \<open>s \<notin> X\<close> assms(2) by auto
  ultimately show "tok kd A k' Q s" using assms(3) [of s] assms(4-8) by (intro tok_frame [OF kcore_tok [OF assms(1), of s]]) auto
qed

text \<open>A thread leaves a queue.\<close>

lemma kcore_dequeue:
  assumes "kcore kd A k Q X" "hdr kd h" "t \<in> set (Q h)"
    and sem: "\<And>s. kd s = KSem \<Longrightarrow> sem_ok (c s) ((Q(h := remove1 t (Q h))) s)"
  shows "kcore kd A (k\<lparr>ql := queue_dequeue t (ql k), cnt := c\<rparr>) (Q(h := remove1 t (Q h))) (insert t X)"
    "loose {h. hdr kd h} (Q(h := remove1 t (Q h))) t"
proof -
  let ?Q = "Q(h := remove1 t (Q h))"
  note g = kglobD [OF kcore_glob [OF assms(1)]]
  show "loose {h. hdr kd h} ?Q t" using loose_after [OF g(1)] assms(2,3) by simp
  have q: "queues (queue_dequeue t (ql k)) {h. hdr kd h} ?Q" using queues_dequeue [OF g(1)] assms(2,3) by simp
  have sub: "set (?Q i) \<subseteq> set (Q i)" for i using set_remove1_subset [of t "Q h"] by simp
  show "kcore kd A (k\<lparr>ql := queue_dequeue t (ql k), cnt := c\<rparr>) ?Q (insert t X)"
  proof (rule kcoreI)
    have "by_prio (prio k) (remove1 t (Q RL))" using g(6) by (rule by_prio_remove)
    then show "kglob kd A (k\<lparr>ql := queue_dequeue t (ql k), cnt := c\<rparr>) ?Q"
      using q sem g(2,5) assms(2) sub [of h] by (intro kglob_queue [OF kcore_glob [OF assms(1)]]) auto
    fix s assume s: "thread kd s" "s \<notin> insert t X"
    then have "s \<in> set (?Q i) \<longleftrightarrow> s \<in> set (Q i)" for i by auto
    then show "tok kd A (k\<lparr>ql := queue_dequeue t (ql k), cnt := c\<rparr>) ?Q s"
      using s by (intro tok_frame [OF kcore_tok [OF assms(1), of s]]) auto
  qed
qed

lemma by_prio_insert:
  assumes "by_prio p q" "\<And>x. p t < p x \<Longrightarrow> cond x" "\<And>x. cond x \<Longrightarrow> p t \<le> p x"
  shows "by_prio p (insert_after cond t q)"
  using assms(1)
proof (induction q)
  case (Cons x q)
  show ?case
  proof (cases "cond x")
    case True
    then have "insert_after cond t (x # q) = x # insert_after cond t q" by (simp add: insert_after_def)
    then show ?thesis using Cons assms(3) [OF True] by (auto simp: by_prio_def)
  next
    case False
    then have "insert_after cond t (x # q) = t # x # q" "p x \<le> p t" using assms(2) [of x] by (auto simp: insert_after_def intro: leI)
    then show ?thesis using Cons.prems by (auto simp: by_prio_def)
  qed
qed (simp add: by_prio_def)

text \<open>A thread that is in no queue becomes ready.\<close>

definition ready_inv :: "(node \<Rightarrow> kind) \<Rightarrow> node set \<Rightarrow> kernel \<Rightarrow> (node \<Rightarrow> node list) \<Rightarrow> node \<Rightarrow> bool" where
  "ready_inv kd A k Q t \<longleftrightarrow> thread kd t \<and> loose {h. hdr kd h} Q t \<and> t \<noteq> currp k \<and> (\<forall>r. tref k r \<noteq> Some t) \<and>
     (t \<in> A \<longrightarrow> (\<exists>fs. ctx k t = F_reset # fs)) \<and> (F_msg \<in> set (ctx k t) \<longrightarrow> (\<exists>m. tu k t = U_msg m))"

lemma tok_readyI:
  assumes "kstate k t = CH_STATE_READY" "\<And>h. hdr kd h \<Longrightarrow> t \<in> set (Q h) \<Longrightarrow> h = RL" "kd RL = KReady" "hdr kd RL" "t \<in> set (Q RL)"
    "t \<noteq> currp k" "\<And>r. tref k r \<noteq> Some t" "t \<in> A \<Longrightarrow> \<exists>fs. ctx k t = F_reset # fs" "F_msg \<in> set (ctx k t) \<Longrightarrow> \<exists>m. tu k t = U_msg m"
  shows "tok kd A k Q t"
  unfolding tok_def
proof (intro conjI allI impI)
  show "lives (kd h) k h t" if "hdr kd h" "t \<in> set (Q h)" for h using assms(2) [OF that] assms(1,3) by simp
  show "\<exists>h. hdr kd h \<and> t \<in> set (Q h)" using assms(4,5) by blast
  show "\<exists>m. tu k t = U_msg m" if "runnable (kstate k t) \<and> F_msg \<in> set (ctx k t)" using that assms(9) by blast
qed (use assms(1,6-8) in \<open>simp_all add: state_defs\<close>)

lemma kcore_ready:
  assumes core: "kcore kd A k Q X" and t: "ready_inv kd A k Q t"
    and cond: "\<And>x. prio k t < prio k x \<Longrightarrow> cond x" "\<And>x. cond x \<Longrightarrow> prio k t \<le> prio k x"
  obtains cp where "queue_scan cond (ql k) RL = Some cp"
    "kcore kd A ((set_state t CH_STATE_READY k)\<lparr>ql := insert_on_prev t cp (ql k)\<rparr>) (Q(RL := insert_after cond t (Q RL))) (X - {t})"
proof -
  let ?Q = "Q(RL := insert_after cond t (Q RL))"
  note glob = kcore_glob [OF core] note g = kglobD [OF glob]
  note r = t [unfolded ready_inv_def]
  have "\<not> cond RL" using cond(2) [of RL] g(7) [of t] g(8) r by auto
  then obtain cp where cp: "queue_scan cond (ql k) RL = Some cp" "queues (insert_on_prev t cp (ql k)) {h. hdr kd h} ?Q"
    using queues_scan_insert [OF g(1), of RL t cond] hdr_RL [OF glob] r by auto
  let ?k = "(set_state t CH_STATE_READY k)\<lparr>ql := insert_on_prev t cp (ql k)\<rparr>"
  have kg: "kglob kd A ?k ?Q"
  proof (rule kglob_queue [OF glob])
    show "queues (ql ?k) {h. hdr kd h} ?Q" using cp(2) by simp
    show "thread kd s" if "s \<in> set (insert_after cond t (Q RL))" for s using that g(2) [OF hdr_RL [OF glob]] r by auto
    show "by_prio (prio k) (insert_after cond t (Q RL))" by (rule by_prio_insert [OF g(6) cond])
    show "sem_ok (cnt ?k s) (?Q s)" if "kd s = KSem" for s using kind_RL [OF glob that] g(9) [OF that] by simp
  qed (use g(5) in simp_all)
  have new: "tok kd A ?k ?Q t"
  proof -
    have l: "\<And>h. hdr kd h \<Longrightarrow> t \<notin> set (Q h)" using r by (simp add: loose_def members_def)
    show ?thesis
    proof (rule tok_readyI)
      show "h = RL" if "hdr kd h" "t \<in> set (?Q h)" for h using that l [of h] by (cases "h = RL") simp_all
    qed (use r g(3) [of RL] hdr_RL [OF glob] in simp_all)
  qed
  have "kcore kd A ?k ?Q (X - {t})"
  proof (rule kcoreI [OF kg])
    fix s assume s: "thread kd s" "s \<notin> X - {t}"
    show "tok kd A ?k ?Q s"
    proof (cases "s = t")
      case False
      then have "s \<in> set (?Q i) \<longleftrightarrow> s \<in> set (Q i)" for i by auto
      then show ?thesis using s False by (intro tok_frame [OF kcore_tok [OF core, of s]]) auto
    qed (use new in simp)
  qed
  then show thesis using that cp(1) by blast
qed

lemma ready_ok:
  assumes "kcore kd A k Q X" "ready_inv kd A k Q t" "kstate k t \<notin> {CH_STATE_READY, CH_STATE_FINAL}"
  shows "\<exists>l. chSchReadyI t k = Inr ((set_state t CH_STATE_READY k)\<lparr>ql := l\<rparr>) \<and>
    kcore kd A ((set_state t CH_STATE_READY k)\<lparr>ql := l\<rparr>) (Q(RL := insert_after (\<lambda>x. prio k t \<le> prio k x) t (Q RL))) (X - {t})"
  using kcore_ready [OF assms(1,2), of "\<lambda>x. prio k t \<le> prio k x"] assms(3) by (force simp: chSchReadyI_def Let_def)

lemma ready_ahead_ok:
  assumes "kcore kd A k Q X" "ready_inv kd A k Q t" "kstate k t \<notin> {CH_STATE_READY, CH_STATE_FINAL}"
  shows "\<exists>l. chSchReadyAheadI t k = Inr ((set_state t CH_STATE_READY k)\<lparr>ql := l\<rparr>) \<and>
    kcore kd A ((set_state t CH_STATE_READY k)\<lparr>ql := l\<rparr>) (Q(RL := insert_after (\<lambda>x. prio k t < prio k x) t (Q RL))) (X - {t})"
  using kcore_ready [OF assms(1,2), of "\<lambda>x. prio k t < prio k x"] assms(3) by (force simp: chSchReadyAheadI_def Let_def)

text \<open>The first ready thread becomes current.\<close>

lemma kcore_take_first:
  assumes core: "kcore kd A k Q X" and q: "Q RL = tp # qs" and o: "currp k \<in> X" "tp \<notin> X"
  shows "take_first k = (set_state tp CH_STATE_CURRENT k)\<lparr>ql := queue_dequeue tp (ql k), currp := tp\<rparr>"
    "kcore kd A (take_first k) (Q(RL := qs)) X" "thread kd tp" "kstate k tp = CH_STATE_READY" "tp \<noteq> currp k"
proof -
  note glob = kcore_glob [OF core] note g = kglobD [OF glob] note h = hdr_RL [OF glob]
  note fi = queues_fifo [OF g(1) _ q] h
  show eq: "take_first k = (set_state tp CH_STATE_CURRENT k)\<lparr>ql := queue_dequeue tp (ql k), currp := tp\<rparr>"
    using fi(1) h by (simp add: take_first_def set_state_def)
  show tp: "thread kd tp" using g(2) [OF h] q by simp
  have kd: "kd RL = KReady" using g(3) by simp
  have tok: "tok kd A k Q tp" by (rule kcore_tok [OF core tp o(2)])
  then have "lives (kd RL) k RL tp" using h q unfolding tok_def by simp
  then show rd: "kstate k tp = CH_STATE_READY" using kd by simp
  show ne: "tp \<noteq> currp k" using o by auto
  have d: "tp \<notin> set qs" using queues_distinct [OF g(1), of RL] h q by simp
  let ?k = "take_first k" let ?Q = "Q(RL := qs)"
  have sub: "set (?Q i) \<subseteq> set (Q i)" for i using q by auto
  show "kcore kd A ?k ?Q X"
  proof (rule kcoreI)
    have "by_prio (prio k) qs" using g(6) q by (simp add: by_prio_def)
    then show "kglob kd A ?k ?Q"
      using g(2,9) fi(2) h tp q kind_RL [OF glob] by (intro kglob_queue [OF glob]) (auto simp: eq)
    fix s assume s: "thread kd s" "s \<notin> X"
    show "tok kd A ?k ?Q s"
    proof (cases "s = tp")
      case False
      then have "s \<in> set (?Q i) \<longleftrightarrow> s \<in> set (Q i)" for i using q by auto
      moreover have "s \<noteq> currp k" using s(2) o(1) by auto
      ultimately show ?thesis using False s by (intro tok_frame [OF kcore_tok [OF core s]]) (auto simp: eq)
    next
      case True
      have "i = RL" if "hdr kd i" "tp \<in> set (Q i)" for i
        using tok that rd unfolding tok_def by (cases "kd i") (auto simp: g(3))
      then have "tp \<notin> set (?Q i)" if "hdr kd i" for i using that d by auto
      then show ?thesis using True tok rd unfolding tok_def eq by (auto simp: state_defs)
    qed
  qed
qed

text \<open>The idle thread is there to be taken.\<close>

lemma ready_nonempty:
  assumes core: "kcore kd A k Q X" and "IDLE \<notin> X" "currp k \<noteq> IDLE"
  shows "Q RL \<noteq> []"
proof -
  note g = kglobD [OF kcore_glob [OF core]]
  have t: "tok kd A k Q IDLE" using kcore_tok [OF core g(4)] assms(2) .
  then have r: "kstate k IDLE = CH_STATE_READY" using assms(3) by (auto simp: tok_def state_defs)
  then obtain h where h: "hdr kd h" "IDLE \<in> set (Q h)" using t by (auto simp: tok_def state_defs)
  then have "lives (kd h) k h IDLE" using t by (auto simp: tok_def)
  then have "h = RL" using r g(3) h(1) by (cases "kd h") (auto simp: hdr_def)
  then show ?thesis using h by auto
qed

section \<open>The scheduler operations keep the invariant\<close>

text \<open>What scheduling leaves alone.\<close>

definition same_objects :: "kernel \<Rightarrow> kernel \<Rightarrow> bool" where
  "same_objects k k' \<longleftrightarrow> prio k' = prio k \<and> realprio k' = realprio k \<and> cnt k' = cnt k \<and> tref k' = tref k \<and>
     mtxlist k' = mtxlist k \<and> m_owner k' = m_owner k \<and> m_next k' = m_next k \<and> vtl k' = vtl k"

lemma same_objects_simps [simp]:
  "same_objects k k" "same_objects k (set_state t s k') = same_objects k k'" "same_objects k (set_u t x k') = same_objects k k'"
  "same_objects k (chSysSwitch t fs k') = same_objects k k'" "same_objects k (k'\<lparr>ql := l\<rparr>) = same_objects k k'"
  "same_objects k (k'\<lparr>currp := t\<rparr>) = same_objects k k'"
  by (simp_all add: same_objects_def)

lemma same_objectsD: "same_objects k k' \<Longrightarrow> prio k' = prio k" "same_objects k k' \<Longrightarrow> vtl k' = vtl k"
  by (simp_all add: same_objects_def)

lemma curr_loose:
  assumes "kcore kd A k Q X" "currp k \<notin> X"
  shows "loose {h. hdr kd h} Q (currp k)" "kstate k (currp k) = CH_STATE_CURRENT"
proof -
  note g = kglobD [OF kcore_glob [OF assms(1)]]
  have t: "tok kd A k Q (currp k)" by (rule kcore_tok [OF assms(1) g(5) assms(2)])
  then show st: "kstate k (currp k) = CH_STATE_CURRENT" by (simp add: tok_def)
  have "currp k \<notin> set (Q h)" if "hdr kd h" for h
    using t that st by (cases "kd h") (auto simp: tok_def)
  moreover have "currp k \<noteq> h" if "hdr kd h" for h using that thread_not_hdr [OF g(5)] by auto
  ultimately show "loose {h. hdr kd h} Q (currp k)" by (auto simp: loose_def members_def)
qed

text \<open>A running thread has nothing left to do in an earlier operation, and no timer.\<close>

lemma curr_idle:
  assumes "kcore kd A k Q X" "currp k \<notin> X" "ctx k (currp k) = []"
  shows "currp k \<notin> A" "tref k r \<noteq> Some (currp k)"
proof -
  note g = kglobD [OF kcore_glob [OF assms(1)]]
  have "tok kd A k Q (currp k)" by (rule kcore_tok [OF assms(1) g(5) assms(2)])
  then show "currp k \<notin> A" "tref k r \<noteq> Some (currp k)" using assms(3) curr_loose(2) [OF assms(1,2)] by (auto simp: tok_def)
qed

lemma go_sleep_ok:
  assumes core: "kcore kd A k Q {currp k}" and idle: "currp k \<noteq> IDLE" and nr: "\<not> runnable st"
    and q: "\<And>h. hdr kd h \<Longrightarrow> currp k \<in> set (Q h) \<Longrightarrow> lives (kd h) (set_state (currp k) st k) h (currp k)"
      "in_queue st \<Longrightarrow> \<exists>h. hdr kd h \<and> currp k \<in> set (Q h)"
    and r: "\<And>r. tref k r = Some (currp k) \<Longrightarrow> st = CH_STATE_SUSPENDED \<and> tu k (currp k) = U_ref r"
      "st = CH_STATE_SUSPENDED \<Longrightarrow> \<exists>r. tref k r = Some (currp k)"
    and a: "currp k \<in> A \<Longrightarrow> timed st \<and> (\<exists>fs'. fs = F_reset # fs')"
  shows "\<exists>tp qs. Q RL = tp # qs \<and> kcore kd A (chSchGoSleepS fs st k) (Q(RL := qs)) {} \<and>
    top_prio (chSchGoSleepS fs st k) (Q(RL := qs)) \<and> currp (chSchGoSleepS fs st k) = tp \<and>
    same_objects k (chSchGoSleepS fs st k) \<and> tu (chSchGoSleepS fs st k) = tu k"
proof -
  let ?t = "currp k" let ?k1 = "set_state ?t st k" let ?k = "chSchGoSleepS fs st k"
  note glob = kcore_glob [OF core] note g = kglobD [OF glob]
  have c1: "kcore kd A ?k1 Q {?t}" by (rule kcore_local [OF core, of ?t]) simp_all
  obtain tp qs where Q: "Q RL = tp # qs" using ready_nonempty [OF core] idle by (cases "Q RL") auto
  have kd: "kd RL = KReady" using g(3) by simp
  have ne: "tp \<noteq> ?t"
  proof
    assume "tp = ?t"
    then have "lives (kd RL) ?k1 RL ?t" using q(1) [of RL] hdr_RL [OF glob] Q by simp
    then show False using nr kd by (simp add: state_defs)
  qed
  note tf = kcore_take_first [OF c1 Q]
  have eq: "?k = chSysSwitch ?t fs ((set_state tp CH_STATE_CURRENT ?k1)\<lparr>ql := queue_dequeue tp (ql k), currp := tp\<rparr>)"
    using tf(1) ne by (simp add: chSchGoSleepS_def Let_def)
  have c2: "kcore kd A ?k (Q(RL := qs)) {?t}"
    unfolding chSchGoSleepS_def Let_def by (rule kcore_local [OF tf(2), of ?t]) (use ne in simp_all)
  have st: "kstate ?k ?t = st" "tu ?k = tu k" "ctx ?k ?t = fs" "tref ?k = tref k" "currp ?k = tp" using ne by (simp_all add: eq)
  have "?t \<notin> set (Q RL)" using q(1) [of RL] hdr_RL [OF glob] nr kd by (auto simp: state_defs)
  then have mem: "?t \<in> set ((Q(RL := qs)) h) \<longleftrightarrow> ?t \<in> set (Q h)" for h using Q by auto
  have "tok kd A ?k (Q(RL := qs)) ?t"
    unfolding tok_def st mem
  proof (intro conjI allI impI)
    show "lives (kd h) ?k h ?t" if "hdr kd h" "?t \<in> set (Q h)" for h
      using q(1) [OF that] lives_cong [of ?k ?t ?k1 "kd h" h] st(1,2) by simp
  qed (use q(2) r a idle nr ne in \<open>auto simp: runnable_def\<close>)
  then have c3: "kcore kd A ?k (Q(RL := qs)) {}" using kcore_settle [OF c2] by simp
  have "top_prio ?k (Q(RL := qs))" using g(6) Q by (auto simp: top_prio_def eq by_prio_def)
  then show ?thesis using Q c3 st(2,5) by (simp add: eq)
qed

text \<open>Another thread becomes current and the old one goes back to the ready list.\<close>

lemma put_back:
  assumes core: "kcore kd A k Q {t}" and t: "thread kd t" "t \<noteq> currp k" "kstate k t = CH_STATE_CURRENT" "loose {h. hdr kd h} Q t"
      "ctx k t = []" "t \<notin> A" "\<And>r. tref k r \<noteq> Some t"
  shows "\<exists>l. chSchReadyI t k = Inr ((set_state t CH_STATE_READY k)\<lparr>ql := l\<rparr>) \<and>
      kcore kd A (chSysSwitch t [] ((set_state t CH_STATE_READY k)\<lparr>ql := l\<rparr>)) (Q(RL := insert_after (\<lambda>x. prio k t \<le> prio k x) t (Q RL))) {}"
    "\<exists>l. chSchReadyAheadI t k = Inr ((set_state t CH_STATE_READY k)\<lparr>ql := l\<rparr>) \<and>
      kcore kd A (chSysSwitch t [] ((set_state t CH_STATE_READY k)\<lparr>ql := l\<rparr>)) (Q(RL := insert_after (\<lambda>x. prio k t < prio k x) t (Q RL))) {}"
proof -
  have r: "ready_inv kd A k Q t" using t by (simp add: ready_inv_def)
  have sw: "chSysSwitch t [] ((set_state t CH_STATE_READY k)\<lparr>ql := l\<rparr>) = (set_state t CH_STATE_READY k)\<lparr>ql := l\<rparr>" for l
    using t(5) by (simp add: chSysSwitch_def set_state_def fun_upd_idem)
  show "\<exists>l. chSchReadyI t k = Inr ((set_state t CH_STATE_READY k)\<lparr>ql := l\<rparr>) \<and>
      kcore kd A (chSysSwitch t [] ((set_state t CH_STATE_READY k)\<lparr>ql := l\<rparr>)) (Q(RL := insert_after (\<lambda>x. prio k t \<le> prio k x) t (Q RL))) {}"
    using ready_ok [OF core r] t(3) unfolding sw by simp
  show "\<exists>l. chSchReadyAheadI t k = Inr ((set_state t CH_STATE_READY k)\<lparr>ql := l\<rparr>) \<and>
      kcore kd A (chSysSwitch t [] ((set_state t CH_STATE_READY k)\<lparr>ql := l\<rparr>)) (Q(RL := insert_after (\<lambda>x. prio k t < prio k x) t (Q RL))) {}"
    using ready_ahead_ok [OF core r] t(3) unfolding sw by simp
qed

lemma firstprio_ready:
  assumes "kglob kd A k Q"
  shows "firstprio k = (case Q RL of [] \<Rightarrow> 0 | t # _ \<Rightarrow> prio k t)"
proof -
  have "is_queue (ql k) RL (Q RL)" using queuesD [OF kglobD(1) [OF assms], of RL] hdr_RL [OF assms] by simp
  from is_queue_ends(1) [OF this] show ?thesis using kglobD(8) [OF assms] by (cases "Q RL") (simp_all add: firstprio_def)
qed

lemma reschedule_ok:
  assumes core: "kcore kd A k Q {}" and run: "ctx k (currp k) = []" and Q: "Q RL = tp # qs" and le: "prio k (currp k) \<le> prio k tp"
  shows "\<exists>k' Q'. chSchDoRescheduleBehind k = Inr k' \<and> kcore kd A k' Q' {} \<and> top_prio k' Q' \<and> same_objects k k' \<and> tu k' = tu k \<and>
      currp k' = tp \<and> Q' = Q(RL := insert_after (\<lambda>x. prio k (currp k) \<le> prio k x) (currp k) qs)"
    "\<exists>k' Q'. chSchDoRescheduleAhead k = Inr k' \<and> kcore kd A k' Q' {} \<and> top_prio k' Q' \<and> same_objects k k' \<and> tu k' = tu k \<and>
      currp k' = tp \<and> Q' = Q(RL := insert_after (\<lambda>x. prio k (currp k) < prio k x) (currp k) qs)"
proof -
  let ?t = "currp k" let ?k1 = "take_first k"
  note g = kglobD [OF kcore_glob [OF core]]
  have c: "kcore kd A k Q {?t}" using kcore_mono [OF core] by simp
  note cl = curr_loose [OF core] curr_idle [OF core _ run]
  have ne: "tp \<noteq> ?t" using cl(1) Q hdr_RL [OF kcore_glob [OF core]] by (auto simp: loose_def members_def)
  note tf = kcore_take_first [OF c Q]
  have eq: "?k1 = (set_state tp CH_STATE_CURRENT k)\<lparr>ql := queue_dequeue tp (ql k), currp := tp\<rparr>" using tf(1) ne by simp
  have c1: "kcore kd A ?k1 (Q(RL := qs)) {?t}" using tf(2) ne by simp
  have lo: "loose {h. hdr kd h} (Q(RL := qs)) ?t" using cl(1) Q by (auto simp: loose_def members_def)
  have pb: "?t \<noteq> currp ?k1" "kstate ?k1 ?t = CH_STATE_CURRENT" "ctx ?k1 ?t = []" "?t \<notin> A" "\<And>r. tref ?k1 r \<noteq> Some ?t" "prio ?k1 = prio k"
    using ne cl(2-4) run by (simp_all add: eq)
  note pk = put_back [OF c1 g(5) pb(1,2) lo pb(3-5)]
  have top: "\<forall>x \<in> insert ?t (set qs). prio k x \<le> prio k tp" using g(6) Q le by (auto simp: by_prio_def)
  obtain l where l: "chSchReadyI ?t ?k1 = Inr ((set_state ?t CH_STATE_READY ?k1)\<lparr>ql := l\<rparr>)"
      "kcore kd A (chSysSwitch ?t [] ((set_state ?t CH_STATE_READY ?k1)\<lparr>ql := l\<rparr>)) (Q(RL := insert_after (\<lambda>x. prio k ?t \<le> prio k x) ?t qs)) {}"
    using pk(1) pb(6) by auto
  have "chSchDoRescheduleBehind k = Inr (chSysSwitch ?t [] ((set_state ?t CH_STATE_READY ?k1)\<lparr>ql := l\<rparr>))"
    using l(1) by (simp add: chSchDoRescheduleBehind_def Let_def)
  then show "\<exists>k' Q'. chSchDoRescheduleBehind k = Inr k' \<and> kcore kd A k' Q' {} \<and> top_prio k' Q' \<and> same_objects k k' \<and> tu k' = tu k \<and>
      currp k' = tp \<and> Q' = Q(RL := insert_after (\<lambda>x. prio k (currp k) \<le> prio k x) (currp k) qs)"
    using l(2) top by (simp add: eq top_prio_def)
  obtain l where l: "chSchReadyAheadI ?t ?k1 = Inr ((set_state ?t CH_STATE_READY ?k1)\<lparr>ql := l\<rparr>)"
      "kcore kd A (chSysSwitch ?t [] ((set_state ?t CH_STATE_READY ?k1)\<lparr>ql := l\<rparr>)) (Q(RL := insert_after (\<lambda>x. prio k ?t < prio k x) ?t qs)) {}"
    using pk(2) pb(6) by auto
  have "chSchDoRescheduleAhead k = Inr (chSysSwitch ?t [] ((set_state ?t CH_STATE_READY ?k1)\<lparr>ql := l\<rparr>))"
    using l(1) by (simp add: chSchDoRescheduleAhead_def Let_def)
  then show "\<exists>k' Q'. chSchDoRescheduleAhead k = Inr k' \<and> kcore kd A k' Q' {} \<and> top_prio k' Q' \<and> same_objects k k' \<and> tu k' = tu k \<and>
      currp k' = tp \<and> Q' = Q(RL := insert_after (\<lambda>x. prio k (currp k) < prio k x) (currp k) qs)"
    using l(2) top by (simp add: eq top_prio_def)
qed

lemma chSchRescheduleS_ok:
  assumes core: "kcore kd A k Q {}" and run: "ctx k (currp k) = []"
  shows "\<exists>k' Q'. chSchRescheduleS k = Inr k' \<and> kcore kd A k' Q' {} \<and> top_prio k' Q' \<and> same_objects k k' \<and> tu k' = tu k \<and>
    (\<forall>h. h \<noteq> RL \<longrightarrow> Q' h = Q h)"
proof (cases "chSchIsRescRequiredI k")
  case True
  note fp = firstprio_ready [OF kcore_glob [OF core]]
  have gt: "firstprio k > prio k (currp k)" using True by (simp add: chSchIsRescRequiredI_def)
  then obtain tp qs where Q: "Q RL = tp # qs" using fp by (cases "Q RL") auto
  then have "prio k (currp k) \<le> prio k tp" using gt fp by simp
  then obtain k' Q' where "chSchDoRescheduleAhead k = Inr k'" "kcore kd A k' Q' {}" "top_prio k' Q'" "same_objects k k'" "tu k' = tu k"
      "Q' = Q(RL := insert_after (\<lambda>x. prio k (currp k) < prio k x) (currp k) qs)"
    using reschedule_ok(2) [OF core run Q] by blast
  then show ?thesis using True by (intro exI [of _ k'] exI [of _ Q']) (simp add: chSchRescheduleS_def)
next
  case False
  have "top_prio k Q"
    using False firstprio_ready [OF kcore_glob [OF core]] kglobD(6) [OF kcore_glob [OF core]]
    by (cases "Q RL") (auto simp: chSchIsRescRequiredI_def top_prio_def by_prio_def)
  then show ?thesis using False core by (auto simp: chSchRescheduleS_def)
qed

lemma chSchPreemption_eq: "chSchPreemption k = chSchRescheduleS k"
  by (simp add: chSchPreemption_def chSchRescheduleS_def chSchIsRescRequiredI_def Let_def)

lemma chSchDoYieldS_ok:
  assumes core: "kcore kd A k Q {}" and run: "ctx k (currp k) = []" and top: "top_prio k Q"
  shows "\<exists>k' Q'. chSchDoYieldS k = Inr k' \<and> kcore kd A k' Q' {} \<and> top_prio k' Q' \<and> same_objects k k' \<and> tu k' = tu k \<and>
    (\<forall>h. h \<noteq> RL \<longrightarrow> Q' h = Q h)"
proof (cases "chSchCanYieldS k")
  case True
  note fp = firstprio_ready [OF kcore_glob [OF core]]
  have ge: "firstprio k \<ge> prio k (currp k)" using True by (simp add: chSchCanYieldS_def)
  moreover have "0 < prio k (currp k)" using kglobD(5,7) [OF kcore_glob [OF core]] by blast
  ultimately obtain tp qs where Q: "Q RL = tp # qs" using fp by (cases "Q RL") auto
  then have "prio k (currp k) \<le> prio k tp" using ge fp by simp
  then obtain k' Q' where "chSchDoRescheduleBehind k = Inr k'" "kcore kd A k' Q' {}" "top_prio k' Q'" "same_objects k k'" "tu k' = tu k"
      "Q' = Q(RL := insert_after (\<lambda>x. prio k (currp k) \<le> prio k x) (currp k) qs)"
    using reschedule_ok(1) [OF core run Q] by blast
  then show ?thesis using True by (intro exI [of _ k'] exI [of _ Q']) (simp add: chSchDoYieldS_def)
next
  case False
  then show ?thesis using core top by (auto simp: chSchDoYieldS_def)
qed

text \<open>A thread that is ready to be woken is made ready, or takes over.\<close>

lemma ready_currp: "chSchReadyI t (set_state n s (k\<lparr>currp := c\<rparr>)) = rbind (chSchReadyI t k) (\<lambda>k. Inr (set_state n s (k\<lparr>currp := c\<rparr>)))"
  if "t \<noteq> n"
  using that
  by (auto simp: chSchReadyI_def Let_def set_state_def assert_or_halt_def or_fault_def fun_upd_twist split: option.splits)

lemma chSchWakeupS_ok:
  assumes core: "kcore kd A k Q {t}" and t: "ready_inv kd A (set_u t (U_msg m) k) Q t" "kstate k t \<notin> {CH_STATE_READY, CH_STATE_FINAL}"
    and run: "ctx k (currp k) = []" and top: "top_prio k Q"
  shows "\<exists>k' Q'. chSchWakeupS t m k = Inr k' \<and> kcore kd A k' Q' {} \<and> top_prio k' Q' \<and> same_objects k k' \<and>
    tu k' = (tu k)(t := U_msg m) \<and> (\<forall>h. h \<noteq> RL \<longrightarrow> Q' h = Q h)"
proof -
  let ?k = "set_u t (U_msg m) k" let ?o = "currp k"
  note glob = kcore_glob [OF core] note g = kglobD [OF glob]
  note r = t(1) [unfolded ready_inv_def]
  have c: "kcore kd A ?k Q {t}" by (rule kcore_local [OF core, of t]) simp_all
  have "qnext (ql k) RL = RL \<or> prio k ?o \<ge> firstprio k"
    using firstprio_ready [OF glob] top by (cases "Q RL") (auto simp: top_prio_def)
  then have op: "chSchWakeupS t m k = (if prio k t \<le> prio k ?o then chSchReadyI t ?k
      else rbind (chSchReadyI ?o ?k) (\<lambda>k. Inr (chSysSwitch ?o [] (set_state t CH_STATE_CURRENT (k\<lparr>currp := t\<rparr>)))))"
    by (simp add: chSchWakeupS_def Let_def)
  show ?thesis
  proof (cases "prio k t \<le> prio k ?o")
    case True
    obtain l where l: "chSchReadyI t ?k = Inr ((set_state t CH_STATE_READY ?k)\<lparr>ql := l\<rparr>)"
        "kcore kd A ((set_state t CH_STATE_READY ?k)\<lparr>ql := l\<rparr>) (Q(RL := insert_after (\<lambda>x. prio k t \<le> prio k x) t (Q RL))) {}"
      using ready_ok [OF c t(1)] t(2) by auto
    moreover have "top_prio ((set_state t CH_STATE_READY ?k)\<lparr>ql := l\<rparr>) (Q(RL := insert_after (\<lambda>x. prio k t \<le> prio k x) t (Q RL)))"
      using top True by (auto simp: top_prio_def)
    ultimately show ?thesis using op True by auto
  next
    case False
    let ?k1 = "set_state t CH_STATE_CURRENT (?k\<lparr>currp := t\<rparr>)"
    have ne: "?o \<noteq> t" using r by auto
    have o: "loose {h. hdr kd h} Q ?o" "kstate k ?o = CH_STATE_CURRENT" "?o \<notin> A" "\<And>r. tref k r \<noteq> Some ?o"
      using curr_loose [OF core] curr_idle [OF core _ run] ne by auto
    have c1: "kcore kd A ?k1 Q {?o}"
    proof (rule kcoreI)
      show "kglob kd A ?k1 Q" using glob r unfolding kglob_def by simp
      fix s assume s: "thread kd s" "s \<notin> {?o}"
      show "tok kd A ?k1 Q s"
      proof (cases "s = t")
        case True
        have "t \<notin> set (Q h)" if "hdr kd h" for h using that r by (auto simp: loose_def members_def)
        then show ?thesis using True r unfolding tok_def by (auto simp: state_defs)
      next
        case False
        then show ?thesis using s by (intro tok_frame [OF kcore_tok [OF core, of s]]) auto
      qed
    qed
    obtain l where l: "chSchReadyI ?o ?k1 = Inr ((set_state ?o CH_STATE_READY ?k1)\<lparr>ql := l\<rparr>)"
        "kcore kd A (chSysSwitch ?o [] ((set_state ?o CH_STATE_READY ?k1)\<lparr>ql := l\<rparr>)) (Q(RL := insert_after (\<lambda>x. prio k ?o \<le> prio k x) ?o (Q RL))) {}"
      using put_back(1) [OF c1 g(5)] ne o run by auto
    have "chSchWakeupS t m k = Inr (chSysSwitch ?o [] ((set_state ?o CH_STATE_READY ?k1)\<lparr>ql := l\<rparr>))"
      using op False l(1) unfolding ready_currp [OF ne] by (auto simp: rbind_Inr)
    moreover have "top_prio (chSysSwitch ?o [] ((set_state ?o CH_STATE_READY ?k1)\<lparr>ql := l\<rparr>)) (Q(RL := insert_after (\<lambda>x. prio k ?o \<le> prio k x) ?o (Q RL)))"
      using top False by (auto simp: top_prio_def)
    ultimately show ?thesis using l(2) by auto
  qed
qed

section \<open>Waking\<close>

text \<open>A thread is taken from the queue in which it waits.\<close>

lemma tok_at:
  assumes "tok kd A k Q t" "hdr kd h" "t \<in> set (Q h)" "h \<noteq> RL" "kd h = KReady \<longleftrightarrow> h = RL"
  shows "kstate k t \<in> {CH_STATE_WTSEM, CH_STATE_WTMTX, CH_STATE_WTCOND, CH_STATE_QUEUED}" "t \<noteq> currp k" "tref k r \<noteq> Some t"
    "t \<in> A \<Longrightarrow> \<exists>fs. ctx k t = F_reset # fs"
proof -
  have "lives (kd h) k h t" using assms by (simp add: tok_def)
  then show st: "kstate k t \<in> {CH_STATE_WTSEM, CH_STATE_WTMTX, CH_STATE_WTCOND, CH_STATE_QUEUED}"
    using assms(4,5) by (cases "kd h") auto
  then show "t \<noteq> currp k" "tref k r \<noteq> Some t" "t \<in> A \<Longrightarrow> \<exists>fs. ctx k t = F_reset # fs" using assms(1) by (auto simp: tok_def)
qed

lemma leave_queue:
  assumes core: "kcore kd A k Q {}" and h: "hdr kd h" "h \<noteq> RL" "t \<in> set (Q h)"
    and sem: "\<And>s. kd s = KSem \<Longrightarrow> sem_ok (c s) ((Q(h := remove1 t (Q h))) s)"
  shows "kcore kd A (k\<lparr>ql := queue_dequeue t (ql k), cnt := c\<rparr>) (Q(h := remove1 t (Q h))) {t}"
    "ready_inv kd A (set_u t (U_msg m) (k\<lparr>ql := queue_dequeue t (ql k), cnt := c\<rparr>)) (Q(h := remove1 t (Q h))) t"
    "kstate k t \<notin> {CH_STATE_READY, CH_STATE_FINAL}" "t \<noteq> currp k"
proof -
  note g = kglobD [OF kcore_glob [OF core]]
  have th: "thread kd t" using g(2) h by blast
  note a = tok_at [OF kcore_tok [OF core th] h(1,3,2) g(3)]
  note d = kcore_dequeue [OF core h(1,3) sem]
  show "kcore kd A (k\<lparr>ql := queue_dequeue t (ql k), cnt := c\<rparr>) (Q(h := remove1 t (Q h))) {t}" using d(1) by simp
  show "kstate k t \<notin> {CH_STATE_READY, CH_STATE_FINAL}" "t \<noteq> currp k" using a(1,2) by auto
  show "ready_inv kd A (set_u t (U_msg m) (k\<lparr>ql := queue_dequeue t (ql k), cnt := c\<rparr>)) (Q(h := remove1 t (Q h))) t"
    using th d(2) a by (auto simp: ready_inv_def)
qed

text \<open>A suspended thread is taken from its reference.\<close>

lemma leave_ref:
  assumes core: "kcore kd A k Q {}" and r: "tref k r = Some t"
  shows "kcore kd A (k\<lparr>tref := (tref k)(r := None)\<rparr>) Q {t}"
    "ready_inv kd A (set_u t (U_msg m) (k\<lparr>tref := (tref k)(r := None)\<rparr>)) Q t"
    "kstate k t = CH_STATE_SUSPENDED" "t \<noteq> currp k" "tu k t = U_ref r"
proof -
  note g = kglobD [OF kcore_glob [OF core]]
  have th: "thread kd t" using g(10) r by blast
  have t: "tok kd A k Q t" by (rule kcore_tok [OF core th]) simp
  then show st: "kstate k t = CH_STATE_SUSPENDED" "tu k t = U_ref r" using r by (auto simp: tok_def)
  then show ne: "t \<noteq> currp k" using t by (auto simp: tok_def)
  have one: "r' = r" if "tref k r' = Some t" for r' using that t st by (auto simp: tok_def)
  have "t \<notin> set (Q h)" if "hdr kd h" for h using t that st by (cases "kd h") (auto simp: tok_def)
  moreover have "t \<noteq> h" if "hdr kd h" for h using that thread_not_hdr [OF th] by auto
  ultimately have "loose {h. hdr kd h} Q t" by (auto simp: loose_def members_def)
  then show "ready_inv kd A (set_u t (U_msg m) (k\<lparr>tref := (tref k)(r := None)\<rparr>)) Q t"
    using th ne t one by (auto simp: ready_inv_def tok_def)
  show "kcore kd A (k\<lparr>tref := (tref k)(r := None)\<rparr>) Q {t}"
  proof (rule kcoreI)
    show "kglob kd A (k\<lparr>tref := (tref k)(r := None)\<rparr>) Q" using kcore_glob [OF core] unfolding kglob_def by auto
    fix s assume s: "thread kd s" "s \<notin> {t}"
    then show "tok kd A (k\<lparr>tref := (tref k)(r := None)\<rparr>) Q s"
      using r by (intro tok_frame [OF kcore_tok [OF core, of s]]) auto
  qed
qed

text \<open>A thread that is in no queue and not suspended.\<close>

lemma leave_sleep:
  assumes core: "kcore kd A k Q {}" and t: "thread kd t" "\<not> in_queue (kstate k t)"
      "kstate k t \<notin> {CH_STATE_CURRENT, CH_STATE_SUSPENDED, CH_STATE_FINAL}"
  shows "ready_inv kd A (set_u t (U_msg m) k) Q t" "kstate k t \<notin> {CH_STATE_READY, CH_STATE_FINAL}" "t \<noteq> currp k"
proof -
  have tk: "tok kd A k Q t" by (rule kcore_tok [OF core t(1)]) simp
  show "kstate k t \<notin> {CH_STATE_READY, CH_STATE_FINAL}" using t by (auto simp: state_defs)
  show ne: "t \<noteq> currp k" using tk t(3) by (auto simp: tok_def)
  have "t \<notin> set (Q h)" if "hdr kd h" for h using tk that t(2,3) by (cases "kd h") (auto simp: tok_def state_defs)
  moreover have "t \<noteq> h" if "hdr kd h" for h using that thread_not_hdr [OF t(1)] by auto
  ultimately have "loose {h. hdr kd h} Q t" by (auto simp: loose_def members_def)
  then show "ready_inv kd A (set_u t (U_msg m) k) Q t" using t ne tk by (auto simp: ready_inv_def tok_def)
qed

section \<open>Contexts\<close>

text \<open>
  What a thread may have left to do: nothing, the rest of a sleep, perhaps inside the loop of a mailbox operation, or the
  checks of \<open>chMtxLockS\<close>.
\<close>

definition round_frame :: "frame list \<Rightarrow> bool" where
  "round_frame fs \<longleftrightarrow> fs = [] \<or> (\<exists>b m t. fs = [F_post b m t] \<or> fs = [F_post_ahead b m t] \<or> fs = [F_fetch b t])"

definition plain :: "frame list \<Rightarrow> bool" where
  "plain c \<longleftrightarrow> (\<exists>fs. round_frame fs \<and> (c = fs \<or> c = F_msg # fs \<or> c = F_reset # F_msg # fs))"

lemma plain_simps [simp]: "plain []" "plain [F_msg]" "plain [F_reset, F_msg]" "\<not> plain [F_mtx m]" "\<not> plain (F_mtx m # fs)"
  by (auto simp: plain_def round_frame_def)

lemma plain_sleep: "round_frame fs \<Longrightarrow> plain (F_msg # fs)" "round_frame fs \<Longrightarrow> plain (F_reset # F_msg # fs)"
  by (auto simp: plain_def)

lemma round_frame_simps [simp]: "round_frame []" "round_frame [F_post b m t]" "round_frame [F_post_ahead b m t]" "round_frame [F_fetch b t]"
  by (auto simp: round_frame_def)

text \<open>Scheduling changes no context but that of the thread that goes to sleep.\<close>

lemma ready_ctx: "chSchReadyI t k = Inr k' \<Longrightarrow> ctx k' = ctx k" "chSchReadyAheadI t k = Inr k' \<Longrightarrow> ctx k' = ctx k"
  by (auto simp: chSchReadyI_def chSchReadyAheadI_def Let_def assert_or_halt_def or_fault_def split: if_splits option.splits)

lemma take_first_ctx [simp]: "ctx (take_first k) = ctx k"
  by (simp add: take_first_def split_beta)

lemma go_sleep_ctx [simp]: "ctx (chSchGoSleepS fs st k) = (ctx k)(currp k := fs)"
  by (simp add: chSchGoSleepS_def Let_def)

lemma switch_ctx:
  assumes "rbind m (\<lambda>k. Inr (chSysSwitch t [] k)) = Inr k'" "\<And>k1. m = Inr k1 \<Longrightarrow> ctx k1 = c" "c t = []"
  shows "ctx k' = c"
proof (cases m)
  case (Inr k1)
  then show ?thesis using assms(1,3) assms(2) [OF Inr] by (auto simp: fun_upd_idem_iff)
qed (use assms(1) in simp)

lemma resched_ctx:
  assumes "ctx k (currp k) = []"
  shows "chSchRescheduleS k = Inr k' \<Longrightarrow> ctx k' = ctx k" "chSchDoYieldS k = Inr k' \<Longrightarrow> ctx k' = ctx k"
proof -
  have ah: "chSchDoRescheduleAhead k = Inr k' \<Longrightarrow> ctx k' = ctx k" unfolding chSchDoRescheduleAhead_def Let_def
    using ready_ctx(2) [of "currp k" "take_first k"] assms by (elim switch_ctx) simp_all
  have be: "chSchDoRescheduleBehind k = Inr k' \<Longrightarrow> ctx k' = ctx k" unfolding chSchDoRescheduleBehind_def Let_def
    using ready_ctx(1) [of "currp k" "take_first k"] assms by (elim switch_ctx) simp_all
  show "chSchRescheduleS k = Inr k' \<Longrightarrow> ctx k' = ctx k" using ah by (auto simp: chSchRescheduleS_def split: if_splits)
  show "chSchDoYieldS k = Inr k' \<Longrightarrow> ctx k' = ctx k" using be by (auto simp: chSchDoYieldS_def split: if_splits)
qed

lemma wakeupS_ctx:
  assumes "ctx k (currp k) = []" "chSchWakeupS t m k = Inr k'"
  shows "ctx k' = ctx k"
proof (cases "chSchReadyI (if prio k t \<le> prio k (currp k) then t else currp k) (set_u t (U_msg m) k)")
  case (Inl e)
  then show ?thesis using assms(2) by (auto simp: chSchWakeupS_def Let_def assert_or_halt_def split: if_splits)
next
  case (Inr k1)
  then have "ctx k1 = ctx k" using ready_ctx(1) by fastforce
  then show ?thesis using assms Inr by (auto simp: chSchWakeupS_def Let_def assert_or_halt_def fun_upd_idem_iff split: if_splits)
qed

end
