(* ===== verification/KTimer.thy ===== *)
theory KTimer
  imports KSched
begin

text \<open>
  Sleeping with a timeout: \<open>chSchGoSleepTimeoutS\<close> and its rest, the callback \<open>wakeup\<close> and the timer interrupt keep the
  invariant of the kernel. The running thread is never among those with an armed timer.
\<close>

section \<open>Frames of a resumed thread\<close>

text \<open>
  A thread that is current again first does what is left of \<open>chSchGoSleepTimeoutS\<close>: it disarms its timer and reads the
  message. The result is the message, if it has been read, and the frames of the calling operation.
\<close>

fun run_frames :: "systime \<Rightarrow> frame list \<Rightarrow> msg \<Rightarrow> kernel \<Rightarrow> (msg \<times> frame list \<times> kernel) result" where
  "run_frames now (F_reset # fs) m k = rbind (resume_reset now k) (run_frames now fs m)"
| "run_frames now (F_msg # fs) m k = rbind (resume_msg k) (\<lambda>m. run_frames now fs m k)"
| "run_frames now fs m k = Inr (m, fs, k)"

definition resume :: "systime \<Rightarrow> kernel \<Rightarrow> (msg \<times> frame list \<times> kernel) result" where
  "resume now k = run_frames now (ctx k (currp k)) MSG_OK (k\<lparr>ctx := (ctx k)(currp k := [])\<rparr>)"

text \<open>The timer interrupt. Only the callback of the kernel itself is known; \<open>app\<close> stands for the callbacks of other timers.\<close>

definition kernel_cb :: "(nat \<Rightarrow> node \<Rightarrow> kernel \<Rightarrow> kernel result) \<Rightarrow> kernel vt_callback" where
  "kernel_cb app f par k = (case f of Wakeup \<Rightarrow> wakeup par k | UserFunc n \<Rightarrow> app n par k)"

definition chSysTimerHandlerI :: "(nat \<Rightarrow> node \<Rightarrow> kernel \<Rightarrow> kernel result) \<Rightarrow> (nat \<Rightarrow> systime) \<Rightarrow> kernel \<Rightarrow> kernel result" where
  "chSysTimerHandlerI app time k = rbind (chVTDoTickI (kernel_cb app) time k (vtl k)) (\<lambda>(k, v). Inr (k\<lparr>vtl := v\<rparr>))"

section \<open>Timers\<close>

text \<open>What the operations other than those on mutexes and priorities leave alone. A context may change if it is not one of a mutex.\<close>

definition same_frames :: "kernel \<Rightarrow> kernel \<Rightarrow> bool" where
  "same_frames k k' \<longleftrightarrow> ctx k' IDLE = ctx k IDLE \<and> (\<forall>t. ctx k' t = ctx k t \<or> plain (ctx k t) \<and> plain (ctx k' t))"

definition same_mtx :: "kernel \<Rightarrow> kernel \<Rightarrow> bool" where
  "same_mtx k k' \<longleftrightarrow> prio k' = prio k \<and> realprio k' = realprio k \<and> mtxlist k' = mtxlist k \<and> m_owner k' = m_owner k \<and> m_next k' = m_next k \<and>
     same_frames k k'"

lemma same_frames_eq [simp]: "ctx k' = ctx k \<Longrightarrow> same_frames k k'"
  by (simp add: same_frames_def)

lemma same_frames_trans: "same_frames k k' \<Longrightarrow> same_frames k' k'' \<Longrightarrow> same_frames k k''"
  unfolding same_frames_def by metis

lemma same_frames_sleep: "currp k \<noteq> IDLE \<Longrightarrow> plain (ctx k (currp k)) \<Longrightarrow> plain fs \<Longrightarrow> same_frames k (chSchGoSleepS fs st k)"
  by (simp add: same_frames_def)

lemma same_objects_mtx: "same_objects k k' \<Longrightarrow> same_frames k k' \<Longrightarrow> same_mtx k k'"
  by (simp add: same_objects_def same_mtx_def)

lemma same_mtx_refl [simp]: "same_mtx k k"
  by (simp add: same_mtx_def)

lemma same_mtx_trans: "same_mtx k k' \<Longrightarrow> same_mtx k' k'' \<Longrightarrow> same_mtx k k''"
  using same_frames_trans [of k k' k''] by (simp add: same_mtx_def)

lemma kcore_disarm: "kcore kd A k Q X \<Longrightarrow> kcore kd (A - {t}) k Q X"
  unfolding kcore_def kglob_def tok_def by blast

lemma kcore_vtl [simp]: "kcore kd A (k\<lparr>vtl := v\<rparr>) Q X = kcore kd A k Q X"
proof -
  have "lives d (k\<lparr>vtl := v\<rparr>) h t = lives d k h t" for d h t by (cases d) simp_all
  then show ?thesis by (simp add: kcore_def kglob_def tok_def)
qed

lemma top_prio_vtl [simp]: "top_prio (k\<lparr>vtl := v\<rparr>) Q = top_prio k Q"
  by (simp add: top_prio_def)

lemma timers_arm:
  assumes "timers_ok A k" "t \<notin> A" "t \<noteq> VTL" "delay \<noteq> 0"
  shows "\<exists>v. chVTDoSetI t delay Wakeup t now (vtl k) = Inr v \<and> timers_ok (insert t A) (k\<lparr>vtl := v\<rparr>)"
proof -
  obtain xs where xs: "vt_ok (vtl k) xs" "set xs = A" "\<forall>t \<in> A. vfunc (vtl k) t = Some (Wakeup, t)" using assms(1) by (auto simp: timers_ok_def)
  have "t \<notin> set (VTL # xs)" using assms(2,3) xs(2) by simp
  from set_armed [OF xs(1) assms(4) this] obtain v xs' where
    "chVTDoSetI t delay Wakeup t now (vtl k) = Inr v" "vt_ok v xs'" "set xs' = insert t (set xs)" "vfunc v = (vfunc (vtl k))(t := Some (Wakeup, t))"
    by blast
  then show ?thesis using xs by (auto simp: timers_ok_def intro!: exI [of _ xs'])
qed

lemma timers_reset:
  assumes "timers_ok A k"
  shows "\<exists>v. chVTResetI t now (vtl k) = Inr v \<and> timers_ok (A - {t}) (k\<lparr>vtl := v\<rparr>)"
proof -
  obtain xs where xs: "vt_ok (vtl k) xs" "set xs = A" "\<forall>t \<in> A. vfunc (vtl k) t = Some (Wakeup, t)" using assms(1) by (auto simp: timers_ok_def)
  show ?thesis
  proof (cases "t \<in> A")
    case True
    then have "t \<in> set xs" using xs(2) by simp
    from reset_armed [OF xs(1) this] obtain v xs' where
      "chVTDoResetI t now (vtl k) = Inr v" "vt_ok v xs'" "set xs' = set xs - {t}" "vfunc v = (vfunc (vtl k))(t := None)" by blast
    moreover have "chVTIsArmedI t (vtl k)" using xs(3) True by (simp add: chVTIsArmedI_def)
    ultimately show ?thesis using xs by (auto simp: timers_ok_def chVTResetI_def intro!: exI [of _ xs'])
  next
    case False
    then have "\<not> chVTIsArmedI t (vtl k)" using xs(1,2) by (auto simp: chVTIsArmedI_def vt_ok_def)
    moreover have "A - {t} = A" using False by simp
    ultimately show ?thesis using assms by (auto simp: chVTResetI_def timers_ok_def)
  qed
qed

section \<open>Sleeping\<close>

lemma sleep_timeout_ok:
  assumes core: "kcore kd A k Q {currp k}" and tm: "timers_ok A k" "currp k \<notin> A" and idle: "currp k \<noteq> IDLE" and nr: "\<not> runnable st" "timed st"
    and q: "\<And>h. hdr kd h \<Longrightarrow> currp k \<in> set (Q h) \<Longrightarrow> lives (kd h) (set_state (currp k) st k) h (currp k)"
      "in_queue st \<Longrightarrow> \<exists>h. hdr kd h \<and> currp k \<in> set (Q h)"
    and r: "\<And>r. tref k r = Some (currp k) \<Longrightarrow> st = CH_STATE_SUSPENDED \<and> tu k (currp k) = U_ref r"
      "st = CH_STATE_SUSPENDED \<Longrightarrow> \<exists>r. tref k r = Some (currp k)" and t0: "timeout \<noteq> 0"
    and fs: "plain (ctx k (currp k))" "round_frame fs"
  shows "\<exists>A' k' tp qs. chSchGoSleepTimeoutS fs st timeout now k = Inr k' \<and> Q RL = tp # qs \<and> kcore kd A' k' (Q(RL := qs)) {} \<and>
    timers_ok A' k' \<and> top_prio k' (Q(RL := qs)) \<and> same_mtx k k' \<and> currp k' = tp"
proof (cases "timeout = TIME_INFINITE")
  case True
  let ?k = "chSchGoSleepS (F_msg # fs) st k"
  obtain tp qs where s: "Q RL = tp # qs" "kcore kd A ?k (Q(RL := qs)) {}" "top_prio ?k (Q(RL := qs))" "currp ?k = tp" "same_objects k ?k"
    using go_sleep_ok [OF core idle nr(1) q r, of "F_msg # fs"] tm(2) by blast
  have "timers_ok A ?k" using tm(1) same_objectsD(2) [OF s(5)] by (simp add: timers_ok_def)
  then show ?thesis using True s same_objects_mtx [OF s(5) same_frames_sleep [OF idle fs(1) plain_sleep(1) [OF fs(2)]]]
    by (auto simp: chSchGoSleepTimeoutS_def)
next
  case False
  note g = kglobD [OF kcore_glob [OF core]]
  have "currp k \<noteq> VTL"
  proof
    assume "currp k = VTL"
    then show False using g(3) [of RL] g(5) by (simp add: VTL_def RL_def thread_def)
  qed
  then obtain v where v: "chVTDoSetI (currp k) timeout Wakeup (currp k) now (vtl k) = Inr v" "timers_ok (insert (currp k) A) (k\<lparr>vtl := v\<rparr>)"
    using timers_arm [OF tm _ t0] by blast
  let ?kv = "k\<lparr>vtl := v\<rparr>" let ?A = "insert (currp k) A" let ?k = "chSchGoSleepS (F_reset # F_msg # fs) st ?kv"
  have c0: "kcore kd ?A ?kv Q {currp ?kv}"
  proof -
    have "kglob kd ?A k Q" using kcore_glob [OF core] g(5) unfolding kglob_def by auto
    moreover have "tok kd ?A k Q t" if "thread kd t" "t \<notin> {currp k}" for t
      using that by (intro tok_frame [OF kcore_tok [OF core that]]) auto
    ultimately have "kcore kd ?A k Q {currp k}" by (rule kcoreI)
    then show ?thesis by simp
  qed
  have li: "lives d (set_state t st ?kv) h t = lives d (set_state t st k) h t" for d h t by (cases d) simp_all
  have "\<exists>tp qs. Q RL = tp # qs \<and> kcore kd ?A ?k (Q(RL := qs)) {} \<and> top_prio ?k (Q(RL := qs)) \<and> currp ?k = tp \<and>
    same_objects ?kv ?k \<and> tu ?k = tu ?kv"
    by (rule go_sleep_ok [OF c0]) (use idle nr q r in \<open>simp_all add: li\<close>)
  then obtain tp qs where s: "Q RL = tp # qs" "kcore kd ?A ?k (Q(RL := qs)) {}" "top_prio ?k (Q(RL := qs))" "currp ?k = tp" "same_objects ?kv ?k"
    by blast
  have "timers_ok ?A ?k" using v(2) same_objectsD(2) [OF s(5)] by (simp add: timers_ok_def)
  moreover have "same_mtx k ?k"
    using same_objects_mtx [OF s(5)] same_frames_sleep [of ?kv] idle fs(1) plain_sleep(2) [OF fs(2)] by (simp add: same_mtx_def same_frames_def)
  moreover have "chSchGoSleepTimeoutS fs st timeout now k = Inr ?k" using False v(1) by (simp add: chSchGoSleepTimeoutS_def)
  ultimately show ?thesis using s by blast
qed

section \<open>Waking on a timeout\<close>

lemma sem_ok_inc:
  assumes "sem_ok n q" "q \<noteq> []" "length q' = length q - 1"
  shows "sem_ok (n + 1) q'" "n + 1 \<le> 0" "n + 1 < 2 ^ 31" "- (2 ^ 31) \<le> n + 1"
  using assms by (cases q; auto simp: sem_ok_def min_def split: if_splits)+

lemma sem_other:
  assumes "\<And>s. kd s = KSem \<Longrightarrow> sem_ok (c s) (Q s)" "kd h \<noteq> KSem" "kd s = KSem"
  shows "sem_ok (c s) ((Q(h := xs)) s)"
  using assms by auto

lemma timed_out_ok:
  assumes "kcore kd A k Q {t}" "ready_inv kd A (set_u t (U_msg MSG_TIMEOUT) k) Q t" "kstate k t \<notin> {CH_STATE_READY, CH_STATE_FINAL}"
  shows "\<exists>k' Q'. timed_out t k = Inr k' \<and> kcore kd A k' Q' {} \<and> currp k' = currp k \<and> ctx k' = ctx k \<and> same_objects k k' \<and>
    (\<forall>h. h \<noteq> RL \<longrightarrow> Q' h = Q h)"
proof -
  have c: "kcore kd A (set_u t (U_msg MSG_TIMEOUT) k) Q {t}" by (rule kcore_local [OF assms(1), of t]) simp_all
  obtain l where "chSchReadyI t (set_u t (U_msg MSG_TIMEOUT) k) = Inr ((set_state t CH_STATE_READY (set_u t (U_msg MSG_TIMEOUT) k))\<lparr>ql := l\<rparr>)"
      "kcore kd A ((set_state t CH_STATE_READY (set_u t (U_msg MSG_TIMEOUT) k))\<lparr>ql := l\<rparr>)
         (Q(RL := insert_after (\<lambda>x. prio k t \<le> prio k x) t (Q RL))) {}"
    using ready_ok [OF c assms(2)] assms(3) by auto
  then show ?thesis unfolding timed_out_def by (intro exI conjI) (assumption | simp)+
qed

text \<open>The callback of an armed timer makes its thread ready, unless somebody else has done so.\<close>

lemma queue_of:
  assumes core: "kcore kd A k Q {}" and t: "thread kd t" "in_queue (kstate k t)"
  obtains h where "hdr kd h" "t \<in> set (Q h)" "lives (kd h) k h t"
  using kcore_tok [OF core t(1)] t(2) that unfolding tok_def by blast

lemma wakeup_queued:
  assumes core: "kcore kd A k Q {}" and t: "thread kd t" "kstate k t \<in> {CH_STATE_QUEUED, CH_STATE_WTCOND}"
  shows "\<exists>k' Q'. timed_out t (k\<lparr>ql := queue_dequeue t (ql k)\<rparr>) = Inr k' \<and> kcore kd A k' Q' {} \<and> currp k' = currp k \<and> ctx k' = ctx k \<and>
    same_objects k k' \<and> (\<forall>h. kd h = KMtx \<longrightarrow> Q' h = Q h)"
proof -
  note glob = kcore_glob [OF core] note g = kglobD [OF glob]
  obtain h where h: "hdr kd h" "t \<in> set (Q h)" "lives (kd h) k h t" using queue_of [OF core t(1)] t(2) by (auto simp: in_queue_def)
  have kd: "kd h \<in> {KCond, KQueue}" using h t(2) by (cases "kd h") auto
  have rl: "h \<noteq> RL" using kd g(3) [of h] by auto
  have sem: "sem_ok (cnt k s) ((Q(h := remove1 t (Q h))) s)" if "kd s = KSem" for s
    using sem_other [of kd "cnt k" Q h s] g(9) kd that by auto
  note lq = leave_queue [OF core h(1) rl h(2), of "cnt k", OF sem]
  have eq: "k\<lparr>ql := queue_dequeue t (ql k), cnt := cnt k\<rparr> = k\<lparr>ql := queue_dequeue t (ql k)\<rparr>" by simp
  have st: "kstate (k\<lparr>ql := queue_dequeue t (ql k)\<rparr>) t \<notin> {CH_STATE_READY, CH_STATE_FINAL}" using lq(3) by simp
  have "\<exists>k' Q'. timed_out t (k\<lparr>ql := queue_dequeue t (ql k)\<rparr>) = Inr k' \<and> kcore kd A k' Q' {} \<and> currp k' = currp k \<and> ctx k' = ctx k \<and>
    same_objects (k\<lparr>ql := queue_dequeue t (ql k)\<rparr>) k' \<and> (\<forall>i. i \<noteq> RL \<longrightarrow> Q' i = (Q(h := remove1 t (Q h))) i)"
    using timed_out_ok [OF lq(1,2) [unfolded eq] st] by simp
  then obtain k' Q' where r: "timed_out t (k\<lparr>ql := queue_dequeue t (ql k)\<rparr>) = Inr k'" "kcore kd A k' Q' {}" "currp k' = currp k" "ctx k' = ctx k"
      "same_objects (k\<lparr>ql := queue_dequeue t (ql k)\<rparr>) k'" "\<And>i. i \<noteq> RL \<Longrightarrow> Q' i = (Q(h := remove1 t (Q h))) i" by blast
  have "Q' i = Q i" if "kd i = KMtx" for i
  proof -
    have "i \<noteq> RL" "i \<noteq> h" using that g(3) [of RL] kd by auto
    then show ?thesis using r(6) by simp
  qed
  moreover have "same_objects k k'" using r(5) by (simp add: same_objects_def)
  ultimately show ?thesis using r(1-4) by blast
qed

lemma wakeup_sem:
  assumes core: "kcore kd A k Q {}" and t: "thread kd t" "kstate k t = CH_STATE_WTSEM"
  shows "\<exists>sp k' Q'. tu k t = U_obj sp \<and>
    rbind (chSemFastSignalI sp k) (\<lambda>k. timed_out t (k\<lparr>ql := queue_dequeue t (ql k)\<rparr>)) = Inr k' \<and> kcore kd A k' Q' {} \<and> currp k' = currp k \<and>
    ctx k' = ctx k \<and> same_mtx k k' \<and> vtl k' = vtl k \<and> (\<forall>h. kd h = KMtx \<longrightarrow> Q' h = Q h)"
proof -
  note glob = kcore_glob [OF core] note g = kglobD [OF glob]
  obtain h where h: "hdr kd h" "t \<in> set (Q h)" "lives (kd h) k h t" using queue_of [OF core t(1)] t(2) by (auto simp: in_queue_def)
  have kd: "kd h = KSem" "tu k t = U_obj h" using h t(2) by (cases "kd h"; auto)+
  have rl: "h \<noteq> RL" using kd g(3) [of h] by auto
  let ?c = "(cnt k)(h := cnt k h + 1)"
  have i: "sem_ok (cnt k h + 1) (remove1 t (Q h))" "cnt k h + 1 < 2 ^ 31" "- (2 ^ 31) \<le> cnt k h + 1"
  proof -
    have "Q h \<noteq> []" "length (remove1 t (Q h)) = length (Q h) - 1" using h(2) by (auto simp: length_remove1)
    from sem_ok_inc [OF g(9) [OF kd(1)] this] show "sem_ok (cnt k h + 1) (remove1 t (Q h))" "cnt k h + 1 < 2 ^ 31" "- (2 ^ 31) \<le> cnt k h + 1" by simp_all
  qed
  have sem: "sem_ok (?c s) ((Q(h := remove1 t (Q h))) s)" if "kd s = KSem" for s using i(1) g(9) [OF that] by simp
  note lq = leave_queue [OF core h(1) rl h(2), of ?c, OF sem]
  let ?k = "k\<lparr>ql := queue_dequeue t (ql k), cnt := ?c\<rparr>"
  have eq: "(k\<lparr>cnt := ?c\<rparr>)\<lparr>ql := queue_dequeue t (ql k)\<rparr> = ?k" by simp
  have op: "rbind (chSemFastSignalI h k) (\<lambda>k. timed_out t (k\<lparr>ql := queue_dequeue t (ql k)\<rparr>)) = timed_out t ?k"
    using i(2,3) by (simp add: chSemFastSignalI_def cnt_add_def eq)
  have st: "kstate ?k t \<notin> {CH_STATE_READY, CH_STATE_FINAL}" using lq(3) by simp
  have "\<exists>k' Q'. timed_out t ?k = Inr k' \<and> kcore kd A k' Q' {} \<and> currp k' = currp k \<and> ctx k' = ctx k \<and>
    same_objects ?k k' \<and> (\<forall>i. i \<noteq> RL \<longrightarrow> Q' i = (Q(h := remove1 t (Q h))) i)"
    using timed_out_ok [OF lq(1,2) st] by simp
  then obtain k' Q' where r: "timed_out t ?k = Inr k'" "kcore kd A k' Q' {}" "currp k' = currp k" "ctx k' = ctx k"
      "same_objects ?k k'" "\<And>i. i \<noteq> RL \<Longrightarrow> Q' i = (Q(h := remove1 t (Q h))) i" by blast
  have "Q' i = Q i" if "kd i = KMtx" for i
  proof -
    have "i \<noteq> RL" "i \<noteq> h" using that g(3) [of RL] kd by auto
    then show ?thesis using r(6) by simp
  qed
  moreover have "same_mtx k k'" "vtl k' = vtl k" using r(4,5) by (simp_all add: same_objects_def same_mtx_def)
  ultimately show ?thesis using r(1-4) kd(2) op by auto
qed

lemma wakeup_ok:
  assumes core: "kcore kd A k Q {}" and t: "t \<in> A" "t \<noteq> currp k"
  shows "\<exists>k' Q'. wakeup t k = Inr k' \<and> kcore kd (A - {t}) k' Q' {} \<and> currp k' = currp k \<and> ctx k' = ctx k \<and> same_mtx k k' \<and> vtl k' = vtl k \<and>
    (\<forall>h. kd h = KMtx \<longrightarrow> Q' h = Q h)"
proof -
  note glob = kcore_glob [OF core] note g = kglobD [OF glob]
  have th: "thread kd t" by (rule g(11) [OF t(1)])
  have tk: "tok kd A k Q t" by (rule kcore_tok [OF core th]) simp
  then have tm: "timed (kstate k t)" "kstate k t \<noteq> CH_STATE_CURRENT" using t by (auto simp: tok_def)
  have fin: "\<exists>k' Q'. op = Inr k' \<and> kcore kd (A - {t}) k' Q' {} \<and> currp k' = currp k \<and> ctx k' = ctx k \<and> same_mtx k k' \<and> vtl k' = vtl k \<and>
      (\<forall>h. kd h = KMtx \<longrightarrow> Q' h = Q h)"
    if "\<exists>k' Q'. op = Inr k' \<and> kcore kd A k' Q' {} \<and> currp k' = currp k \<and> ctx k' = ctx k \<and> same_mtx k k' \<and> vtl k' = vtl k \<and>
      (\<forall>h. kd h = KMtx \<longrightarrow> Q' h = Q h)" for op
    using that kcore_disarm by blast
  have so: "same_mtx k k' \<and> vtl k' = vtl k" if "same_objects k k'" "ctx k' = ctx k" for k'
    using that by (simp add: same_objects_def same_mtx_def)
  consider (r) "kstate k t = CH_STATE_READY" | (s) "kstate k t = CH_STATE_SUSPENDED" | (q) "kstate k t \<in> {CH_STATE_QUEUED, CH_STATE_WTCOND}"
    | (w) "kstate k t = CH_STATE_WTSEM" | (l) "kstate k t = CH_STATE_SLEEPING"
    using tm by (auto simp: timed_def)
  then show ?thesis
  proof cases
    case r
    then have "wakeup t k = Inr k" by (simp add: wakeup_def)
    then show ?thesis using core by (intro fin) auto
  next
    case s
    then obtain r where r: "tref k r = Some t" using tk by (auto simp: tok_def)
    note lr = leave_ref [OF core r]
    let ?k = "k\<lparr>tref := (tref k)(r := None)\<rparr>"
    have "wakeup t k = timed_out t ?k" using s lr(5) by (simp add: wakeup_def)
    moreover have st: "kstate ?k t \<notin> {CH_STATE_READY, CH_STATE_FINAL}" using s by simp
    have "\<exists>k' Q'. timed_out t ?k = Inr k' \<and> kcore kd A k' Q' {} \<and> currp k' = currp k \<and> ctx k' = ctx k \<and>
        same_objects ?k k' \<and> (\<forall>h. h \<noteq> RL \<longrightarrow> Q' h = Q h)"
      using timed_out_ok [OF lr(1,2) st] by simp
    moreover have "kd h = KMtx \<Longrightarrow> h \<noteq> RL" for h using g(3) [of RL] by auto
    ultimately show ?thesis by (intro fin) (fastforce simp: same_objects_def same_mtx_def)
  next
    case q
    then have "wakeup t k = timed_out t (k\<lparr>ql := queue_dequeue t (ql k)\<rparr>)" by (auto simp: wakeup_def)
    then show ?thesis using wakeup_queued [OF core th q] so by (intro fin) metis
  next
    case w
    obtain sp k' Q' where "tu k t = U_obj sp" "rbind (chSemFastSignalI sp k) (\<lambda>k. timed_out t (k\<lparr>ql := queue_dequeue t (ql k)\<rparr>)) = Inr k'"
        "kcore kd A k' Q' {}" "currp k' = currp k" "ctx k' = ctx k" "same_mtx k k'" "vtl k' = vtl k" "\<forall>h. kd h = KMtx \<longrightarrow> Q' h = Q h"
      using wakeup_sem [OF core th w] by blast
    then show ?thesis using w by (intro fin) (auto simp: wakeup_def)
  next
    case l
    have "\<not> in_queue (kstate k t)" "kstate k t \<notin> {CH_STATE_CURRENT, CH_STATE_SUSPENDED, CH_STATE_FINAL}" using l by (simp_all add: in_queue_def)
    note ls = leave_sleep [OF core th this]
    have "wakeup t k = timed_out t k" using l by (simp add: wakeup_def)
    moreover have "kd h = KMtx \<Longrightarrow> h \<noteq> RL" for h using g(3) [of RL] by auto
    moreover have "kcore kd A k Q {t}" using kcore_mono [OF core] by simp
    note timed_out_ok [OF this ls(1,2)]
    ultimately show ?thesis using so by (intro fin) metis
  qed
qed

section \<open>The timer interrupt\<close>

lemma wake_all:
  assumes "distinct us" "set us \<subseteq> A" "kcore kd A k Q {}" "currp k \<notin> set us" "\<And>t. t \<in> set us \<Longrightarrow> fn t = Some (Wakeup, t)"
  shows "\<exists>k' Q'. call_all (kernel_cb app) fn us k = Inr k' \<and> kcore kd (A - set us) k' Q' {} \<and> currp k' = currp k \<and> ctx k' = ctx k \<and>
    same_mtx k k' \<and> vtl k' = vtl k \<and> (\<forall>h. kd h = KMtx \<longrightarrow> Q' h = Q h)"
  using assms
proof (induction us arbitrary: A k Q)
  case Nil
  then show ?case by auto
next
  case (Cons t us)
  obtain k1 Q1 where w: "wakeup t k = Inr k1" "kcore kd (A - {t}) k1 Q1 {}" "currp k1 = currp k" "ctx k1 = ctx k" "same_mtx k k1" "vtl k1 = vtl k"
      "\<forall>h. kd h = KMtx \<longrightarrow> Q1 h = Q h"
    using wakeup_ok [OF Cons.prems(3), of t] Cons.prems(2,4) by auto
  have fn: "fn t = Some (Wakeup, t)" "\<And>x. x \<in> set us \<Longrightarrow> fn x = Some (Wakeup, x)" using Cons.prems(5) by simp_all
  have p: "distinct us" "set us \<subseteq> A - {t}" "currp k1 \<notin> set us" using Cons.prems w(3) by auto
  obtain k' Q' where r: "call_all (kernel_cb app) fn us k1 = Inr k'" "kcore kd (A - {t} - set us) k' Q' {}" "currp k' = currp k1" "ctx k' = ctx k1"
      "same_mtx k1 k'" "vtl k' = vtl k1" "\<forall>h. kd h = KMtx \<longrightarrow> Q' h = Q1 h"
    using Cons.IH [OF p(1,2) w(2) p(3) fn(2)] by blast
  have "A - {t} - set us = A - set (t # us)" by auto
  moreover have "same_mtx k k'" using same_mtx_trans [OF w(5) r(5)] .
  moreover have "call_all (kernel_cb app) fn (t # us) k = Inr k'" using fn(1) w(1) r(1) by (simp add: kernel_cb_def)
  ultimately show ?case using r(2-4,6,7) w(3,4,6,7) by (intro exI [of _ k'] exI [of _ Q']) simp
qed

lemma tick_ok:
  assumes core: "kcore kd A k Q {}" and tm: "timers_ok A k" and run: "ctx k (currp k) = []" and clk: "counter_runs time (lasttime (vtl k))"
  shows "\<exists>k' A' Q'. chSysTimerHandlerI app time k = Inr k' \<and> kcore kd A' k' Q' {} \<and> timers_ok A' k' \<and> currp k' = currp k \<and> ctx k' = ctx k \<and>
    same_mtx k k' \<and> (\<forall>h. kd h = KMtx \<longrightarrow> Q' h = Q h)"
proof -
  obtain xs where xs: "vt_ok (vtl k) xs" "set xs = A" "\<forall>t \<in> A. vfunc (vtl k) t = Some (Wakeup, t)" using tm by (auto simp: timers_ok_def)
  have cu: "currp k \<notin> A" using curr_idle(1) [OF core _ run] by simp
  have d: "distinct xs" using xs(1) by (auto simp: vt_ok_def is_queue_def)
  have wake: "\<exists>k' Q'. call_all (kernel_cb app) (vfunc (vtl k)) us k = Inr k' \<and> kcore kd (A - set us) k' Q' {} \<and> currp k' = currp k \<and> ctx k' = ctx k \<and>
      same_mtx k k' \<and> vtl k' = vtl k \<and> (\<forall>h. kd h = KMtx \<longrightarrow> Q' h = Q h)" if "xs = us @ vs" for us vs
    by (rule wake_all) (use that core d xs cu in auto)
  then have ca: "callable (kernel_cb app) (vfunc (vtl k)) xs k" unfolding callable_def by blast
  obtain us vs k1 v where r: "xs = us @ vs" "call_all (kernel_cb app) (vfunc (vtl k)) us k = Inr k1"
      "chVTDoTickI (kernel_cb app) time k (vtl k) = Inr (k1, v)" "vt_ok v vs" "\<forall>x. vfunc v x = (if x \<in> set us then None else vfunc (vtl k) x)"
    using tick_run [OF xs(1) ca clk] by blast
  obtain Q' where w: "kcore kd (A - set us) k1 Q' {}" "currp k1 = currp k" "ctx k1 = ctx k" "same_mtx k k1" "\<forall>h. kd h = KMtx \<longrightarrow> Q' h = Q h"
    using wake [OF r(1)] r(2) by auto
  have "set vs = A - set us" using r(1) xs(2) d by auto
  then have "timers_ok (A - set us) (k1\<lparr>vtl := v\<rparr>)" using r(4,5) xs(3) by (auto simp: timers_ok_def)
  moreover have "same_mtx k (k1\<lparr>vtl := v\<rparr>)" using w(4) by (simp add: same_mtx_def same_frames_def)
  moreover have "chSysTimerHandlerI app time k = Inr (k1\<lparr>vtl := v\<rparr>)" using r(3) by (simp add: chSysTimerHandlerI_def)
  ultimately show ?thesis using w
    by (intro exI [of _ "k1\<lparr>vtl := v\<rparr>"] exI [of _ "A - set us"] exI [of _ Q']) simp
qed

section \<open>A thread runs again\<close>

lemma run_frames_ok:
  assumes "kcore kd A k Q {currp k}" "timers_ok A k" "F_msg \<in> set fs \<longrightarrow> (\<exists>m. tu k (currp k) = U_msg m)"
  shows "\<exists>m' fs' A' v. run_frames now fs m k = Inr (m', fs', k\<lparr>vtl := v\<rparr>) \<and> timers_ok A' (k\<lparr>vtl := v\<rparr>) \<and> kcore kd A' k Q {currp k} \<and>
    A' \<subseteq> A \<and> ((\<exists>gs. fs = F_reset # gs) \<longrightarrow> currp k \<notin> A')"
  using assms
proof (induction fs arbitrary: A k m)
  case Nil
  then show ?case by (intro exI [of _ m] exI [of _ "[]"] exI [of _ A] exI [of _ "vtl k"]) simp
next
  case (Cons f fs)
  show ?case
  proof (cases f)
    case F_reset
    obtain v where v: "chVTResetI (currp k) now (vtl k) = Inr v" "timers_ok (A - {currp k}) (k\<lparr>vtl := v\<rparr>)"
      using timers_reset [OF Cons.prems(2)] by blast
    let ?k = "k\<lparr>vtl := v\<rparr>"
    have c: "kcore kd (A - {currp k}) ?k Q {currp ?k}" using kcore_disarm [OF Cons.prems(1)] by simp
    have "F_msg \<in> set fs \<longrightarrow> (\<exists>m. tu ?k (currp ?k) = U_msg m)" using Cons.prems(3) by simp
    from Cons.IH [OF c v(2) this, of m] obtain m' fs' A' v' where
      "run_frames now fs m ?k = Inr (m', fs', k\<lparr>vtl := v'\<rparr>)" "timers_ok A' (k\<lparr>vtl := v'\<rparr>)" "kcore kd A' k Q {currp k}" "A' \<subseteq> A - {currp k}"
      by (elim exE conjE) simp
    then show ?thesis using F_reset v(1)
      by (intro exI [of _ m'] exI [of _ fs'] exI [of _ A'] exI [of _ v']) (auto simp: resume_reset_def)
  next
    case F_msg
    then obtain m1 where m1: "tu k (currp k) = U_msg m1" using Cons.prems(3) by auto
    have "F_msg \<in> set fs \<longrightarrow> (\<exists>m. tu k (currp k) = U_msg m)" using m1 by simp
    from Cons.IH [OF Cons.prems(1,2) this, of m1] obtain m' fs' A' v where
      "run_frames now fs m1 k = Inr (m', fs', k\<lparr>vtl := v\<rparr>)" "timers_ok A' (k\<lparr>vtl := v\<rparr>)" "kcore kd A' k Q {currp k}" "A' \<subseteq> A"
      by (elim exE conjE) simp
    then show ?thesis using F_msg m1
      by (intro exI [of _ m'] exI [of _ fs'] exI [of _ A'] exI [of _ v]) (simp add: resume_msg_def)
  qed (use Cons.prems in \<open>intro exI [of _ m] exI [of _ "f # fs"] exI [of _ A] exI [of _ "vtl k"], simp\<close>)+
qed

lemma run_frames_rest: "run_frames now fs m k = Inr (m', fs', k') \<Longrightarrow> fs' = dropWhile (\<lambda>f. f \<in> {F_reset, F_msg}) fs"
proof (induction fs arbitrary: m k)
  case (Cons f fs)
  then show ?case by (cases f) (auto simp: rbind_def split: sum.splits)
qed simp

text \<open>
  The thread is then as if it had not slept: no timer, no frames of its own. What is left are the frames of the operation
  that called for the sleep.
\<close>

lemma resume_ok:
  assumes core: "kcore kd A k Q {}" and tm: "timers_ok A k"
  shows "\<exists>m k' A'. resume now k = Inr (m, dropWhile (\<lambda>f. f \<in> {F_reset, F_msg}) (ctx k (currp k)), k') \<and> kcore kd A' k' Q {} \<and> timers_ok A' k' \<and>
    k' = k\<lparr>ctx := (ctx k)(currp k := []), vtl := vtl k'\<rparr>"
proof -
  note g = kglobD [OF kcore_glob [OF core]]
  let ?t = "currp k" let ?k = "k\<lparr>ctx := (ctx k)(?t := [])\<rparr>"
  have tk: "tok kd A k Q ?t" by (rule kcore_tok [OF core g(5)]) simp
  have st: "kstate k ?t = CH_STATE_CURRENT" using curr_loose(2) [OF core] by simp
  have c: "kcore kd A ?k Q {currp ?k}"
    by (rule kcore_local [OF kcore_mono [OF core], of _ ?t]) simp_all
  have tv: "timers_ok A ?k" using tm by (simp add: timers_ok_def)
  have ms: "F_msg \<in> set (ctx k ?t) \<longrightarrow> (\<exists>m. tu ?k (currp ?k) = U_msg m)" using tk st by (auto simp: tok_def runnable_def)
  obtain m fs A' v where r: "run_frames now (ctx k ?t) MSG_OK ?k = Inr (m, fs, ?k\<lparr>vtl := v\<rparr>)" "timers_ok A' (?k\<lparr>vtl := v\<rparr>)"
      "kcore kd A' ?k Q {currp ?k}" "A' \<subseteq> A" "(\<exists>gs. ctx k ?t = F_reset # gs) \<longrightarrow> ?t \<notin> A'"
    using run_frames_ok [OF c tv ms, of now MSG_OK] by (elim exE conjE) simp
  have out: "?t \<notin> A'" using r(4,5) tk by (auto simp: tok_def)
  have "tok kd A' ?k Q ?t"
  proof -
    have "lives d ?k h ?t = lives d k h ?t" for d h by (cases d) simp_all
    then show ?thesis using tk out st unfolding tok_def by simp
  qed
  then have "kcore kd A' ?k Q {}" using kcore_settle [of kd A' ?k Q ?t "{}"] r(3) by simp
  then have "kcore kd A' (?k\<lparr>vtl := v\<rparr>) Q {}" by simp
  then show ?thesis using r(1,2) run_frames_rest [OF r(1)]
    by (intro exI [of _ m] exI [of _ "?k\<lparr>vtl := v\<rparr>"] exI [of _ A']) (simp add: resume_def)
qed

section \<open>Mutexes and priorities\<close>

text \<open>
  The mutexes owned by a thread are linked through their \<open>m_next\<close> fields. Every thread runs with the highest of its own
  priority and the priorities of the threads that wait for its mutexes. A thread that waits for a mutex is going to check, when it
  runs again, that it is the owner.
\<close>

fun mlinked :: "(node \<Rightarrow> node option) \<Rightarrow> node option \<Rightarrow> node list \<Rightarrow> bool" where
  "mlinked nx p [] \<longleftrightarrow> p = None"
| "mlinked nx p (m # ms) \<longleftrightarrow> p = Some m \<and> mlinked nx (nx m) ms"

definition inherits :: "kernel \<Rightarrow> (node \<Rightarrow> node list) \<Rightarrow> node list \<Rightarrow> node \<Rightarrow> bool" where
  "inherits k Q ms t \<longleftrightarrow>
     (\<forall>m \<in> set ms. \<forall>w \<in> set (Q m). prio k w \<le> prio k t) \<and>
     (prio k t = realprio k t \<or> (\<exists>m \<in> set ms. \<exists>w \<in> set (Q m). prio k w = prio k t))"

definition mframe :: "(node \<Rightarrow> kind) \<Rightarrow> kernel \<Rightarrow> (node \<Rightarrow> node list) \<Rightarrow> node \<Rightarrow> bool" where
  "mframe kd k Q t \<longleftrightarrow>
     plain (ctx k t) \<or> (\<exists>m. kd m = KMtx \<and> ctx k t = [F_mtx m] \<and> (t \<in> set (Q m) \<or> m_owner k m = Some t \<and> mtxlist k t = Some m))"

definition mtx_struct :: "(node \<Rightarrow> kind) \<Rightarrow> kernel \<Rightarrow> (node \<Rightarrow> node list) \<Rightarrow> (node \<Rightarrow> node list) \<Rightarrow> bool" where
  "mtx_struct kd k Q M \<longleftrightarrow>
     finite {t. thread kd t} \<and> ctx k IDLE = [] \<and>
     (\<forall>t. thread kd t \<longrightarrow> mlinked (m_next k) (mtxlist k t) (M t) \<and> distinct (M t) \<and> mframe kd k Q t \<and> realprio k t \<le> prio k t \<and> 0 < realprio k t) \<and>
     (\<forall>t m. thread kd t \<longrightarrow> (m \<in> set (M t) \<longleftrightarrow> kd m = KMtx \<and> m_owner k m = Some t)) \<and>
     (\<forall>m. kd m = KMtx \<longrightarrow> by_prio (prio k) (Q m) \<and> (m_owner k m = None \<longrightarrow> Q m = []) \<and>
        (\<forall>t. m_owner k m = Some t \<longrightarrow> thread kd t) \<and> (\<forall>t \<in> set (Q m). ctx k t = [F_mtx m]))"

definition mtx_inv :: "(node \<Rightarrow> kind) \<Rightarrow> kernel \<Rightarrow> (node \<Rightarrow> node list) \<Rightarrow> (node \<Rightarrow> node list) \<Rightarrow> bool" where
  "mtx_inv kd k Q M \<longleftrightarrow> mtx_struct kd k Q M \<and> (\<forall>t. thread kd t \<longrightarrow> inherits k Q (M t) t)"

lemma mtx_inv_same:
  assumes "mtx_inv kd k Q M" "same_mtx k k'" "\<forall>h. kd h = KMtx \<longrightarrow> Q' h = Q h"
  shows "mtx_inv kd k' Q' M"
proof -
  have fr: "ctx k' t = ctx k t \<or> plain (ctx k t) \<and> plain (ctx k' t)" and id: "ctx k' IDLE = ctx k IDLE" for t using assms(2) by (simp_all add: same_mtx_def same_frames_def)
  have e: "prio k' = prio k" "realprio k' = realprio k" "mtxlist k' = mtxlist k" "m_owner k' = m_owner k" "m_next k' = m_next k"
    using assms(2) by (simp_all add: same_mtx_def)
  have mem: "thread kd t \<Longrightarrow> m \<in> set (M t) \<Longrightarrow> kd m = KMtx" for t m using assms(1) by (simp add: mtx_inv_def mtx_struct_def)
  have "inherits k' Q' (M t) t = inherits k Q (M t) t" if "thread kd t" for t
    using assms(3) mem [OF that] by (simp add: inherits_def e cong: bex_cong)
  moreover have "mframe kd k' Q' t" if "mframe kd k Q t" for t
    using that assms(3) fr [of t] unfolding mframe_def e by fastforce
  moreover have "ctx k' t = [F_mtx m]" if "ctx k t = [F_mtx m]" for t m using fr [of t] that by auto
  ultimately show ?thesis using assms(1,3) unfolding mtx_inv_def mtx_struct_def e id by simp
qed

end
