(* ===== verification/KSem.thy ===== *)
theory KSem
  imports KTimer
begin

text \<open>
  Counting semaphores (\<^verbatim>\<open>os/rt/src/chsem.c\<close>, \<^verbatim>\<open>chsem.h\<close>). An operation that may sleep returns the message if it does not, and
  nothing if the thread is put to sleep: the message is then read when it runs again. Every operation
  checks that the counter is negative exactly if threads wait; the lemmas show that the check
  never fails.
\<close>

section \<open>Operations\<close>

definition chSemObjectInit :: "node \<Rightarrow> int \<Rightarrow> kernel \<Rightarrow> kernel result" where
  "chSemObjectInit sp n k =
     rbind (assert_or_halt (n \<ge> 0)) (\<lambda>_. Inr (k\<lparr>ql := queue_init sp (ql k), cnt := (cnt k)(sp := n)\<rparr>))"

definition sem_consistent :: "node \<Rightarrow> kernel \<Rightarrow> bool" where
  "sem_consistent sp k \<longleftrightarrow> (cnt k sp \<ge> 0 \<and> queue_isempty sp (ql k)) \<or> (cnt k sp < 0 \<and> queue_notempty sp (ql k))"

text \<open>The loop of \<open>chSemResetI\<close>; \<open>c\<close> is its local counter.\<close>

function sem_reset_loop :: "node \<Rightarrow> int \<Rightarrow> kernel \<Rightarrow> kernel result" where
  "sem_reset_loop sp c k =
     (if c \<ge> 2 ^ 31 - 1 then Inl SignedOverflow
      else
        let c = c + 1 in
        if c \<le> 0 then
          let (tp, l) = queue_lifo_remove sp (ql k) in
          rbind (chSchReadyI tp (k\<lparr>ql := l\<rparr>)) (\<lambda>k. sem_reset_loop sp c (set_u tp (U_msg MSG_RESET) k))
        else Inr k)"
  by pat_completeness auto
termination by (relation "measure (\<lambda>(sp, c, k). nat (1 - c))") auto

declare sem_reset_loop.simps [simp del]

definition chSemResetI :: "node \<Rightarrow> int \<Rightarrow> kernel \<Rightarrow> kernel result" where
  "chSemResetI sp n k =
     rbind (assert_or_halt (n \<ge> 0)) (\<lambda>_. rbind (assert_or_halt (sem_consistent sp k)) (\<lambda>_.
       let c = cnt k sp in sem_reset_loop sp c (k\<lparr>cnt := (cnt k)(sp := n)\<rparr>)))"

definition chSemReset :: "node \<Rightarrow> int \<Rightarrow> kernel \<Rightarrow> kernel result" where
  "chSemReset sp n k = rbind (chSemResetI sp n k) chSchRescheduleS"

definition sem_insert :: "node \<Rightarrow> node \<Rightarrow> kernel \<Rightarrow> kernel" where
  "sem_insert tp sp k = k\<lparr>ql := queue_insert tp sp (ql k)\<rparr>"

definition chSemWaitS :: "node \<Rightarrow> kernel \<Rightarrow> (msg option \<times> kernel) result" where
  "chSemWaitS sp k =
     rbind (assert_or_halt (sem_consistent sp k)) (\<lambda>_. rbind (cnt_add (-1) sp k) (\<lambda>k.
       if cnt k sp < 0 then
         Inr (None, chSchGoSleepS [F_msg] CH_STATE_WTSEM (sem_insert (currp k) sp (set_u (currp k) (U_obj sp) k)))
       else Inr (Some MSG_OK, k)))"

definition chSemWaitTimeoutS :: "node \<Rightarrow> sysinterval \<Rightarrow> systime \<Rightarrow> kernel \<Rightarrow> (msg option \<times> kernel) result" where
  "chSemWaitTimeoutS sp timeout now k =
     rbind (assert_or_halt (sem_consistent sp k)) (\<lambda>_. rbind (cnt_add (-1) sp k) (\<lambda>k.
       if cnt k sp < 0 then
         if timeout = TIME_IMMEDIATE then rbind (cnt_add 1 sp k) (\<lambda>k. Inr (Some MSG_TIMEOUT, k))
         else rbind (chSchGoSleepTimeoutS [] CH_STATE_WTSEM timeout now (sem_insert (currp k) sp (set_u (currp k) (U_obj sp) k)))
                (\<lambda>k. Inr (None, k))
       else Inr (Some MSG_OK, k)))"

definition chSemWait :: "node \<Rightarrow> kernel \<Rightarrow> (msg option \<times> kernel) result" where
  "chSemWait sp k = chSemWaitS sp k"

definition chSemWaitTimeout :: "node \<Rightarrow> sysinterval \<Rightarrow> systime \<Rightarrow> kernel \<Rightarrow> (msg option \<times> kernel) result" where
  "chSemWaitTimeout sp timeout now k = chSemWaitTimeoutS sp timeout now k"

definition chSemSignal :: "node \<Rightarrow> kernel \<Rightarrow> kernel result" where
  "chSemSignal sp k =
     rbind (assert_or_halt (sem_consistent sp k)) (\<lambda>_. rbind (cnt_add 1 sp k) (\<lambda>k.
       if cnt k sp \<le> 0 then
         let (tp, l) = queue_fifo_remove sp (ql k) in chSchWakeupS tp MSG_OK (k\<lparr>ql := l\<rparr>)
       else Inr k))"

definition chSemSignalI :: "node \<Rightarrow> kernel \<Rightarrow> kernel result" where
  "chSemSignalI sp k =
     rbind (assert_or_halt (sem_consistent sp k)) (\<lambda>_. rbind (cnt_add 1 sp k) (\<lambda>k.
       if cnt k sp \<le> 0 then
         let (tp, l) = queue_fifo_remove sp (ql k) in chSchReadyI tp (set_u tp (U_msg MSG_OK) (k\<lparr>ql := l\<rparr>))
       else Inr k))"

text \<open>The step shared by \<open>chSemAddCounterI\<close> and \<open>chSemSignalWait\<close>, which store the message after the thread is ready.\<close>

definition sem_release :: "node \<Rightarrow> kernel \<Rightarrow> kernel result" where
  "sem_release sp k =
     rbind (cnt_add 1 sp k) (\<lambda>k.
       if cnt k sp \<le> 0 then
         let (tp, l) = queue_fifo_remove sp (ql k) in
         rbind (chSchReadyI tp (k\<lparr>ql := l\<rparr>)) (\<lambda>k. Inr (set_u tp (U_msg MSG_OK) k))
       else Inr k)"

fun add_counter_loop :: "nat \<Rightarrow> node \<Rightarrow> kernel \<Rightarrow> kernel result" where
  "add_counter_loop 0 sp k = Inr k"
| "add_counter_loop (Suc n) sp k = rbind (sem_release sp k) (add_counter_loop n sp)"

definition chSemAddCounterI :: "node \<Rightarrow> int \<Rightarrow> kernel \<Rightarrow> kernel result" where
  "chSemAddCounterI sp n k =
     rbind (assert_or_halt (n > 0)) (\<lambda>_. rbind (assert_or_halt (sem_consistent sp k)) (\<lambda>_. add_counter_loop (nat n) sp k))"

definition chSemSignalWait :: "node \<Rightarrow> node \<Rightarrow> kernel \<Rightarrow> (msg option \<times> kernel) result" where
  "chSemSignalWait sps spw k =
     rbind (assert_or_halt (sem_consistent sps k)) (\<lambda>_. rbind (assert_or_halt (sem_consistent spw k)) (\<lambda>_.
     rbind (sem_release sps k) (\<lambda>k. rbind (cnt_add (-1) spw k) (\<lambda>k.
       if cnt k spw < 0 then
         Inr (None, chSchGoSleepS [F_msg] CH_STATE_WTSEM (set_u (currp k) (U_obj spw) (sem_insert (currp k) spw k)))
       else rbind (chSchRescheduleS k) (\<lambda>k. Inr (Some MSG_OK, k))))))"

definition chSemFastWaitI :: "node \<Rightarrow> kernel \<Rightarrow> kernel result" where
  "chSemFastWaitI sp = cnt_add (-1) sp"

definition chSemGetCounterI :: "node \<Rightarrow> kernel \<Rightarrow> int" where
  "chSemGetCounterI sp k = cnt k sp"

section \<open>Consistent states\<close>

text \<open>
  The kernel is consistent when no operation is under way, and stays so. An interrupt handler or a critical section may
  leave a thread ready that should run; it ends with a call of the scheduler.
\<close>

definition kernel_ok :: "(node \<Rightarrow> kind) \<Rightarrow> kernel \<Rightarrow> bool" where
  "kernel_ok kd k \<longleftrightarrow> (\<exists>A Q M. kcore kd A k Q {} \<and> timers_ok A k \<and> top_prio k Q \<and> mtx_inv kd k Q M)"

text \<open>The outcome of an operation: the state is consistent, mutexes and priorities are untouched.\<close>

definition after_S :: "(node \<Rightarrow> kind) \<Rightarrow> kernel \<Rightarrow> (node \<Rightarrow> node list) \<Rightarrow> kernel \<Rightarrow> bool" where
  "after_S kd k Q k' \<longleftrightarrow> (\<exists>A' Q'. kcore kd A' k' Q' {} \<and> timers_ok A' k' \<and> top_prio k' Q' \<and> same_mtx k k' \<and> (\<forall>h. kd h = KMtx \<longrightarrow> Q' h = Q h))"

definition after_I :: "(node \<Rightarrow> kind) \<Rightarrow> node set \<Rightarrow> kernel \<Rightarrow> (node \<Rightarrow> node list) \<Rightarrow> kernel \<Rightarrow> (node \<Rightarrow> node list) \<Rightarrow> bool" where
  "after_I kd A k Q k' Q' \<longleftrightarrow> kcore kd A k' Q' {} \<and> same_mtx k k' \<and> vtl k' = vtl k \<and> currp k' = currp k \<and> ctx k' = ctx k \<and>
     (\<forall>h. kd h = KMtx \<longrightarrow> Q' h = Q h)"

text \<open>Operations that fail only by an overflow of the counter.\<close>

definition fine :: "('a \<Rightarrow> bool) \<Rightarrow> 'a result \<Rightarrow> bool" where
  "fine P m \<longleftrightarrow> (case m of Inl e \<Rightarrow> e = SignedOverflow | Inr x \<Rightarrow> P x)"

lemma fine_simps [simp]: "fine P (Inr x) = P x" "fine P (Inl e) = (e = SignedOverflow)"
  by (simp_all add: fine_def)

lemma fine_rbind: "fine P m \<Longrightarrow> (\<And>x. P x \<Longrightarrow> fine R (f x)) \<Longrightarrow> fine R (rbind m f)"
  by (cases m) simp_all

lemma fine_mono: "fine P m \<Longrightarrow> (\<And>x. P x \<Longrightarrow> R x) \<Longrightarrow> fine R m"
  by (cases m) simp_all

lemma after_I_refl: "kcore kd A k Q {} \<Longrightarrow> after_I kd A k Q k Q"
  by (simp add: after_I_def)

lemma after_I_trans: "after_I kd A k Q k1 Q1 \<Longrightarrow> after_I kd A k1 Q1 k2 Q2 \<Longrightarrow> after_I kd A k Q k2 Q2"
  using same_mtx_trans [of k k1 k2] by (simp add: after_I_def)

lemma after_S_trans: "after_I kd A k Q k1 Q1 \<Longrightarrow> after_S kd k1 Q1 k2 \<Longrightarrow> after_S kd k Q k2"
  using same_mtx_trans [of k k1 k2] by (fastforce simp: after_I_def after_S_def)

lemma after_S_kernel_ok: "after_S kd k Q k' \<Longrightarrow> mtx_inv kd k Q M \<Longrightarrow> kernel_ok kd k'"
  using mtx_inv_same unfolding after_S_def kernel_ok_def by blast

lemma timers_ok_vtl: "vtl k' = vtl k \<Longrightarrow> timers_ok A k \<Longrightarrow> timers_ok A k'"
  by (simp add: timers_ok_def)

text \<open>After an operation of the I class the scheduler restores the order of priorities.\<close>

lemma resched_after:
  assumes "after_I kd A k Q k1 Q1" "timers_ok A k" "ctx k (currp k) = []"
  shows "\<exists>k'. chSchRescheduleS k1 = Inr k' \<and> after_S kd k Q k'"
proof -
  have c: "kcore kd A k1 Q1 {}" "ctx k1 (currp k1) = []" "timers_ok A k1" "same_mtx k k1" "\<And>h. kd h = KMtx \<Longrightarrow> Q1 h = Q h"
    using assms timers_ok_vtl [of k1 k] by (auto simp: after_I_def)
  obtain k' Q' where r: "chSchRescheduleS k1 = Inr k'" "kcore kd A k' Q' {}" "top_prio k' Q'" "same_objects k1 k'" "\<forall>h. h \<noteq> RL \<longrightarrow> Q' h = Q1 h"
    using chSchRescheduleS_ok [OF c(1,2)] by blast
  have "kd h = KMtx \<Longrightarrow> h \<noteq> RL" for h using kglobD(3) [OF kcore_glob [OF c(1)], of h] by auto
  then have "\<forall>h. kd h = KMtx \<longrightarrow> Q' h = Q h" using r(5) c(5) by simp
  moreover have "timers_ok A k'" using c(3) timers_ok_vtl same_objectsD(2) [OF r(4)] by blast
  moreover have "same_mtx k k'" using same_mtx_trans [OF c(4) same_objects_mtx [OF r(4)]] resched_ctx(1) [OF c(2) r(1)] by simp
  ultimately show ?thesis using r(1-3) by (auto simp: after_S_def)
qed

section \<open>The check never fails\<close>

lemma sem_consistent_ok:
  assumes "kcore kd A k Q X" "kd sp = KSem"
  shows "sem_consistent sp k" "cnt k sp < 0 \<longleftrightarrow> Q sp \<noteq> []"
proof -
  note g = kglobD [OF kcore_glob [OF assms(1)]]
  have h: "hdr kd sp" using assms(2) by (simp add: hdr_def)
  have q: "is_queue (ql k) sp (Q sp)" using queuesD [OF g(1), of sp] h by simp
  have s: "sem_ok (cnt k sp) (Q sp)" by (rule g(9) [OF assms(2)])
  then show c: "cnt k sp < 0 \<longleftrightarrow> Q sp \<noteq> []" by (cases "Q sp") (auto simp: sem_ok_def min_def split: if_splits)
  show "sem_consistent sp k" unfolding sem_consistent_def using queue_isempty_iff [OF q] queue_notempty_iff [OF q] c by auto
qed

lemma kcore_cnt:
  assumes "kcore kd A k Q X" "kd sp = KSem" "sem_ok n (Q sp)"
  shows "kcore kd A (k\<lparr>cnt := (cnt k)(sp := n)\<rparr>) Q X"
proof (rule kcoreI)
  show "kglob kd A (k\<lparr>cnt := (cnt k)(sp := n)\<rparr>) Q" using kcore_glob [OF assms(1)] assms(3) unfolding kglob_def by simp
  fix t assume "thread kd t" "t \<notin> X"
  then show "tok kd A (k\<lparr>cnt := (cnt k)(sp := n)\<rparr>) Q t" by (intro tok_frame [OF kcore_tok [OF assms(1)]]) simp_all
qed

text \<open>The first waiting thread leaves the semaphore.\<close>

lemma sem_fifo:
  assumes core: "kcore kd A k Q {}" and sp: "kd sp = KSem" and q: "Q sp = t # qs"
  shows "cnt_add 1 sp k = Inr (k\<lparr>cnt := (cnt k)(sp := cnt k sp + 1)\<rparr>)" "cnt k sp + 1 \<le> 0"
    "queue_fifo_remove sp (ql k) = (t, queue_dequeue t (ql k))"
    "kcore kd A (k\<lparr>ql := queue_dequeue t (ql k), cnt := (cnt k)(sp := cnt k sp + 1)\<rparr>) (Q(sp := qs)) {t}"
    "ready_inv kd A (set_u t (U_msg m) (k\<lparr>ql := queue_dequeue t (ql k), cnt := (cnt k)(sp := cnt k sp + 1)\<rparr>)) (Q(sp := qs)) t"
    "kstate k t \<notin> {CH_STATE_READY, CH_STATE_FINAL}" "t \<noteq> currp k"
proof -
  note g = kglobD [OF kcore_glob [OF core]]
  have h: "hdr kd sp" "sp \<noteq> RL" using sp g(3) [of sp] by (auto simp: hdr_def)
  note inc = sem_ok_inc [OF g(9) [OF sp], of qs]
  show "cnt_add 1 sp k = Inr (k\<lparr>cnt := (cnt k)(sp := cnt k sp + 1)\<rparr>)" "cnt k sp + 1 \<le> 0" using inc q by (simp_all add: cnt_add_def)
  show "queue_fifo_remove sp (ql k) = (t, queue_dequeue t (ql k))" using queues_fifo(1) [OF g(1) _ q] h by simp
  have rm: "remove1 t (Q sp) = qs" using q by simp
  have sem: "sem_ok (((cnt k)(sp := cnt k sp + 1)) s) ((Q(sp := remove1 t (Q sp))) s)" if "kd s = KSem" for s
    using inc(1) g(9) [OF that] q by simp
  have "t \<in> set (Q sp)" using q by simp
  note lq = leave_queue [OF core h this, of "(cnt k)(sp := cnt k sp + 1)", OF sem, unfolded rm]
  show "kcore kd A (k\<lparr>ql := queue_dequeue t (ql k), cnt := (cnt k)(sp := cnt k sp + 1)\<rparr>) (Q(sp := qs)) {t}"
    "ready_inv kd A (set_u t (U_msg m) (k\<lparr>ql := queue_dequeue t (ql k), cnt := (cnt k)(sp := cnt k sp + 1)\<rparr>)) (Q(sp := qs)) t"
    "kstate k t \<notin> {CH_STATE_READY, CH_STATE_FINAL}" "t \<noteq> currp k"
    using lq q by simp_all
qed

text \<open>The message may be stored before or after the thread is made ready.\<close>

lemma ready_set_u: "rbind (chSchReadyI t k) (\<lambda>k. Inr (set_u n x k)) = chSchReadyI t (set_u n x k)"
  by (simp add: chSchReadyI_def Let_def set_state_def set_u_def assert_or_halt_def or_fault_def split: option.splits)

lemma wake_I:
  assumes core: "kcore kd A k Q {t}" and t: "ready_inv kd A (set_u t (U_msg m) k) Q t" "kstate k t \<notin> {CH_STATE_READY, CH_STATE_FINAL}"
  shows "\<exists>k'. chSchReadyI t (set_u t (U_msg m) k) = Inr k' \<and>
    kcore kd A k' (Q(RL := insert_after (\<lambda>x. prio k t \<le> prio k x) t (Q RL))) {} \<and> same_objects k k' \<and> currp k' = currp k \<and> ctx k' = ctx k"
proof -
  let ?k = "set_u t (U_msg m) k"
  have "kcore kd A ?k Q {t}" by (rule kcore_local [OF core, of t]) simp_all
  from ready_ok [OF this t(1)] t(2) obtain l where "chSchReadyI t ?k = Inr ((set_state t CH_STATE_READY ?k)\<lparr>ql := l\<rparr>)"
      "kcore kd A ((set_state t CH_STATE_READY ?k)\<lparr>ql := l\<rparr>) (Q(RL := insert_after (\<lambda>x. prio k t \<le> prio k x) t (Q RL))) {}" by auto
  then show ?thesis by simp
qed

text \<open>Without waiting threads only the counter changes.\<close>

lemma sem_inc_empty:
  assumes core: "kcore kd A k Q {}" and sp: "kd sp = KSem" and q: "Q sp = []"
  shows "cnt_add 1 sp k = Inl SignedOverflow \<or>
    cnt_add 1 sp k = Inr (k\<lparr>cnt := (cnt k)(sp := cnt k sp + 1)\<rparr>) \<and> 0 < cnt k sp + 1 \<and>
    kcore kd A (k\<lparr>cnt := (cnt k)(sp := cnt k sp + 1)\<rparr>) Q {}"
proof (cases "cnt k sp + 1 < 2 ^ 31")
  case True
  note g = kglobD [OF kcore_glob [OF core]]
  have n: "0 \<le> cnt k sp" using sem_consistent_ok(2) [OF core sp] q by auto
  have "kcore kd A (k\<lparr>cnt := (cnt k)(sp := cnt k sp + 1)\<rparr>) Q {}"
    by (rule kcore_cnt [OF core sp]) (use n True q in \<open>simp add: sem_ok_def\<close>)
  then show ?thesis using n True by (simp add: cnt_add_def)
qed (simp add: cnt_add_def)

text \<open>One unit is added to a semaphore: its first waiting thread becomes ready with the message \<open>MSG_OK\<close>.\<close>

lemma sem_release_ok:
  assumes core: "kcore kd A k Q {}" and sp: "kd sp = KSem"
  shows "fine (\<lambda>k'. \<exists>Q'. after_I kd A k Q k' Q') (sem_release sp k)"
proof (cases "Q sp")
  case Nil
  from sem_inc_empty [OF core sp this] show ?thesis
  proof (elim disjE conjE)
    assume "cnt_add 1 sp k = Inl SignedOverflow"
    then show ?thesis by (simp add: sem_release_def)
  next
    assume "cnt_add 1 sp k = Inr (k\<lparr>cnt := (cnt k)(sp := cnt k sp + 1)\<rparr>)" "0 < cnt k sp + 1"
      "kcore kd A (k\<lparr>cnt := (cnt k)(sp := cnt k sp + 1)\<rparr>) Q {}"
    then show ?thesis by (auto simp: sem_release_def after_I_def same_mtx_def intro!: exI [of _ Q])
  qed
next
  case (Cons t qs)
  note f = sem_fifo [OF core sp Cons]
  let ?k = "k\<lparr>ql := queue_dequeue t (ql k), cnt := (cnt k)(sp := cnt k sp + 1)\<rparr>"
  have eq: "k\<lparr>cnt := (cnt k)(sp := cnt k sp + 1), ql := queue_dequeue t (ql k)\<rparr> = ?k" by simp
  have op: "sem_release sp k = chSchReadyI t (set_u t (U_msg MSG_OK) ?k)"
    using f(1-3) by (simp add: sem_release_def ready_set_u eq)
  obtain k' where k': "chSchReadyI t (set_u t (U_msg MSG_OK) ?k) = Inr k'"
      "kcore kd A k' ((Q(sp := qs))(RL := insert_after (\<lambda>x. prio k t \<le> prio k x) t ((Q(sp := qs)) RL))) {}"
      "same_objects ?k k'" "currp k' = currp k" "ctx k' = ctx k"
    using wake_I [OF f(4,5)] f(6) by auto
  have "h \<noteq> RL \<and> h \<noteq> sp" if "kd h = KMtx" for h using that sp kglobD(3) [OF kcore_glob [OF core], of RL] by auto
  then have "after_I kd A k Q k' ((Q(sp := qs))(RL := insert_after (\<lambda>x. prio k t \<le> prio k x) t ((Q(sp := qs)) RL)))"
    using k' by (simp add: after_I_def same_objects_def same_mtx_def)
  then show ?thesis unfolding op k'(1) fine_simps by blast
qed

lemma chSemSignalI_ok:
  assumes core: "kcore kd A k Q {}" and sp: "kd sp = KSem"
  shows "fine (\<lambda>k'. \<exists>Q'. after_I kd A k Q k' Q') (chSemSignalI sp k)"
proof -
  have "chSemSignalI sp k = sem_release sp k"
    using sem_consistent_ok(1) [OF core sp] by (simp add: chSemSignalI_def sem_release_def ready_set_u split_beta Let_def cong: if_cong)
  then show ?thesis using sem_release_ok [OF core sp] by simp
qed

lemma add_counter_loop_ok:
  assumes "kcore kd A k Q {}" and sp: "kd sp = KSem"
  shows "fine (\<lambda>k'. \<exists>Q'. after_I kd A k Q k' Q') (add_counter_loop n sp k)"
  using assms(1)
proof (induction n arbitrary: k Q)
  case 0
  then show ?case using after_I_refl [of kd A k Q] by auto
next
  case (Suc n)
  show ?case
    unfolding add_counter_loop.simps
  proof (rule fine_rbind [OF sem_release_ok [OF Suc.prems sp]])
    fix k1 assume "\<exists>Q1. after_I kd A k Q k1 Q1"
    then obtain Q1 where a: "after_I kd A k Q k1 Q1" by blast
    then have "kcore kd A k1 Q1 {}" by (simp add: after_I_def)
    from Suc.IH [OF this] show "fine (\<lambda>k'. \<exists>Q'. after_I kd A k Q k' Q') (add_counter_loop n sp k1)"
      by (rule fine_mono) (use after_I_trans [OF a] in blast)
  qed
qed

lemma chSemAddCounterI_ok:
  assumes core: "kcore kd A k Q {}" and sp: "kd sp = KSem" and n: "n > 0"
  shows "fine (\<lambda>k'. \<exists>Q'. after_I kd A k Q k' Q') (chSemAddCounterI sp n k)"
  using add_counter_loop_ok [OF core sp] sem_consistent_ok(1) [OF core sp] n by (simp add: chSemAddCounterI_def)

text \<open>Waking with a switch.\<close>

lemma chSemSignal_ok:
  assumes core: "kcore kd A k Q {}" and tm: "timers_ok A k" and top: "top_prio k Q" and run: "ctx k (currp k) = []" and sp: "kd sp = KSem"
  shows "fine (after_S kd k Q) (chSemSignal sp k)"
proof (cases "Q sp")
  case Nil
  from sem_inc_empty [OF core sp this] show ?thesis
  proof (elim disjE conjE)
    assume "cnt_add 1 sp k = Inl SignedOverflow"
    then show ?thesis using sem_consistent_ok(1) [OF core sp] by (simp add: chSemSignal_def)
  next
    assume c: "cnt_add 1 sp k = Inr (k\<lparr>cnt := (cnt k)(sp := cnt k sp + 1)\<rparr>)" "0 < cnt k sp + 1"
      "kcore kd A (k\<lparr>cnt := (cnt k)(sp := cnt k sp + 1)\<rparr>) Q {}"
    then have "chSemSignal sp k = Inr (k\<lparr>cnt := (cnt k)(sp := cnt k sp + 1)\<rparr>)"
      using sem_consistent_ok(1) [OF core sp] by (simp add: chSemSignal_def)
    then show ?thesis using c(3) tm top
      by (auto simp: after_S_def same_mtx_def timers_ok_def top_prio_def intro!: exI [of _ A] exI [of _ Q])
  qed
next
  case (Cons t qs)
  note f = sem_fifo [OF core sp Cons]
  let ?k = "k\<lparr>ql := queue_dequeue t (ql k), cnt := (cnt k)(sp := cnt k sp + 1)\<rparr>"
  have eq: "k\<lparr>cnt := (cnt k)(sp := cnt k sp + 1), ql := queue_dequeue t (ql k)\<rparr> = ?k" by simp
  have op: "chSemSignal sp k = chSchWakeupS t MSG_OK ?k"
    using f(1-3) sem_consistent_ok(1) [OF core sp] by (simp add: chSemSignal_def eq)
  have rl: "sp \<noteq> RL" using sp kglobD(3) [OF kcore_glob [OF core], of RL] by auto
  have p: "kstate ?k t \<notin> {CH_STATE_READY, CH_STATE_FINAL}" "ctx ?k (currp ?k) = []" "top_prio ?k (Q(sp := qs))"
    using top rl f(6) run by (simp_all add: top_prio_def)
  obtain k' Q' where w: "chSchWakeupS t MSG_OK ?k = Inr k'" "kcore kd A k' Q' {}" "top_prio k' Q'" "same_objects ?k k'"
      "\<forall>h. h \<noteq> RL \<longrightarrow> Q' h = (Q(sp := qs)) h"
    using chSchWakeupS_ok [OF f(4,5) p] by blast
  have "h \<noteq> RL \<and> h \<noteq> sp" if "kd h = KMtx" for h using that sp kglobD(3) [OF kcore_glob [OF core], of RL] by auto
  then have "\<forall>h. kd h = KMtx \<longrightarrow> Q' h = Q h" using w(5) by simp
  moreover have "same_mtx k k'" "timers_ok A k'" using w(4) tm wakeupS_ctx [OF _ w(1)] run by (simp_all add: same_objects_def same_mtx_def timers_ok_def)
  ultimately show ?thesis unfolding op w(1) fine_simps after_S_def using w(2,3) by blast
qed

section \<open>Waiting\<close>

text \<open>A thread enters the queue of an object.\<close>

lemma kcore_insert:
  assumes core: "kcore kd A k Q X" and h: "h \<noteq> RL" "hdr kd h" and t: "thread kd t" and q: "queues l {h. hdr kd h} (Q(h := xs))" "set xs = insert t (set (Q h))"
    and sem: "\<And>s. kd s = KSem \<Longrightarrow> sem_ok (c s) ((Q(h := xs)) s)"
  shows "kcore kd A (k\<lparr>ql := l, cnt := c\<rparr>) (Q(h := xs)) (insert t X)"
proof (rule kcoreI)
  note glob = kcore_glob [OF core] note g = kglobD [OF glob]
  show "kglob kd A (k\<lparr>ql := l, cnt := c\<rparr>) (Q(h := xs))"
    using q h t g(2,5) sem by (intro kglob_queue [OF glob]) auto
  fix s assume s: "thread kd s" "s \<notin> insert t X"
  then have "s \<in> set ((Q(h := xs)) i) \<longleftrightarrow> s \<in> set (Q i)" for i using q(2) by auto
  then show "tok kd A (k\<lparr>ql := l, cnt := c\<rparr>) (Q(h := xs)) s" using s by (intro tok_frame [OF kcore_tok [OF core]]) auto
qed

lemma sem_ok_dec:
  assumes "sem_ok n q" "n - 1 < 0" "- (2 ^ 31) \<le> n - 1"
  shows "sem_ok (n - 1) (q @ [t])"
  using assms by (auto simp: sem_ok_def min_def split: if_splits)

lemma sem_enqueue:
  assumes core: "kcore kd A k Q {}" and sp: "kd sp = KSem" and n: "cnt k sp - 1 < 0" "- (2 ^ 31) \<le> cnt k sp - 1"
  shows "kcore kd A (sem_insert (currp k) sp (set_u (currp k) (U_obj sp) (k\<lparr>cnt := (cnt k)(sp := cnt k sp - 1)\<rparr>)))
    (Q(sp := Q sp @ [currp k])) {currp k}" (is "kcore kd A ?k ?Q _")
proof -
  note glob = kcore_glob [OF core] note g = kglobD [OF glob]
  have h: "sp \<noteq> RL" "hdr kd sp" using sp g(3) [of sp] by (auto simp: hdr_def)
  let ?c = "(cnt k)(sp := cnt k sp - 1)"
  have q: "queues (queue_insert (currp k) sp (ql k)) {h. hdr kd h} ?Q"
    using queues_insert [OF g(1), of sp "currp k"] curr_loose(1) [OF core] h by simp
  have "kcore kd A (k\<lparr>ql := queue_insert (currp k) sp (ql k), cnt := ?c\<rparr>) ?Q (insert (currp k) {})"
    by (rule kcore_insert [OF core h g(5) q]) (use g(9) sem_ok_dec [OF g(9) [OF sp] n] in auto)
  then show ?thesis by (rule kcore_local [where t = "currp k"]) (auto simp: sem_insert_def set_u_def)
qed

lemma sem_sleep:
  assumes core: "kcore kd A k Q {}" and tm: "timers_ok A k" and run: "ctx k (currp k) = []" and idle: "currp k \<noteq> IDLE" and sp: "kd sp = KSem"
    and n: "cnt k sp - 1 < 0" "- (2 ^ 31) \<le> cnt k sp - 1"
    and k1: "k1 = sem_insert (currp k) sp (set_u (currp k) (U_obj sp) (k\<lparr>cnt := (cnt k)(sp := cnt k sp - 1)\<rparr>))"
  shows "after_S kd k Q (chSchGoSleepS [F_msg] CH_STATE_WTSEM k1)"
    "timeout \<noteq> 0 \<Longrightarrow> \<exists>k'. chSchGoSleepTimeoutS [] CH_STATE_WTSEM timeout now k1 = Inr k' \<and> after_S kd k Q k'"
proof -
  note glob = kcore_glob [OF core] note g = kglobD [OF glob]
  let ?Q = "Q(sp := Q sp @ [currp k])"
  have c1: "kcore kd A k1 ?Q {currp k1}" using sem_enqueue [OF core sp n] by (simp add: k1 sem_insert_def)
  have f: "currp k1 = currp k" "tu k1 (currp k1) = U_obj sp" "tref k1 = tref k" "vtl k1 = vtl k" "same_mtx k k1"
      "plain (ctx k1 (currp k1))" using run by (simp_all add: k1 sem_insert_def same_mtx_def)
  have idle1: "currp k1 \<noteq> IDLE" using idle f(1) by simp
  have cu: "currp k \<notin> A" "\<And>r. tref k r \<noteq> Some (currp k)" using curr_idle [OF core _ run] by auto
  have lo: "currp k \<notin> set (Q h)" if "hdr kd h" for h using curr_loose(1) [OF core] that by (simp add: loose_def members_def)
  have li: "lives (kd h) (set_state (currp k1) CH_STATE_WTSEM k1) h (currp k1)" if "hdr kd h" "currp k1 \<in> set (?Q h)" for h
    using that lo [of h] sp f(1,2) by (cases "h = sp") auto
  have ex: "\<exists>h. hdr kd h \<and> currp k1 \<in> set (?Q h)" using sp f(1) by (intro exI [of _ sp]) (simp add: hdr_def)
  have mx: "(?Q(RL := qs)) h = Q h" if "kd h = KMtx" for h qs using that sp g(3) [of RL] by auto
  have nr: "\<not> runnable CH_STATE_WTSEM" "timed CH_STATE_WTSEM" by (simp_all add: state_defs)
  let ?k = "chSchGoSleepS [F_msg] CH_STATE_WTSEM k1"
  have "\<exists>tp qs. ?Q RL = tp # qs \<and> kcore kd A ?k (?Q(RL := qs)) {} \<and> top_prio ?k (?Q(RL := qs)) \<and> currp ?k = tp \<and> same_objects k1 ?k \<and> tu ?k = tu k1"
    by (rule go_sleep_ok [OF c1]) (use idle f(1,3) nr cu li ex in simp_all)
  then obtain tp qs where s: "kcore kd A ?k (?Q(RL := qs)) {}" "top_prio ?k (?Q(RL := qs))" "same_objects k1 ?k" by blast
  have "timers_ok A ?k" using tm f(4) same_objectsD(2) [OF s(3)] by (simp add: timers_ok_def)
  then show "after_S kd k Q ?k"
    using s(1,2) mx same_mtx_trans [OF f(5) same_objects_mtx [OF s(3) same_frames_sleep [OF idle1 f(6) plain_simps(2)]]]
    unfolding after_S_def by blast
  assume t0: "timeout \<noteq> 0"
  have tm1: "timers_ok A k1" using tm f(4) by (simp add: timers_ok_def)
  have "\<exists>A' k' tp qs. chSchGoSleepTimeoutS [] CH_STATE_WTSEM timeout now k1 = Inr k' \<and> ?Q RL = tp # qs \<and> kcore kd A' k' (?Q(RL := qs)) {} \<and>
    timers_ok A' k' \<and> top_prio k' (?Q(RL := qs)) \<and> same_mtx k1 k' \<and> currp k' = tp"
    by (rule sleep_timeout_ok [OF c1 tm1]) (use idle f(1,3,6) nr cu li ex t0 in simp_all)
  then obtain A' k' qs where s: "chSchGoSleepTimeoutS [] CH_STATE_WTSEM timeout now k1 = Inr k'" "kcore kd A' k' (?Q(RL := qs)) {}"
    "timers_ok A' k'" "top_prio k' (?Q(RL := qs))" "same_mtx k1 k'" by blast
  then show "\<exists>k'. chSchGoSleepTimeoutS [] CH_STATE_WTSEM timeout now k1 = Inr k' \<and> after_S kd k Q k'"
    using mx same_mtx_trans [OF f(5) s(5)] unfolding after_S_def by blast
qed

lemma sem_dec_free:
  assumes core: "kcore kd A k Q {}" and sp: "kd sp = KSem" and n: "0 \<le> cnt k sp - 1"
  shows "kcore kd A (k\<lparr>cnt := (cnt k)(sp := cnt k sp - 1)\<rparr>) Q {}"
proof -
  have "sem_ok (cnt k sp) (Q sp)" using kglobD(9) [OF kcore_glob [OF core] sp] .
  then have "sem_ok (cnt k sp - 1) (Q sp)" using n by (simp add: sem_ok_def)
  then show ?thesis by (rule kcore_cnt [OF core sp])
qed

lemma chSemWaitS_ok:
  assumes core: "kcore kd A k Q {}" and tm: "timers_ok A k" and top: "top_prio k Q" and run: "ctx k (currp k) = []" and idle: "currp k \<noteq> IDLE"
    and sp: "kd sp = KSem"
  shows "fine (\<lambda>(m, k'). after_S kd k Q k') (chSemWaitS sp k)"
proof -
  note sc = sem_consistent_ok(1) [OF core sp]
  consider (o) "\<not> - (2 ^ 31) \<le> cnt k sp - 1" | (b) "- (2 ^ 31) \<le> cnt k sp - 1" "cnt k sp - 1 < 0" | (f) "0 \<le> cnt k sp - 1" by linarith
  then show ?thesis
  proof cases
    case o
    then show ?thesis using sc by (simp add: chSemWaitS_def cnt_add_def)
  next
    case b
    have "cnt k sp - 1 < 2 ^ 31" using b by simp
    then have "chSemWaitS sp k = Inr (None, chSchGoSleepS [F_msg] CH_STATE_WTSEM
        (sem_insert (currp k) sp (set_u (currp k) (U_obj sp) (k\<lparr>cnt := (cnt k)(sp := cnt k sp - 1)\<rparr>))))"
      using sc b by (simp add: chSemWaitS_def cnt_add_def)
    then show ?thesis using sem_sleep(1) [OF core tm run idle sp b(2,1) refl] by simp
  next
    case f
    have "cnt k sp < 2 ^ 31" using kglobD(9) [OF kcore_glob [OF core] sp] by (simp add: sem_ok_def)
    then have "chSemWaitS sp k = Inr (Some MSG_OK, k\<lparr>cnt := (cnt k)(sp := cnt k sp - 1)\<rparr>)" using sc f by (simp add: chSemWaitS_def cnt_add_def)
    then show ?thesis using sem_dec_free [OF core sp f] tm top
      by (auto simp: after_S_def same_mtx_def timers_ok_def top_prio_def intro!: exI [of _ A] exI [of _ Q])
  qed
qed

lemma chSemWaitTimeoutS_ok:
  assumes core: "kcore kd A k Q {}" and tm: "timers_ok A k" and top: "top_prio k Q" and run: "ctx k (currp k) = []" and idle: "currp k \<noteq> IDLE"
    and sp: "kd sp = KSem"
  shows "fine (\<lambda>(m, k'). after_S kd k Q k') (chSemWaitTimeoutS sp timeout now k)"
proof -
  note sc = sem_consistent_ok(1) [OF core sp]
  have up: "cnt k sp < 2 ^ 31" "- (2 ^ 31) \<le> cnt k sp" using kglobD(9) [OF kcore_glob [OF core] sp] by (simp_all add: sem_ok_def)
  have same: "after_S kd k Q k" using core tm top by (auto simp: after_S_def)
  consider (o) "\<not> - (2 ^ 31) \<le> cnt k sp - 1" | (i) "- (2 ^ 31) \<le> cnt k sp - 1" "cnt k sp - 1 < 0" "timeout = 0"
    | (b) "- (2 ^ 31) \<le> cnt k sp - 1" "cnt k sp - 1 < 0" "timeout \<noteq> 0" | (f) "0 \<le> cnt k sp - 1" by linarith
  then show ?thesis
  proof cases
    case o
    then show ?thesis using sc by (simp add: chSemWaitTimeoutS_def cnt_add_def)
  next
    case i
    then have "chSemWaitTimeoutS sp timeout now k = Inr (Some MSG_TIMEOUT, k)"
      using sc up by (simp add: chSemWaitTimeoutS_def cnt_add_def TIME_IMMEDIATE_def)
    then show ?thesis using same by simp
  next
    case b
    let ?k1 = "sem_insert (currp k) sp (set_u (currp k) (U_obj sp) (k\<lparr>cnt := (cnt k)(sp := cnt k sp - 1)\<rparr>))"
    have "chSemWaitTimeoutS sp timeout now k = rbind (chSchGoSleepTimeoutS [] CH_STATE_WTSEM timeout now ?k1) (\<lambda>k. Inr (None, k))"
      using sc b up by (simp add: chSemWaitTimeoutS_def cnt_add_def TIME_IMMEDIATE_def)
    then show ?thesis using sem_sleep(2) [OF core tm run idle sp b(2,1) refl b(3), of now] by auto
  next
    case f
    then have "chSemWaitTimeoutS sp timeout now k = Inr (Some MSG_OK, k\<lparr>cnt := (cnt k)(sp := cnt k sp - 1)\<rparr>)"
      using sc up by (simp add: chSemWaitTimeoutS_def cnt_add_def)
    then show ?thesis using sem_dec_free [OF core sp f] tm top
      by (auto simp: after_S_def same_mtx_def timers_ok_def top_prio_def intro!: exI [of _ A] exI [of _ Q])
  qed
qed

lemma chSemSignalWait_ok:
  assumes core: "kcore kd A k Q {}" and tm: "timers_ok A k" and run: "ctx k (currp k) = []" and idle: "currp k \<noteq> IDLE"
    and sp: "kd sps = KSem" "kd spw = KSem"
  shows "fine (\<lambda>(m, k'). after_S kd k Q k') (chSemSignalWait sps spw k)"
proof -
  have "fine (\<lambda>(m, k'). after_S kd k Q k') (rbind (sem_release sps k) (\<lambda>k. rbind (cnt_add (-1) spw k) (\<lambda>k.
       if cnt k spw < 0 then
         Inr (None, chSchGoSleepS [F_msg] CH_STATE_WTSEM (set_u (currp k) (U_obj spw) (sem_insert (currp k) spw k)))
       else rbind (chSchRescheduleS k) (\<lambda>k. Inr (Some MSG_OK, k)))))"
  proof (rule fine_rbind [OF sem_release_ok [OF core sp(1)]])
    fix k1 assume "\<exists>Q1. after_I kd A k Q k1 Q1"
    then obtain Q1 where a: "after_I kd A k Q k1 Q1" by blast
    then have c1: "kcore kd A k1 Q1 {}" "ctx k1 (currp k1) = []" "currp k1 \<noteq> IDLE" "timers_ok A k1"
      using run idle tm by (auto simp: after_I_def timers_ok_def)
    have up: "cnt k1 spw < 2 ^ 31" using kglobD(9) [OF kcore_glob [OF c1(1)] sp(2)] by (simp add: sem_ok_def)
    consider (o) "\<not> - (2 ^ 31) \<le> cnt k1 spw - 1" | (b) "- (2 ^ 31) \<le> cnt k1 spw - 1" "cnt k1 spw - 1 < 0" | (f) "0 \<le> cnt k1 spw - 1" by linarith
    then show "fine (\<lambda>(m, k'). after_S kd k Q k') (rbind (cnt_add (-1) spw k1) (\<lambda>k.
       if cnt k spw < 0 then
         Inr (None, chSchGoSleepS [F_msg] CH_STATE_WTSEM (set_u (currp k) (U_obj spw) (sem_insert (currp k) spw k)))
       else rbind (chSchRescheduleS k) (\<lambda>k. Inr (Some MSG_OK, k))))"
    proof cases
      case b
      let ?k2 = "sem_insert (currp k1) spw (set_u (currp k1) (U_obj spw) (k1\<lparr>cnt := (cnt k1)(spw := cnt k1 spw - 1)\<rparr>))"
      have "set_u (currp k1) (U_obj spw) (sem_insert (currp k1) spw (k1\<lparr>cnt := (cnt k1)(spw := cnt k1 spw - 1)\<rparr>)) = ?k2"
        by (simp add: sem_insert_def set_u_def)
      then show ?thesis
        using b up after_S_trans [OF a sem_sleep(1) [OF c1(1,4,2,3) sp(2) b(2,1) refl]] by (simp add: cnt_add_def)
    next
      case f
      let ?k2 = "k1\<lparr>cnt := (cnt k1)(spw := cnt k1 spw - 1)\<rparr>"
      have "after_I kd A k1 Q1 ?k2 Q1" using sem_dec_free [OF c1(1) sp(2) f] by (simp add: after_I_def same_mtx_def)
      from resched_after [OF this c1(4,2)] obtain k' where "chSchRescheduleS ?k2 = Inr k'" "after_S kd k1 Q1 k'" by blast
      then show ?thesis using f up after_S_trans [OF a] by (simp add: cnt_add_def)
    qed (simp add: cnt_add_def)
  qed
  then show ?thesis using sem_consistent_ok(1) [OF core sp(1)] sem_consistent_ok(1) [OF core sp(2)] by (simp add: chSemSignalWait_def)
qed

text \<open>
  The reset: the waiting threads become ready from the last to the first with the message \<open>MSG_RESET\<close>. In the loop, the local counter takes
  the place of the counter of the semaphore, which has its new value already.
\<close>

lemma ready_cnt: "chSchReadyI t (k\<lparr>cnt := c\<rparr>) = rbind (chSchReadyI t k) (\<lambda>k. Inr (k\<lparr>cnt := c\<rparr>))"
  by (simp add: chSchReadyI_def Let_def set_state_def assert_or_halt_def or_fault_def split: option.splits)

lemma sem_reset_loop_ok:
  assumes "kcore kd A (k\<lparr>cnt := (cnt k)(sp := c)\<rparr>) Q {}" and sp: "kd sp = KSem" and n: "0 \<le> cnt k sp" "cnt k sp < 2 ^ 31"
  shows "fine (\<lambda>k'. \<exists>Q'. after_I kd A k Q k' Q' \<and> Q' sp = [] \<and> cnt k' = cnt k) (sem_reset_loop sp c k)"
  using assms(1) n
proof (induction "length (Q sp)" arbitrary: k Q c)
  case 0
  let ?k = "k\<lparr>cnt := (cnt k)(sp := c)\<rparr>"
  have "0 \<le> c" using sem_consistent_ok(2) [OF 0(2) sp] 0(1) by auto
  moreover have "kcore kd A k Q {}"
  proof -
    have "?k\<lparr>cnt := (cnt ?k)(sp := cnt k sp)\<rparr> = k" by simp
    then show ?thesis using kcore_cnt [OF 0(2) sp, of "cnt k sp"] 0(1,3,4) by (simp only: sem_ok_def) simp
  qed
  moreover have "Q sp = []" using 0(1) by simp
  ultimately show ?case by (subst sem_reset_loop.simps) (auto simp: after_I_def intro!: exI [of _ Q])
next
  case (Suc n)
  let ?k = "k\<lparr>cnt := (cnt k)(sp := c)\<rparr>"
  note core = Suc.prems(1)
  note glob = kcore_glob [OF core] note g = kglobD [OF glob]
  obtain qs t where q: "Q sp = qs @ [t]" using Suc.hyps(2) by (cases "Q sp" rule: rev_cases) auto
  have h: "hdr kd sp" "sp \<noteq> RL" using sp g(3) [of sp] by (auto simp: hdr_def)
  have qk: "queues (ql k) {h. hdr kd h} Q" using g(1) by simp
  have li: "queue_lifo_remove sp (ql k) = (t, queue_dequeue t (ql k))" using queues_lifo(1) [OF qk _ q] h by simp
  have rm: "remove1 t (Q sp) = qs" using queues_distinct [OF qk, of sp] h q by (simp add: remove1_append)
  have so: "sem_ok c (Q sp)" using g(9) [OF sp] by simp
  note inc = sem_ok_inc [OF so, of qs]
  let ?c = "(cnt k)(sp := c + 1)"
  have sem: "sem_ok (?c s) ((Q(sp := remove1 t (Q sp))) s)" if "kd s = KSem" for s
    using inc(1) g(9) [OF that] q rm by (cases "s = sp") auto
  have "t \<in> set (Q sp)" using q by simp
  note lq = leave_queue [OF core h this, of ?c, OF sem, unfolded rm]
  let ?kq = "k\<lparr>ql := queue_dequeue t (ql k)\<rparr>"
  have eq: "(k\<lparr>cnt := (cnt k)(sp := c)\<rparr>)\<lparr>ql := queue_dequeue t (ql (k\<lparr>cnt := (cnt k)(sp := c)\<rparr>)), cnt := ?c\<rparr> = ?kq\<lparr>cnt := ?c\<rparr>" by simp
  have st: "kstate (?kq\<lparr>cnt := ?c\<rparr>) t \<notin> {CH_STATE_READY, CH_STATE_FINAL}" using lq(3) by simp
  let ?Q = "(Q(sp := qs))(RL := insert_after (\<lambda>x. prio k t \<le> prio k x) t (Q RL))"
  obtain k2 where k2: "chSchReadyI t (set_u t (U_msg MSG_RESET) (?kq\<lparr>cnt := ?c\<rparr>)) = Inr k2" "kcore kd A k2 ?Q {}"
      "same_objects (?kq\<lparr>cnt := ?c\<rparr>) k2" "currp k2 = currp k" "ctx k2 = ctx k"
    using wake_I [OF lq(1,2) [unfolded eq] st, of MSG_RESET] h(2) by auto
  have cu: "set_u t (U_msg MSG_RESET) (?kq\<lparr>cnt := ?c\<rparr>) = (set_u t (U_msg MSG_RESET) ?kq)\<lparr>cnt := ?c\<rparr>" by (simp add: set_u_def)
  obtain k1 where k1: "chSchReadyI t (set_u t (U_msg MSG_RESET) ?kq) = Inr k1" "k2 = k1\<lparr>cnt := ?c\<rparr>"
    using k2(1) unfolding cu ready_cnt by (auto simp: rbind_Inr)
  have cn: "cnt k1 = cnt k"
    using k1(1) by (auto simp: chSchReadyI_def Let_def rbind_Inr)
  have eqc: "k1\<lparr>cnt := (cnt k1)(sp := c + 1)\<rparr> = k2" using k1(2) cn by simp
  have len: "n = length (?Q sp)" using Suc.hyps(2) q h(2) by simp
  have c1: "kcore kd A (k1\<lparr>cnt := (cnt k1)(sp := c + 1)\<rparr>) ?Q {}" using k2(2) eqc by simp
  have n1: "0 \<le> cnt k1 sp" "cnt k1 sp < 2 ^ 31" using Suc.prems(2,3) cn by auto
  note ih = Suc.hyps(1) [OF len c1 n1]
  have neg: "c + 1 \<le> 0" using inc(2) q by simp
  have op: "sem_reset_loop sp c k = sem_reset_loop sp (c + 1) k1"
    using neg li k1(1) ready_set_u [of t ?kq t "U_msg MSG_RESET"] by (subst sem_reset_loop.simps) (auto simp: rbind_Inr)
  have mx: "h \<noteq> RL \<and> h \<noteq> sp" if "kd h = KMtx" for h using that sp g(3) [of RL] by auto
  have same: "same_mtx k k1" "vtl k1 = vtl k" "currp k1 = currp k" "ctx k1 = ctx k"
    using k2(3-5) k1(2) by (auto simp: same_objects_def same_mtx_def)
  have step: "after_I kd A k Q k' Q'" if "after_I kd A k1 ?Q k' Q'" for k' Q'
  proof -
    have "\<And>h. kd h = KMtx \<Longrightarrow> ?Q h = Q h" using mx by simp
    then show ?thesis using that same same_mtx_trans [OF same(1)] by (simp add: after_I_def)
  qed
  show ?case unfolding op by (rule fine_mono [OF ih]) (use step cn in auto)
qed

lemma chSemResetI_ok:
  assumes core: "kcore kd A k Q {}" and sp: "kd sp = KSem" and n: "0 \<le> n" "n < 2 ^ 31"
  shows "fine (\<lambda>k'. \<exists>Q'. after_I kd A k Q k' Q' \<and> Q' sp = [] \<and> cnt k' sp = n) (chSemResetI sp n k)"
proof -
  let ?k = "k\<lparr>cnt := (cnt k)(sp := n)\<rparr>"
  have eq: "?k\<lparr>cnt := (cnt ?k)(sp := cnt k sp)\<rparr> = k" by simp
  have "chSemResetI sp n k = sem_reset_loop sp (cnt k sp) ?k"
    using n(1) sem_consistent_ok(1) [OF core sp] by (simp add: chSemResetI_def)
  moreover have "fine (\<lambda>k'. \<exists>Q'. after_I kd A ?k Q k' Q' \<and> Q' sp = [] \<and> cnt k' = cnt ?k) (sem_reset_loop sp (cnt k sp) ?k)"
    by (rule sem_reset_loop_ok) (use core eq sp n in simp_all)
  moreover have "after_I kd A k Q k' Q'" if "after_I kd A ?k Q k' Q'" for k' Q' using that by (simp add: after_I_def same_mtx_def)
  ultimately show ?thesis by (simp only:) (erule fine_mono, auto, blast)
qed

end
