(* ===== verification/KThread.thy ===== *)
theory KThread
  imports KSem
begin

text \<open>
  Thread operations (\<^verbatim>\<open>os/rt/src/chthreads.c\<close>, \<^verbatim>\<open>chthreads.h\<close>): start, sleep, yield, suspend and resume through a thread
  reference, and waiting in a plain queue.
\<close>

section \<open>Operations\<close>

text \<open>The fields of the model that \<open>_thread_init\<close> sets.\<close>

definition thread_init :: "node \<Rightarrow> nat \<Rightarrow> kernel \<Rightarrow> kernel" where
  "thread_init tp p k =
     k\<lparr>prio := (prio k)(tp := p), kstate := (kstate k)(tp := CH_STATE_WTSTART), realprio := (realprio k)(tp := p),
       mtxlist := (mtxlist k)(tp := None)\<rparr>"

definition chThdGetSelfX :: "kernel \<Rightarrow> node" where
  "chThdGetSelfX k = currp k"

definition chThdGetPriorityX :: "kernel \<Rightarrow> nat" where
  "chThdGetPriorityX k = prio k (chThdGetSelfX k)"

definition chThdTerminatedX :: "node \<Rightarrow> kernel \<Rightarrow> bool" where
  "chThdTerminatedX tp k \<longleftrightarrow> kstate k tp = CH_STATE_FINAL"

definition chThdStart :: "node \<Rightarrow> kernel \<Rightarrow> kernel result" where
  "chThdStart tp k = rbind (assert_or_halt (kstate k tp = CH_STATE_WTSTART)) (\<lambda>_. chSchWakeupS tp MSG_OK k)"

definition chThdStartI :: "node \<Rightarrow> kernel \<Rightarrow> kernel result" where
  "chThdStartI tp k = rbind (assert_or_halt (kstate k tp = CH_STATE_WTSTART)) (\<lambda>_. chSchReadyI tp k)"

definition chThdSetPriority :: "nat \<Rightarrow> kernel \<Rightarrow> (nat \<times> kernel) result" where
  "chThdSetPriority newprio k =
     rbind (assert_or_halt (newprio \<le> HIGHPRIO)) (\<lambda>_.
       let t = currp k; oldprio = realprio k t;
           k = (if prio k t = realprio k t \<or> newprio > prio k t then k\<lparr>prio := (prio k)(t := newprio)\<rparr> else k);
           k = k\<lparr>realprio := (realprio k)(t := newprio)\<rparr>
       in rbind (chSchRescheduleS k) (\<lambda>k. Inr (oldprio, k)))"

definition chThdSleepS :: "sysinterval \<Rightarrow> systime \<Rightarrow> kernel \<Rightarrow> kernel result" where
  "chThdSleepS ticks now k =
     rbind (assert_or_halt (ticks \<noteq> TIME_IMMEDIATE)) (\<lambda>_. chSchGoSleepTimeoutS [] CH_STATE_SLEEPING ticks now k)"

definition chThdSleep :: "sysinterval \<Rightarrow> systime \<Rightarrow> kernel \<Rightarrow> kernel result" where
  "chThdSleep time now k = chThdSleepS time now k"

text \<open>The second reading of the counter in these operations is that of \<open>chVTDoSetI\<close>.\<close>

definition chThdSleepUntil :: "systime \<Rightarrow> systime \<Rightarrow> systime \<Rightarrow> kernel \<Rightarrow> kernel result" where
  "chThdSleepUntil time now now' k =
     (let interval = chTimeDiffX now time in if interval > 0 then chThdSleepS interval now' k else Inr k)"

definition chThdSleepUntilWindowed :: "systime \<Rightarrow> systime \<Rightarrow> systime \<Rightarrow> systime \<Rightarrow> kernel \<Rightarrow> (systime \<times> kernel) result" where
  "chThdSleepUntilWindowed prev nxt now now' k =
     (if chTimeIsInRangeX now prev nxt then rbind (chThdSleepS (chTimeDiffX now nxt) now' k) (\<lambda>k. Inr (nxt, k)) else Inr (nxt, k))"

definition chThdYield :: "kernel \<Rightarrow> kernel result" where
  "chThdYield k = chSchDoYieldS k"

definition chThdSuspendS :: "node \<Rightarrow> kernel \<Rightarrow> kernel result" where
  "chThdSuspendS trp k =
     (let tp = chThdGetSelfX k in
      rbind (assert_or_halt (tref k trp = None)) (\<lambda>_.
        Inr (chSchGoSleepS [F_msg] CH_STATE_SUSPENDED (set_u tp (U_ref trp) (k\<lparr>tref := (tref k)(trp := Some tp)\<rparr>)))))"

definition chThdSuspendTimeoutS :: "node \<Rightarrow> sysinterval \<Rightarrow> systime \<Rightarrow> kernel \<Rightarrow> (msg option \<times> kernel) result" where
  "chThdSuspendTimeoutS trp timeout now k =
     (let tp = chThdGetSelfX k in
      rbind (assert_or_halt (tref k trp = None)) (\<lambda>_.
        if timeout = TIME_IMMEDIATE then Inr (Some MSG_TIMEOUT, k)
        else rbind (chSchGoSleepTimeoutS [] CH_STATE_SUSPENDED timeout now (set_u tp (U_ref trp) (k\<lparr>tref := (tref k)(trp := Some tp)\<rparr>)))
               (\<lambda>k. Inr (None, k))))"

definition chThdResumeI :: "node \<Rightarrow> msg \<Rightarrow> kernel \<Rightarrow> kernel result" where
  "chThdResumeI trp msg k =
     (case tref k trp of
        None \<Rightarrow> Inr k
      | Some tp \<Rightarrow>
          rbind (assert_or_halt (kstate k tp = CH_STATE_SUSPENDED)) (\<lambda>_.
            chSchReadyI tp (set_u tp (U_msg msg) (k\<lparr>tref := (tref k)(trp := None)\<rparr>))))"

definition chThdResumeS :: "node \<Rightarrow> msg \<Rightarrow> kernel \<Rightarrow> kernel result" where
  "chThdResumeS trp msg k =
     (case tref k trp of
        None \<Rightarrow> Inr k
      | Some tp \<Rightarrow>
          rbind (assert_or_halt (kstate k tp = CH_STATE_SUSPENDED)) (\<lambda>_.
            chSchWakeupS tp msg (k\<lparr>tref := (tref k)(trp := None)\<rparr>)))"

definition chThdResume :: "node \<Rightarrow> msg \<Rightarrow> kernel \<Rightarrow> kernel result" where
  "chThdResume trp msg k = chThdResumeS trp msg k"

definition chThdQueueObjectInit :: "node \<Rightarrow> kernel \<Rightarrow> kernel" where
  "chThdQueueObjectInit tqp k = k\<lparr>ql := queue_init tqp (ql k)\<rparr>"

definition chThdQueueIsEmptyI :: "node \<Rightarrow> kernel \<Rightarrow> bool" where
  "chThdQueueIsEmptyI tqp k = queue_isempty tqp (ql k)"

definition chThdEnqueueTimeoutS :: "frame list \<Rightarrow> node \<Rightarrow> sysinterval \<Rightarrow> systime \<Rightarrow> kernel \<Rightarrow> (msg option \<times> kernel) result" where
  "chThdEnqueueTimeoutS fs tqp timeout now k =
     (if timeout = TIME_IMMEDIATE then Inr (Some MSG_TIMEOUT, k)
      else rbind (chSchGoSleepTimeoutS fs CH_STATE_QUEUED timeout now (k\<lparr>ql := queue_insert (currp k) tqp (ql k)\<rparr>)) (\<lambda>k. Inr (None, k)))"

definition chThdDoDequeueNextI :: "node \<Rightarrow> msg \<Rightarrow> kernel \<Rightarrow> kernel result" where
  "chThdDoDequeueNextI tqp msg k =
     rbind (assert_or_halt (queue_notempty tqp (ql k))) (\<lambda>_.
       let (tp, l) = queue_fifo_remove tqp (ql k) in
       rbind (assert_or_halt (kstate k tp = CH_STATE_QUEUED)) (\<lambda>_. chSchReadyI tp (set_u tp (U_msg msg) (k\<lparr>ql := l\<rparr>))))"

definition chThdDequeueNextI :: "node \<Rightarrow> msg \<Rightarrow> kernel \<Rightarrow> kernel result" where
  "chThdDequeueNextI tqp msg k = (if queue_notempty tqp (ql k) then chThdDoDequeueNextI tqp msg k else Inr k)"

partial_function (option) dequeue_all :: "node \<Rightarrow> msg \<Rightarrow> kernel \<Rightarrow> kernel result option" where
  "dequeue_all tqp msg k =
     (if queue_notempty tqp (ql k) then
        case chThdDoDequeueNextI tqp msg k of Inl e \<Rightarrow> Some (Inl e) | Inr k \<Rightarrow> dequeue_all tqp msg k
      else Some (Inr k))"

definition chThdDequeueAllI :: "node \<Rightarrow> msg \<Rightarrow> kernel \<Rightarrow> kernel result" where
  "chThdDequeueAllI tqp msg k = rbind (or_fault Diverge (dequeue_all tqp msg k)) (\<lambda>r. r)"

section \<open>Going to sleep\<close>

text \<open>The running thread, prepared for its new state, goes to sleep with or without a timeout.\<close>

lemma block_ok:
  assumes core: "kcore kd A k Q {}" and tm: "timers_ok A k" and run: "ctx k (currp k) = []" and idle: "currp k \<noteq> IDLE"
    and c1: "kcore kd A k1 Q1 {currp k}" and f: "currp k1 = currp k" "vtl k1 = vtl k" "same_mtx k k1"
    and nr: "\<not> runnable st" and q: "\<And>h. hdr kd h \<Longrightarrow> currp k \<in> set (Q1 h) \<Longrightarrow> lives (kd h) (set_state (currp k) st k1) h (currp k)"
      "in_queue st \<Longrightarrow> \<exists>h. hdr kd h \<and> currp k \<in> set (Q1 h)"
    and r: "\<And>r. tref k1 r = Some (currp k) \<Longrightarrow> st = CH_STATE_SUSPENDED \<and> tu k1 (currp k) = U_ref r"
      "st = CH_STATE_SUSPENDED \<Longrightarrow> \<exists>r. tref k1 r = Some (currp k)"
    and mx: "\<And>h. kd h = KMtx \<Longrightarrow> Q1 h = Q h" and cx: "ctx k1 = ctx k" and fs: "round_frame fs"
  shows "after_S kd k Q (chSchGoSleepS (F_msg # fs) st k1)"
    "timed st \<Longrightarrow> timeout \<noteq> 0 \<Longrightarrow> \<exists>k'. chSchGoSleepTimeoutS fs st timeout now k1 = Inr k' \<and> after_S kd k Q k'"
proof -
  note g = kglobD [OF kcore_glob [OF core]]
  have cu: "currp k \<notin> A" using curr_idle [OF core _ run] by simp
  have mx': "(Q1(RL := qs)) h = Q h" if "kd h = KMtx" for h qs using that mx g(3) [of RL] by auto
  have c1': "kcore kd A k1 Q1 {currp k1}" and pc: "plain (ctx k1 (currp k1))" and id: "currp k1 \<noteq> IDLE" using c1 f(1) cx run idle by simp_all
  let ?k = "chSchGoSleepS (F_msg # fs) st k1"
  have "\<exists>tp qs. Q1 RL = tp # qs \<and> kcore kd A ?k (Q1(RL := qs)) {} \<and> top_prio ?k (Q1(RL := qs)) \<and> currp ?k = tp \<and> same_objects k1 ?k \<and> tu ?k = tu k1"
    by (rule go_sleep_ok [OF c1']) (use idle f(1) nr cu q r in simp_all)
  then obtain tp qs where s: "kcore kd A ?k (Q1(RL := qs)) {}" "top_prio ?k (Q1(RL := qs))" "same_objects k1 ?k" by blast
  have "timers_ok A ?k" using tm f(2) same_objectsD(2) [OF s(3)] by (simp add: timers_ok_def)
  then show "after_S kd k Q ?k"
    using s(1,2) mx' same_mtx_trans [OF f(3) same_objects_mtx [OF s(3) same_frames_sleep [OF id pc plain_sleep(1) [OF fs]]]]
    unfolding after_S_def by blast
  assume t0: "timed st" "timeout \<noteq> 0"
  have tm1: "timers_ok A k1" using tm f(2) by (simp add: timers_ok_def)
  have "\<exists>A' k' tp qs. chSchGoSleepTimeoutS fs st timeout now k1 = Inr k' \<and> Q1 RL = tp # qs \<and> kcore kd A' k' (Q1(RL := qs)) {} \<and>
    timers_ok A' k' \<and> top_prio k' (Q1(RL := qs)) \<and> same_mtx k1 k' \<and> currp k' = tp"
    by (rule sleep_timeout_ok [OF c1' tm1]) (use idle f(1) nr cu q r t0 pc fs in simp_all)
  then obtain A' k' qs where s: "chSchGoSleepTimeoutS fs st timeout now k1 = Inr k'" "kcore kd A' k' (Q1(RL := qs)) {}"
    "timers_ok A' k'" "top_prio k' (Q1(RL := qs))" "same_mtx k1 k'" by blast
  then show "\<exists>k'. chSchGoSleepTimeoutS fs st timeout now k1 = Inr k' \<and> after_S kd k Q k'"
    using mx' same_mtx_trans [OF f(3) s(5)] unfolding after_S_def by blast
qed

lemma curr_not_queued:
  assumes "kcore kd A k Q {}" "hdr kd h"
  shows "currp k \<notin> set (Q h)"
  using curr_loose(1) [OF assms(1)] assms(2) by (simp add: loose_def members_def)

lemma chThdSleepS_ok:
  assumes core: "kcore kd A k Q {}" and tm: "timers_ok A k" and run: "ctx k (currp k) = []" and idle: "currp k \<noteq> IDLE" and t: "ticks \<noteq> 0"
  shows "\<exists>k'. chThdSleepS ticks now k = Inr k' \<and> after_S kd k Q k'"
proof -
  have c: "kcore kd A k Q {currp k}" using kcore_mono [OF core] by simp
  have "\<exists>k'. chSchGoSleepTimeoutS [] CH_STATE_SLEEPING ticks now k = Inr k' \<and> after_S kd k Q k'"
    by (rule block_ok(2) [OF core tm run idle c])
      (use t curr_not_queued [OF core] curr_idle(2) [OF core _ run] in \<open>simp_all add: state_defs\<close>)
  then show ?thesis using t by (simp add: chThdSleepS_def TIME_IMMEDIATE_def)
qed

text \<open>Suspension: the reference names the thread.\<close>

lemma suspend_core:
  assumes core: "kcore kd A k Q {}" and free: "tref k r = None"
  shows "kcore kd A (set_u (currp k) (U_ref r) (k\<lparr>tref := (tref k)(r := Some (currp k))\<rparr>)) Q {currp k}" (is "kcore kd A ?k Q _")
proof (rule kcoreI)
  note g = kglobD [OF kcore_glob [OF core]]
  show "kglob kd A ?k Q" using kcore_glob [OF core] g(5) unfolding kglob_def by auto
  fix s assume s: "thread kd s" "s \<notin> {currp k}"
  then show "tok kd A ?k Q s" using free by (intro tok_frame [OF kcore_tok [OF core, of s]]) auto
qed

lemma suspend_ok:
  assumes core: "kcore kd A k Q {}" and tm: "timers_ok A k" and run: "ctx k (currp k) = []" and idle: "currp k \<noteq> IDLE" and free: "tref k r = None"
  shows "\<exists>k'. chThdSuspendS r k = Inr k' \<and> after_S kd k Q k'"
    "top_prio k Q \<Longrightarrow> \<exists>m k'. chThdSuspendTimeoutS r timeout now k = Inr (m, k') \<and> after_S kd k Q k'"
proof -
  let ?k = "set_u (currp k) (U_ref r) (k\<lparr>tref := (tref k)(r := Some (currp k))\<rparr>)"
  note c = suspend_core [OF core free]
  have nt: "tref k r' \<noteq> Some (currp k)" for r' using curr_idle(2) [OF core _ run] by simp
  have f: "currp ?k = currp k" "vtl ?k = vtl k" "same_mtx k ?k" "\<not> runnable CH_STATE_SUSPENDED" "\<not> in_queue CH_STATE_SUSPENDED" "timed CH_STATE_SUSPENDED"
    by (simp_all add: same_mtx_def state_defs)
  have rf: "tref ?k r' = Some (currp k) \<Longrightarrow> CH_STATE_SUSPENDED = CH_STATE_SUSPENDED \<and> tu ?k (currp k) = U_ref r'" for r' using nt by (auto split: if_splits)
  have ex: "\<exists>r. tref ?k r = Some (currp k)" by (intro exI [of _ r]) simp
  note b = block_ok [OF core tm run idle c f(1-4), where fs = fs for fs]
  have "after_S kd k Q (chSchGoSleepS [F_msg] CH_STATE_SUSPENDED ?k)"
    by (rule b(1)) (use curr_not_queued [OF core] f(5) rf ex in auto)
  then show "\<exists>k'. chThdSuspendS r k = Inr k' \<and> after_S kd k Q k'"
    using free by (simp add: chThdSuspendS_def chThdGetSelfX_def Let_def)
  assume top: "top_prio k Q"
  show "\<exists>m k'. chThdSuspendTimeoutS r timeout now k = Inr (m, k') \<and> after_S kd k Q k'"
  proof (cases "timeout = 0")
    case True
    then show ?thesis using free core tm top
      by (auto simp: chThdSuspendTimeoutS_def chThdGetSelfX_def Let_def TIME_IMMEDIATE_def after_S_def)
  next
    case False
    have "\<exists>k'. chSchGoSleepTimeoutS [] CH_STATE_SUSPENDED timeout now ?k = Inr k' \<and> after_S kd k Q k'"
      by (rule b(2)) (use curr_not_queued [OF core] f(5,6) rf ex False in auto)
    then show ?thesis using free False by (auto simp: chThdSuspendTimeoutS_def chThdGetSelfX_def Let_def TIME_IMMEDIATE_def)
  qed
qed

lemma chThdResumeI_ok:
  assumes core: "kcore kd A k Q {}"
  shows "\<exists>k' Q'. chThdResumeI r m k = Inr k' \<and> after_I kd A k Q k' Q'"
proof (cases "tref k r")
  case None
  then show ?thesis using after_I_refl [OF core] by (auto simp: chThdResumeI_def)
next
  case (Some t)
  note lr = leave_ref [OF core Some]
  let ?k = "k\<lparr>tref := (tref k)(r := None)\<rparr>"
  have st: "kstate ?k t \<notin> {CH_STATE_READY, CH_STATE_FINAL}" using lr(3) by simp
  obtain k' where k': "chSchReadyI t (set_u t (U_msg m) ?k) = Inr k'"
      "kcore kd A k' (Q(RL := insert_after (\<lambda>x. prio ?k t \<le> prio ?k x) t (Q RL))) {}" "same_objects ?k k'" "currp k' = currp k" "ctx k' = ctx k"
    using wake_I [OF lr(1,2) st] by auto
  have "h \<noteq> RL" if "kd h = KMtx" for h using that kglobD(3) [OF kcore_glob [OF core], of RL] by auto
  then have "after_I kd A k Q k' (Q(RL := insert_after (\<lambda>x. prio ?k t \<le> prio ?k x) t (Q RL)))"
    using k' by (simp add: after_I_def same_objects_def same_mtx_def)
  then show ?thesis using Some lr(3) k'(1) by (auto simp: chThdResumeI_def)
qed

lemma chThdResumeS_ok:
  assumes core: "kcore kd A k Q {}" and tm: "timers_ok A k" and top: "top_prio k Q" and run: "ctx k (currp k) = []"
  shows "\<exists>k'. chThdResumeS r m k = Inr k' \<and> after_S kd k Q k'"
proof (cases "tref k r")
  case None
  then show ?thesis using core tm top by (auto simp: chThdResumeS_def after_S_def)
next
  case (Some t)
  note lr = leave_ref [OF core Some]
  let ?k = "k\<lparr>tref := (tref k)(r := None)\<rparr>"
  have p: "kstate ?k t \<notin> {CH_STATE_READY, CH_STATE_FINAL}" "ctx ?k (currp ?k) = []" "top_prio ?k Q" using lr(3) run top by (simp_all add: top_prio_def)
  obtain k' Q' where w: "chSchWakeupS t m ?k = Inr k'" "kcore kd A k' Q' {}" "top_prio k' Q'" "same_objects ?k k'" "\<forall>h. h \<noteq> RL \<longrightarrow> Q' h = Q h"
    using chSchWakeupS_ok [OF lr(1,2) p] by blast
  have "h \<noteq> RL" if "kd h = KMtx" for h using that kglobD(3) [OF kcore_glob [OF core], of RL] by auto
  then have "\<forall>h. kd h = KMtx \<longrightarrow> Q' h = Q h" using w(5) by simp
  moreover have "same_mtx k k'" "timers_ok A k'" using w(4) tm run wakeupS_ctx [OF _ w(1)] by (simp_all add: same_objects_def same_mtx_def timers_ok_def)
  ultimately have "after_S kd k Q k'" using w(2,3) unfolding after_S_def by blast
  then show ?thesis using Some lr(3) w(1) by (auto simp: chThdResumeS_def)
qed

lemma chThdStart_ok:
  assumes core: "kcore kd A k Q {}" and tm: "timers_ok A k" and top: "top_prio k Q" and run: "ctx k (currp k) = []"
    and t: "thread kd t" "kstate k t = CH_STATE_WTSTART"
  shows "\<exists>k'. chThdStart t k = Inr k' \<and> after_S kd k Q k'"
proof -
  have nq: "\<not> in_queue (kstate k t)" "kstate k t \<notin> {CH_STATE_CURRENT, CH_STATE_SUSPENDED, CH_STATE_FINAL}" using t(2) by (simp_all add: in_queue_def)
  note ls = leave_sleep [OF core t(1) nq]
  have c: "kcore kd A k Q {t}" using kcore_mono [OF core] by simp
  obtain k' Q' where w: "chSchWakeupS t MSG_OK k = Inr k'" "kcore kd A k' Q' {}" "top_prio k' Q'" "same_objects k k'" "\<forall>h. h \<noteq> RL \<longrightarrow> Q' h = Q h"
    using chSchWakeupS_ok [OF c ls(1,2) run top] by blast
  have "h \<noteq> RL" if "kd h = KMtx" for h using that kglobD(3) [OF kcore_glob [OF core], of RL] by auto
  then have "\<forall>h. kd h = KMtx \<longrightarrow> Q' h = Q h" using w(5) by simp
  moreover have "same_mtx k k'" "timers_ok A k'" using w(4) tm run wakeupS_ctx [OF _ w(1)] by (simp_all add: same_objects_def same_mtx_def timers_ok_def)
  ultimately show ?thesis using t(2) w(1-3) unfolding after_S_def by (auto simp: chThdStart_def)
qed

lemma chThdYield_ok:
  assumes core: "kcore kd A k Q {}" and tm: "timers_ok A k" and top: "top_prio k Q" and run: "ctx k (currp k) = []"
  shows "\<exists>k'. chThdYield k = Inr k' \<and> after_S kd k Q k'"
proof -
  obtain k' Q' where w: "chSchDoYieldS k = Inr k'" "kcore kd A k' Q' {}" "top_prio k' Q'" "same_objects k k'" "\<forall>h. h \<noteq> RL \<longrightarrow> Q' h = Q h"
    using chSchDoYieldS_ok [OF core run top] by blast
  have "h \<noteq> RL" if "kd h = KMtx" for h using that kglobD(3) [OF kcore_glob [OF core], of RL] by auto
  then have "\<forall>h. kd h = KMtx \<longrightarrow> Q' h = Q h" using w(5) by simp
  moreover have "same_mtx k k'" "timers_ok A k'" using w(4) tm run resched_ctx(2) [OF run w(1)] by (simp_all add: same_objects_def same_mtx_def timers_ok_def)
  ultimately show ?thesis using w(1-3) unfolding after_S_def by (auto simp: chThdYield_def)
qed

section \<open>Plain queues\<close>

lemma chThdEnqueueTimeoutS_ok:
  assumes core: "kcore kd A k Q {}" and tm: "timers_ok A k" and run: "ctx k (currp k) = []" and idle: "currp k \<noteq> IDLE" and top: "top_prio k Q"
    and q: "kd q = KQueue" and fs: "round_frame fs"
  shows "\<exists>m k'. chThdEnqueueTimeoutS fs q timeout now k = Inr (m, k') \<and> after_S kd k Q k' \<and> (m = Some MSG_TIMEOUT \<longrightarrow> k' = k) \<and>
    (m \<noteq> None \<longrightarrow> m = Some MSG_TIMEOUT)"
proof (cases "timeout = 0")
  case True
  then show ?thesis using core tm top by (auto simp: chThdEnqueueTimeoutS_def TIME_IMMEDIATE_def after_S_def)
next
  case False
  note glob = kcore_glob [OF core] note g = kglobD [OF glob]
  have h: "q \<noteq> RL" "hdr kd q" using q g(3) [of q] by (auto simp: hdr_def)
  let ?Q = "Q(q := Q q @ [currp k])" let ?k = "k\<lparr>ql := queue_insert (currp k) q (ql k)\<rparr>"
  have qu: "queues (queue_insert (currp k) q (ql k)) {h. hdr kd h} ?Q"
    using queues_insert [OF g(1), of q "currp k"] curr_loose(1) [OF core] h by simp
  have "kcore kd A (k\<lparr>ql := queue_insert (currp k) q (ql k), cnt := cnt k\<rparr>) ?Q (insert (currp k) {})"
    by (rule kcore_insert [OF core h g(5) qu]) (use g(9) q in auto)
  then have c: "kcore kd A ?k ?Q {currp k}" by simp
  have "\<exists>k'. chSchGoSleepTimeoutS fs CH_STATE_QUEUED timeout now ?k = Inr k' \<and> after_S kd k Q k'"
  proof (rule block_ok(2) [OF core tm run idle c])
    show "lives (kd h) (set_state (currp k) CH_STATE_QUEUED ?k) h (currp k)" if "hdr kd h" "currp k \<in> set (?Q h)" for h
      using that curr_not_queued [OF core that(1)] q by (cases "h = q") auto
    show "\<exists>h. hdr kd h \<and> currp k \<in> set (?Q h)" using h(2) by (intro exI [of _ q]) simp
    show "?Q h = Q h" if "kd h = KMtx" for h using that q by auto
  qed (use False fs curr_idle(2) [OF core _ run] in \<open>simp_all add: state_defs same_mtx_def\<close>)
  then show ?thesis using False by (auto simp: chThdEnqueueTimeoutS_def TIME_IMMEDIATE_def)
qed

lemma dequeue_next_ok:
  assumes core: "kcore kd A k Q {}" and q: "kd q = KQueue" "Q q = t # qs"
  shows "\<exists>k' Q'. chThdDoDequeueNextI q m k = Inr k' \<and> after_I kd A k Q k' Q' \<and> Q' q = qs \<and> tu k' t = U_msg m \<and>
    (\<forall>h. h \<noteq> RL \<longrightarrow> h \<noteq> q \<longrightarrow> Q' h = Q h)"
proof -
  note glob = kcore_glob [OF core] note g = kglobD [OF glob]
  have h: "q \<noteq> RL" "hdr kd q" using q(1) g(3) [of q] by (auto simp: hdr_def)
  have th: "thread kd t" using g(2) [OF h(2)] q(2) by simp
  have "tok kd A k Q t" by (rule kcore_tok [OF core th]) simp
  then have "lives (kd q) k q t" using h(2) q(2) by (simp add: tok_def)
  then have st: "kstate k t = CH_STATE_QUEUED" using q(1) by simp
  have iq: "is_queue (ql k) q (Q q)" using queuesD [OF g(1), of q] h by simp
  have ne: "queue_notempty q (ql k)" using queue_notempty_iff [OF iq] q(2) by simp
  have fi: "queue_fifo_remove q (ql k) = (t, queue_dequeue t (ql k))" using queues_fifo(1) [OF g(1) _ q(2)] h by simp
  have rm: "remove1 t (Q q) = qs" "t \<in> set (Q q)" using q(2) by simp_all
  have sem: "sem_ok (cnt k s) ((Q(q := remove1 t (Q q))) s)" if "kd s = KSem" for s using g(9) [OF that] q(1) that by auto
  note lq = leave_queue [OF core h(2,1) rm(2), of "cnt k", OF sem, unfolded rm(1)]
  have eq: "k\<lparr>ql := queue_dequeue t (ql k), cnt := cnt k\<rparr> = k\<lparr>ql := queue_dequeue t (ql k)\<rparr>" by simp
  let ?k = "k\<lparr>ql := queue_dequeue t (ql k)\<rparr>"
  have st': "kstate ?k t \<notin> {CH_STATE_READY, CH_STATE_FINAL}" using st by simp
  let ?Q = "(Q(q := qs))(RL := insert_after (\<lambda>x. prio k t \<le> prio k x) t (Q RL))"
  obtain k' where k': "chSchReadyI t (set_u t (U_msg m) ?k) = Inr k'" "kcore kd A k' ?Q {}" "same_objects ?k k'" "currp k' = currp k" "ctx k' = ctx k"
    using wake_I [OF lq(1,2) [unfolded eq] st', of m] h(1) by auto
  have "i \<noteq> RL \<and> i \<noteq> q" if "kd i = KMtx" for i using that q(1) g(3) [of RL] by auto
  then have "after_I kd A k Q k' ?Q" using k' by (simp add: after_I_def same_objects_def same_mtx_def)
  moreover have "chThdDoDequeueNextI q m k = Inr k'" using ne fi st k'(1) by (simp add: chThdDoDequeueNextI_def)
  moreover have "tu k' t = U_msg m" using k'(1) by (auto simp: chSchReadyI_def Let_def rbind_Inr)
  ultimately show ?thesis using h(1) by (intro exI [of _ k'] exI [of _ ?Q]) simp
qed

lemma queue_notempty_Q:
  assumes "kcore kd A k Q X" "hdr kd q"
  shows "queue_notempty q (ql k) \<longleftrightarrow> Q q \<noteq> []"
  using queue_notempty_iff queuesD [OF kglobD(1) [OF kcore_glob [OF assms(1)]], of q] assms(2) by auto

lemma chThdDequeueNextI_ok:
  assumes core: "kcore kd A k Q {}" and q: "kd q = KQueue"
  shows "\<exists>k' Q'. chThdDequeueNextI q m k = Inr k' \<and> after_I kd A k Q k' Q'"
proof (cases "Q q")
  case Nil
  have "hdr kd q" using q by (simp add: hdr_def)
  then show ?thesis using queue_notempty_Q [OF core] Nil after_I_refl [OF core] by (auto simp: chThdDequeueNextI_def)
next
  case (Cons t qs)
  have "hdr kd q" using q by (simp add: hdr_def)
  then show ?thesis using queue_notempty_Q [OF core] Cons dequeue_next_ok [OF core q Cons, of m] by (auto simp: chThdDequeueNextI_def)
qed

lemma chThdDequeueAllI_ok:
  assumes "kcore kd A k Q {}" and q: "kd q = KQueue"
  shows "\<exists>k' Q'. chThdDequeueAllI q m k = Inr k' \<and> after_I kd A k Q k' Q' \<and> Q' q = [] \<and> (\<forall>h. h \<noteq> RL \<longrightarrow> h \<noteq> q \<longrightarrow> Q' h = Q h)"
proof -
  have h: "hdr kd q" using q by (simp add: hdr_def)
  have "\<exists>k' Q'. dequeue_all q m k = Some (Inr k') \<and> after_I kd A k Q k' Q' \<and> Q' q = [] \<and> (\<forall>h. h \<noteq> RL \<longrightarrow> h \<noteq> q \<longrightarrow> Q' h = Q h)"
    using assms(1)
  proof (induction "Q q" arbitrary: k Q)
    case Nil
    then have "dequeue_all q m k = Some (Inr k)" using queue_notempty_Q [OF Nil(2) h] by (simp add: dequeue_all.simps [of q m k])
    then show ?case using Nil after_I_refl [OF Nil(2)] by (intro exI [of _ k] exI [of _ Q]) simp
  next
    case (Cons t qs)
    obtain k1 Q1 where d: "chThdDoDequeueNextI q m k = Inr k1" "after_I kd A k Q k1 Q1" "Q1 q = qs" "\<forall>h. h \<noteq> RL \<longrightarrow> h \<noteq> q \<longrightarrow> Q1 h = Q h"
      using dequeue_next_ok [OF Cons.prems q Cons.hyps(2) [symmetric], of m] by blast
    have "kcore kd A k1 Q1 {}" using d(2) by (simp add: after_I_def)
    from Cons.hyps(1) [OF d(3) [symmetric] this] obtain k' Q' where r: "dequeue_all q m k1 = Some (Inr k')" "after_I kd A k1 Q1 k' Q'" "Q' q = []"
        "\<forall>h. h \<noteq> RL \<longrightarrow> h \<noteq> q \<longrightarrow> Q' h = Q1 h" by blast
    have "queue_notempty q (ql k)" using queue_notempty_Q [OF Cons.prems h] Cons.hyps(2) by (metis list.distinct(1))
    then have "dequeue_all q m k = Some (Inr k')" using d(1) r(1) by (simp add: dequeue_all.simps [of q m k])
    then show ?case using after_I_trans [OF d(2) r(2)] r(3,4) d(4) by (intro exI [of _ k'] exI [of _ Q']) simp
  qed
  then show ?thesis by (auto simp: chThdDequeueAllI_def)
qed

end
