(* ===== verification/KSystem.thy ===== *)
theory KSystem
  imports KThread
begin

text \<open>
  The state in which a thread may call the kernel, and a small system of threads and objects in such a state, at which the properties of
  the kernel are evaluated.
\<close>

section \<open>A thread that may call the kernel\<close>

text \<open>The running thread has nothing left to do in an earlier operation, and it is not the idle thread, which never sleeps.\<close>

definition runs :: "(node \<Rightarrow> kind) \<Rightarrow> kernel \<Rightarrow> bool" where
  "runs kd k \<longleftrightarrow> kernel_ok kd k \<and> ctx k (currp k) = [] \<and> currp k \<noteq> IDLE"

lemma runsE:
  assumes "runs kd k"
  obtains A Q M where "kcore kd A k Q {}" "timers_ok A k" "top_prio k Q" "ctx k (currp k) = []" "currp k \<noteq> IDLE" "mtx_inv kd k Q M"
  using assms by (auto simp: runs_def kernel_ok_def)

text \<open>
  The state inside a critical section or an interrupt handler: consistent but for the order of priorities, which a call of the
  scheduler restores.
\<close>

definition unscheduled :: "(node \<Rightarrow> kind) \<Rightarrow> kernel \<Rightarrow> bool" where
  "unscheduled kd k \<longleftrightarrow> (\<exists>A Q M. kcore kd A k Q {} \<and> timers_ok A k \<and> mtx_inv kd k Q M) \<and> ctx k (currp k) = []"

lemma runs_unscheduled: "runs kd k \<Longrightarrow> unscheduled kd k"
  unfolding runs_def kernel_ok_def unscheduled_def by blast

lemma reschedule_unscheduled:
  assumes "unscheduled kd k"
  shows "\<exists>k'. chSchRescheduleS k = Inr k' \<and> kernel_ok kd k' \<and> same_objects k k' \<and> tu k' = tu k"
proof -
  obtain A Q M where u: "kcore kd A k Q {}" "timers_ok A k" "mtx_inv kd k Q M" "ctx k (currp k) = []" using assms by (auto simp: unscheduled_def)
  obtain k' Q' where r: "chSchRescheduleS k = Inr k'" "kcore kd A k' Q' {}" "top_prio k' Q'" "same_objects k k'" "tu k' = tu k" "\<forall>h. h \<noteq> RL \<longrightarrow> Q' h = Q h"
    using chSchRescheduleS_ok [OF u(1,4)] by blast
  have "same_mtx k k'" using same_objects_mtx [OF r(4)] resched_ctx(1) [OF u(4) r(1)] by simp
  moreover have "h \<noteq> RL" if "kd h = KMtx" for h using that kglobD(3) [OF kcore_glob [OF u(1)], of RL] by auto
  then have "\<forall>h. kd h = KMtx \<longrightarrow> Q' h = Q h" using r(6) by simp
  ultimately have "mtx_inv kd k' Q' M" by (rule mtx_inv_same [OF u(3)])
  moreover have "timers_ok A k'" using u(2) same_objectsD(2) [OF r(4)] by (simp add: timers_ok_def)
  ultimately show ?thesis using r unfolding kernel_ok_def by blast
qed

text \<open>
  A small system: the idle thread 1, the running thread 2, a ready thread 7 of lower priority, the queues 3 and 4, the semaphore 5, the mutex 6
  and a thread 8 that waits on the semaphore.
\<close>

definition ex_kd :: "node \<Rightarrow> kind" where
  "ex_kd = (\<lambda>_. KNone)(0 := KReady, 1 := KThread, 2 := KThread, 3 := KQueue, 4 := KQueue, 5 := KSem, 6 := KMtx, 7 := KThread, 8 := KThread)"

definition ex_Q :: "node \<Rightarrow> node list" where
  "ex_Q = (\<lambda>_. [])(0 := [7, 1], 5 := [8])"

definition ex_kernel :: kernel where
  "ex_kernel =
     \<lparr>ql = \<lparr>qnext = id(0 := 7, 7 := 1, 1 := 0, 5 := 8, 8 := 5), qprev = id(0 := 1, 1 := 7, 7 := 0, 5 := 8, 8 := 5)\<rparr>,
      prio = (\<lambda>_. 0)(1 := 1, 2 := 128, 7 := 64, 8 := 200), realprio = (\<lambda>_. 0)(1 := 1, 2 := 128, 7 := 64, 8 := 200),
      kstate = (\<lambda>_. CH_STATE_WTSTART)(1 := CH_STATE_READY, 2 := CH_STATE_CURRENT, 7 := CH_STATE_READY, 8 := CH_STATE_WTSEM),
      tu = (\<lambda>_. U_msg 0)(8 := U_obj 5), ctx = (\<lambda>_. [])(8 := [F_msg]), currp = 2, cnt = (\<lambda>_. 0)(5 := -1),
      tref = (\<lambda>_. None), mtxlist = (\<lambda>_. None), m_owner = (\<lambda>_. None), m_next = (\<lambda>_. None),
      vtl = \<lparr>vlinks = \<lparr>qnext = id, qprev = id\<rparr>, delta = (\<lambda>_. 0)(0 := -1), vfunc = (\<lambda>_. None), lasttime = 0, alarm = None\<rparr>\<rparr>"

lemma ex_thread: "thread ex_kd t \<longleftrightarrow> t \<in> {1, 2, 7, 8}"
  by (auto simp: thread_def ex_kd_def)

lemma ex_hdr: "hdr ex_kd h \<longleftrightarrow> h \<in> {0, 3, 4, 5, 6}"
  by (auto simp: hdr_def ex_kd_def)

lemma ex_queues: "queues (ql ex_kernel) {h. hdr ex_kd h} ex_Q"
  unfolding queues_def ex_hdr by (simp add: ex_Q_def ex_kernel_def is_queue_def members_def)

lemma ex_core: "kcore ex_kd {} ex_kernel ex_Q {}"
proof (rule kcoreI)
  have kr: "ex_kd h = KReady \<longleftrightarrow> h = RL" "ex_kd h = KSem \<longleftrightarrow> h = 5" for h by (auto simp: ex_kd_def RL_def)
  show "kglob ex_kd {} ex_kernel ex_Q"
    unfolding kglob_def kr
    by (intro conjI ex_queues) (auto simp: ex_thread ex_hdr IDLE_def RL_def ex_Q_def by_prio_def sem_ok_def ex_kernel_def split: if_splits)
  show "tok ex_kd {} ex_kernel ex_Q t" if "thread ex_kd t" "t \<notin> {}" for t
    using that unfolding tok_def ex_thread ex_hdr
    by (auto simp: ex_kernel_def ex_Q_def ex_kd_def IDLE_def state_defs intro: exI [of _ 0])
qed

lemma ex_timers: "timers_ok {} ex_kernel"
  by (auto simp: timers_ok_def ex_kernel_def vt_ok_def is_queue_def VTL_def)

lemma ex_mtx: "mtx_inv ex_kd ex_kernel ex_Q (\<lambda>_. [])"
  unfolding mtx_inv_def mtx_struct_def ex_thread
  by (auto simp: ex_kd_def ex_kernel_def ex_Q_def by_prio_def inherits_def mframe_def IDLE_def)

lemma ex_runs: "runs ex_kd ex_kernel"
proof -
  have "top_prio ex_kernel ex_Q" by (simp add: top_prio_def ex_kernel_def ex_Q_def RL_def)
  moreover have "ctx ex_kernel (currp ex_kernel) = []" "currp ex_kernel \<noteq> IDLE" by (simp_all add: ex_kernel_def IDLE_def)
  ultimately show ?thesis using ex_core ex_timers ex_mtx unfolding runs_def kernel_ok_def by blast
qed

end
