(* ===== verification/KMbox.thy ===== *)
theory KMbox
  imports KSystem Fifo
begin

text \<open>
  Mailboxes (\<^verbatim>\<open>os/common/oslib/src/chmboxes.c\<close>, \<^verbatim>\<open>chmboxes.h\<close>): a circular buffer of messages and two queues of threads, one of
  writers that wait for space and one of readers that wait for messages. The pointers of the structure are indices of
  the buffer. The buffer is an instance of the bounded first-in first-out contract.
\<close>

section \<open>The buffer\<close>

record mailbox =
  mb_buffer :: "msg list"
  mb_wrptr :: nat
  mb_rdptr :: nat
  mb_cnt :: nat
  mb_reset :: bool
  mb_qw :: node
  mb_qr :: node

definition chMBGetSizeI :: "mailbox \<Rightarrow> nat" where
  "chMBGetSizeI b = length (mb_buffer b)"

definition chMBGetUsedCountI :: "mailbox \<Rightarrow> nat" where
  "chMBGetUsedCountI b = mb_cnt b"

definition chMBGetFreeCountI :: "mailbox \<Rightarrow> nat" where
  "chMBGetFreeCountI b = chMBGetSizeI b - chMBGetUsedCountI b"

text \<open>Storing behind the last message, storing ahead of the first, and taking the first message.\<close>

definition mb_post :: "msg \<Rightarrow> mailbox \<Rightarrow> mailbox" where
  "mb_post msg b =
     (let buf = (mb_buffer b)[mb_wrptr b := msg]; w = mb_wrptr b + 1; w = (if w \<ge> chMBGetSizeI b then 0 else w)
      in b\<lparr>mb_buffer := buf, mb_wrptr := w, mb_cnt := mb_cnt b + 1\<rparr>)"

definition mb_post_ahead :: "msg \<Rightarrow> mailbox \<Rightarrow> mailbox" where
  "mb_post_ahead msg b =
     (let r = (if mb_rdptr b = 0 then chMBGetSizeI b - 1 else mb_rdptr b - 1)
      in b\<lparr>mb_rdptr := r, mb_buffer := (mb_buffer b)[r := msg], mb_cnt := mb_cnt b + 1\<rparr>)"

definition chMBPeekI :: "mailbox \<Rightarrow> msg" where
  "chMBPeekI b = mb_buffer b ! mb_rdptr b"

definition mb_fetch :: "mailbox \<Rightarrow> msg \<times> mailbox" where
  "mb_fetch b =
     (let msg = mb_buffer b ! mb_rdptr b; r = mb_rdptr b + 1; r = (if r \<ge> chMBGetSizeI b then 0 else r)
      in (msg, b\<lparr>mb_rdptr := r, mb_cnt := mb_cnt b - 1\<rparr>))"

definition chMBResumeX :: "mailbox \<Rightarrow> mailbox" where
  "chMBResumeX b = b\<lparr>mb_reset := False\<rparr>"

section \<open>Operations\<close>

definition chMBObjectInit :: "msg list \<Rightarrow> node \<Rightarrow> node \<Rightarrow> kernel \<Rightarrow> (mailbox \<times> kernel) result" where
  "chMBObjectInit buf qw qr k =
     rbind (assert_or_halt (length buf > 0)) (\<lambda>_.
       Inr (\<lparr>mb_buffer = buf, mb_wrptr = 0, mb_rdptr = 0, mb_cnt = 0, mb_reset = False, mb_qw = qw, mb_qr = qr\<rparr>,
            chThdQueueObjectInit qr (chThdQueueObjectInit qw k)))"

definition chMBResetI :: "mailbox \<Rightarrow> kernel \<Rightarrow> (mailbox \<times> kernel) result" where
  "chMBResetI b k =
     (let b = b\<lparr>mb_wrptr := 0, mb_rdptr := 0, mb_cnt := 0, mb_reset := True\<rparr> in
      rbind (chThdDequeueAllI (mb_qw b) MSG_RESET k) (\<lambda>k.
      rbind (chThdDequeueAllI (mb_qr b) MSG_RESET k) (\<lambda>k. Inr (b, k))))"

definition chMBReset :: "mailbox \<Rightarrow> kernel \<Rightarrow> (mailbox \<times> kernel) result" where
  "chMBReset b k = rbind (chMBResetI b k) (\<lambda>(b, k). rbind (chSchRescheduleS k) (\<lambda>k. Inr (b, k)))"

text \<open>An access behind the end of the buffer is a fault.\<close>

definition in_buffer :: "nat \<Rightarrow> mailbox \<Rightarrow> unit result" where
  "in_buffer i b = (if i < length (mb_buffer b) then Inr () else Inl Overrun)"

definition chMBPostI :: "msg \<Rightarrow> mailbox \<Rightarrow> kernel \<Rightarrow> (msg \<times> mailbox \<times> kernel) result" where
  "chMBPostI msg b k =
     (if mb_reset b then Inr (MSG_RESET, b, k)
      else if chMBGetFreeCountI b > 0 then
        rbind (in_buffer (mb_wrptr b) b) (\<lambda>_. let b = mb_post msg b in
        rbind (chThdDequeueNextI (mb_qr b) MSG_OK k) (\<lambda>k. Inr (MSG_OK, b, k)))
      else Inr (MSG_TIMEOUT, b, k))"

definition chMBPostAheadI :: "msg \<Rightarrow> mailbox \<Rightarrow> kernel \<Rightarrow> (msg \<times> mailbox \<times> kernel) result" where
  "chMBPostAheadI msg b k =
     (if mb_reset b then Inr (MSG_RESET, b, k)
      else if chMBGetFreeCountI b > 0 then
        let b = mb_post_ahead msg b in
        rbind (in_buffer (mb_rdptr b) b) (\<lambda>_.
        rbind (chThdDequeueNextI (mb_qr b) MSG_OK k) (\<lambda>k. Inr (MSG_OK, b, k)))
      else Inr (MSG_TIMEOUT, b, k))"

definition chMBFetchI :: "mailbox \<Rightarrow> kernel \<Rightarrow> (msg \<times> msg option \<times> mailbox \<times> kernel) result" where
  "chMBFetchI b k =
     (if mb_reset b then Inr (MSG_RESET, None, b, k)
      else if chMBGetUsedCountI b > 0 then
        rbind (in_buffer (mb_rdptr b) b) (\<lambda>_. let (msg, b) = mb_fetch b in
        rbind (chThdDequeueNextI (mb_qw b) MSG_OK k) (\<lambda>k. Inr (MSG_OK, Some msg, b, k)))
      else Inr (MSG_TIMEOUT, None, b, k))"

text \<open>
  The loops of the operations that wait. One round either returns a message code or puts the thread to sleep, with a frame that
  names the loop; \<open>mbp\<close> is the name of the mailbox. The round is repeated when the thread runs again with
  \<open>MSG_OK\<close>.
\<close>

definition chMBPostTimeoutS :: "node \<Rightarrow> msg \<Rightarrow> sysinterval \<Rightarrow> systime \<Rightarrow> mailbox \<Rightarrow> kernel \<Rightarrow> (msg option \<times> mailbox \<times> kernel) result" where
  "chMBPostTimeoutS mbp msg timeout now b k =
     (if mb_reset b then Inr (Some MSG_RESET, b, k)
      else if chMBGetFreeCountI b > 0 then
        rbind (in_buffer (mb_wrptr b) b) (\<lambda>_. let b = mb_post msg b in
        rbind (chThdDequeueNextI (mb_qr b) MSG_OK k) (\<lambda>k. rbind (chSchRescheduleS k) (\<lambda>k. Inr (Some MSG_OK, b, k))))
      else rbind (chThdEnqueueTimeoutS [F_post mbp msg timeout] (mb_qw b) timeout now k) (\<lambda>(m, k). Inr (m, b, k)))"

definition chMBPostAheadTimeoutS :: "node \<Rightarrow> msg \<Rightarrow> sysinterval \<Rightarrow> systime \<Rightarrow> mailbox \<Rightarrow> kernel \<Rightarrow> (msg option \<times> mailbox \<times> kernel) result" where
  "chMBPostAheadTimeoutS mbp msg timeout now b k =
     (if mb_reset b then Inr (Some MSG_RESET, b, k)
      else if chMBGetFreeCountI b > 0 then
        let b = mb_post_ahead msg b in
        rbind (in_buffer (mb_rdptr b) b) (\<lambda>_.
        rbind (chThdDequeueNextI (mb_qr b) MSG_OK k) (\<lambda>k. rbind (chSchRescheduleS k) (\<lambda>k. Inr (Some MSG_OK, b, k))))
      else rbind (chThdEnqueueTimeoutS [F_post_ahead mbp msg timeout] (mb_qw b) timeout now k) (\<lambda>(m, k). Inr (m, b, k)))"

definition chMBFetchTimeoutS :: "node \<Rightarrow> sysinterval \<Rightarrow> systime \<Rightarrow> mailbox \<Rightarrow> kernel \<Rightarrow> (msg option \<times> msg option \<times> mailbox \<times> kernel) result" where
  "chMBFetchTimeoutS mbp timeout now b k =
     (if mb_reset b then Inr (Some MSG_RESET, None, b, k)
      else if chMBGetUsedCountI b > 0 then
        rbind (in_buffer (mb_rdptr b) b) (\<lambda>_. let (msg, b) = mb_fetch b in
        rbind (chThdDequeueNextI (mb_qw b) MSG_OK k) (\<lambda>k. rbind (chSchRescheduleS k) (\<lambda>k. Inr (Some MSG_OK, Some msg, b, k))))
      else rbind (chThdEnqueueTimeoutS [F_fetch mbp timeout] (mb_qr b) timeout now k) (\<lambda>(m, k). Inr (m, None, b, k)))"

definition chMBPostTimeout :: "node \<Rightarrow> msg \<Rightarrow> sysinterval \<Rightarrow> systime \<Rightarrow> mailbox \<Rightarrow> kernel \<Rightarrow> (msg option \<times> mailbox \<times> kernel) result" where
  "chMBPostTimeout mbp msg timeout now b k = chMBPostTimeoutS mbp msg timeout now b k"

definition chMBPostAheadTimeout :: "node \<Rightarrow> msg \<Rightarrow> sysinterval \<Rightarrow> systime \<Rightarrow> mailbox \<Rightarrow> kernel \<Rightarrow> (msg option \<times> mailbox \<times> kernel) result" where
  "chMBPostAheadTimeout mbp msg timeout now b k = chMBPostAheadTimeoutS mbp msg timeout now b k"

definition chMBFetchTimeout :: "node \<Rightarrow> sysinterval \<Rightarrow> systime \<Rightarrow> mailbox \<Rightarrow> kernel \<Rightarrow> (msg option \<times> msg option \<times> mailbox \<times> kernel) result" where
  "chMBFetchTimeout mbp timeout now b k = chMBFetchTimeoutS mbp timeout now b k"

section \<open>The buffer is a queue\<close>

definition mb_inv :: "mailbox \<Rightarrow> bool" where
  "mb_inv b \<longleftrightarrow> mb_rdptr b < chMBGetSizeI b \<and> mb_cnt b \<le> chMBGetSizeI b \<and> mb_wrptr b = (mb_rdptr b + mb_cnt b) mod chMBGetSizeI b"

definition mb_view :: "mailbox \<Rightarrow> msg list" where
  "mb_view b = map (\<lambda>i. mb_buffer b ! ((mb_rdptr b + i) mod chMBGetSizeI b)) [0..<mb_cnt b]"

lemma wrap_next: "r < n \<Longrightarrow> (if n \<le> Suc r then 0 else Suc r) = Suc r mod n"
  by (cases "Suc r = n") auto

lemma mod_add_inj:
  assumes "i < n" "j < n" "(r + i) mod n = (r + j) mod (n :: nat)"
  shows "i = j"
proof (rule ccontr)
  assume ne: "i \<noteq> j"
  have "int (r + i) mod int n = int (r + j) mod int n" using assms(3) by (metis of_nat_mod)
  then have "int n dvd int i - int j" using mod_eq_dvd_iff [of "int (r + i)" "int n" "int (r + j)"] by simp
  then have "int n \<le> \<bar>int i - int j\<bar>" using dvd_imp_le_int [of "int i - int j" "int n"] ne by simp
  then show False using assms(1,2) by linarith
qed

lemma mb_size_pos: "mb_inv b \<Longrightarrow> 0 < length (mb_buffer b)"
  by (auto simp: mb_inv_def chMBGetSizeI_def)

lemma mb_wr: "mb_inv b \<Longrightarrow> mb_wrptr b < length (mb_buffer b)" "mb_inv b \<Longrightarrow> mb_rdptr b < length (mb_buffer b)"
  using mb_size_pos [of b] by (auto simp: mb_inv_def chMBGetSizeI_def)

lemma mb_post_inv:
  assumes "mb_inv b" "mb_cnt b < chMBGetSizeI b"
  shows "mb_inv (mb_post x b)"
  using assms wrap_next [OF mb_wr(1) [OF assms(1)]] by (auto simp: mb_inv_def mb_post_def Let_def chMBGetSizeI_def mod_Suc_eq)

lemma mb_post_view:
  assumes "mb_inv b" "mb_cnt b < chMBGetSizeI b"
  shows "mb_view (mb_post x b) = mb_view b @ [x]"
proof -
  let ?n = "length (mb_buffer b)" let ?w = "(mb_rdptr b + mb_cnt b) mod ?n"
  have w: "mb_wrptr b = ?w" "?w < ?n" using assms(1) mb_size_pos [OF assms(1)] by (auto simp: mb_inv_def chMBGetSizeI_def)
  have "(mb_rdptr b + i) mod ?n \<noteq> ?w" if "i < mb_cnt b" for i
    using mod_add_inj [of i ?n "mb_cnt b" "mb_rdptr b"] that assms(2) by (auto simp: chMBGetSizeI_def)
  then have "(mb_buffer b)[?w := x] ! ((mb_rdptr b + i) mod ?n) = mb_buffer b ! ((mb_rdptr b + i) mod ?n)" if "i < mb_cnt b" for i
    using that by (metis nth_list_update_neq)
  then show ?thesis using w by (simp add: mb_view_def mb_post_def Let_def chMBGetSizeI_def)
qed

lemma mb_fetch_eq:
  assumes "mb_inv b"
  shows "mb_fetch b = (mb_buffer b ! mb_rdptr b, b\<lparr>mb_rdptr := Suc (mb_rdptr b) mod length (mb_buffer b), mb_cnt := mb_cnt b - 1\<rparr>)"
  using wrap_next [OF mb_wr(2) [OF assms]] by (simp add: mb_fetch_def Let_def chMBGetSizeI_def split del: if_split)

lemma mb_fetch_inv:
  assumes "mb_inv b" "mb_view b \<noteq> []"
  shows "mb_inv (snd (mb_fetch b))"
proof -
  let ?n = "length (mb_buffer b)"
  obtain c where c: "mb_cnt b = Suc c" using assms(2) by (cases "mb_cnt b") (auto simp: mb_view_def)
  have "(Suc (mb_rdptr b) mod ?n + c) mod ?n = (mb_rdptr b + Suc c) mod ?n" by (simp add: mod_add_left_eq)
  then show ?thesis using assms(1) mb_size_pos [OF assms(1)] c by (simp add: mb_fetch_eq mb_inv_def chMBGetSizeI_def)
qed

lemma mb_fetch_view:
  assumes "mb_inv b" "mb_view b \<noteq> []"
  shows "mb_view b = fst (mb_fetch b) # mb_view (snd (mb_fetch b))"
proof -
  let ?n = "length (mb_buffer b)"
  obtain c where c: "mb_cnt b = Suc c" using assms(2) by (cases "mb_cnt b") (auto simp: mb_view_def)
  have "[0..<Suc c] = 0 # map Suc [0..<c]" by (simp add: map_Suc_upt upt_conv_Cons del: upt_Suc)
  then have "mb_view b = mb_buffer b ! (mb_rdptr b mod ?n) # map (\<lambda>i. mb_buffer b ! ((mb_rdptr b + Suc i) mod ?n)) [0..<c]"
    by (simp add: mb_view_def c chMBGetSizeI_def del: upt_Suc)
  moreover have "(Suc (mb_rdptr b) mod ?n + i) mod ?n = (mb_rdptr b + Suc i) mod ?n" for i by (simp add: mod_add_left_eq)
  ultimately show ?thesis using mb_wr(2) [OF assms(1)] by (simp add: mb_fetch_eq [OF assms(1)] mb_view_def c chMBGetSizeI_def del: upt_Suc)
qed

interpretation mbq: fifo mb_inv mb_view chMBGetSizeI mb_post mb_fetch
proof
  show "mb_inv (mb_post x s)" if "mb_inv s" "length (mb_view s) < chMBGetSizeI s" for s x
    using mb_post_inv that by (simp add: mb_view_def)
  show "mb_view (mb_post x s) = mb_view s @ [x]" if "mb_inv s" "length (mb_view s) < chMBGetSizeI s" for s x
    using mb_post_view that by (simp add: mb_view_def)
  show "length (mb_view s) \<le> chMBGetSizeI s" if "mb_inv s" for s using that by (simp add: mb_inv_def mb_view_def)
  show "chMBGetSizeI (mb_post x s) = chMBGetSizeI s" for s x by (simp add: mb_post_def Let_def chMBGetSizeI_def)
  show "chMBGetSizeI (snd (mb_fetch s)) = chMBGetSizeI s" for s by (simp add: mb_fetch_def Let_def chMBGetSizeI_def)
  show "mb_inv (snd (mb_fetch s))" if "mb_inv s" "mb_view s \<noteq> []" for s by (rule mb_fetch_inv [OF that])
  show "mb_view s = fst (mb_fetch s) # mb_view (snd (mb_fetch s))" if "mb_inv s" "mb_view s \<noteq> []" for s by (rule mb_fetch_view [OF that])
qed

lemma mb_ahead_inv:
  assumes "mb_inv b" "mb_cnt b < chMBGetSizeI b"
  shows "mb_inv (mb_post_ahead x b)" "mb_view (mb_post_ahead x b) = x # mb_view b" "mb_rdptr (mb_post_ahead x b) < length (mb_buffer b)"
proof -
  let ?n = "length (mb_buffer b)"
  define r where "r = (if mb_rdptr b = 0 then chMBGetSizeI b - 1 else mb_rdptr b - 1)"
  have eq: "mb_post_ahead x b = b\<lparr>mb_rdptr := r, mb_buffer := (mb_buffer b)[r := x], mb_cnt := mb_cnt b + 1\<rparr>"
    by (simp add: mb_post_ahead_def r_def Let_def)
  have n: "0 < ?n" "mb_rdptr b < ?n" "mb_cnt b < ?n" using mb_size_pos mb_wr(2) assms by (auto simp: chMBGetSizeI_def)
  have r: "r < ?n" "(r + Suc i) mod ?n = (mb_rdptr b + i) mod ?n" for i
    using n by (auto simp: r_def chMBGetSizeI_def mod_add_self2 [of i "length (mb_buffer b)", symmetric] simp del: mod_add_self2)
  show "mb_rdptr (mb_post_ahead x b) < ?n" using r(1) by (simp add: eq)
  show "mb_inv (mb_post_ahead x b)"
    using assms(1) n r(1) r(2) [of "mb_cnt b"] by (simp add: mb_inv_def eq chMBGetSizeI_def)
  have ne: "(mb_rdptr b + i) mod ?n \<noteq> r" if "i < mb_cnt b" for i
  proof
    assume "(mb_rdptr b + i) mod ?n = r"
    then have "(r + Suc i) mod ?n = (r + 0) mod ?n" using r(1) by (simp only: r(2)) simp
    then show False using mod_add_inj [of "Suc i" ?n 0 r] that n by simp
  qed
  have "[0..<Suc (mb_cnt b)] = 0 # map Suc [0..<mb_cnt b]" by (simp add: map_Suc_upt upt_conv_Cons del: upt_Suc)
  moreover have "(mb_buffer b)[r := x] ! ((r + Suc i) mod ?n) = mb_buffer b ! ((mb_rdptr b + i) mod ?n)" if "i < mb_cnt b" for i
    using ne [OF that] r(2) [of i] by (metis nth_list_update_neq)
  ultimately show "mb_view (mb_post_ahead x b) = x # mb_view b"
    using r(1) by (simp add: mb_view_def eq chMBGetSizeI_def del: upt_Suc)
qed

section \<open>The operations on a consistent system\<close>

text \<open>The queues of a mailbox are plain thread queues.\<close>

definition mb_ok :: "(node \<Rightarrow> kind) \<Rightarrow> mailbox \<Rightarrow> bool" where
  "mb_ok kd b \<longleftrightarrow> mb_inv b \<and> kd (mb_qw b) = KQueue \<and> kd (mb_qr b) = KQueue"

lemma notify_ok:
  assumes core: "kcore kd A k Q {}" and tm: "timers_ok A k" and run: "ctx k (currp k) = []" and q: "kd q = KQueue"
    and mi: "mtx_inv kd k Q M"
  shows "\<exists>k' k''. chThdDequeueNextI q m k = Inr k' \<and> chSchRescheduleS k' = Inr k'' \<and> kernel_ok kd k''"
proof -
  obtain k' Q' where d: "chThdDequeueNextI q m k = Inr k'" "after_I kd A k Q k' Q'" using chThdDequeueNextI_ok [OF core q] by blast
  from resched_after [OF d(2) tm run] show ?thesis using d(1) after_S_kernel_ok [OF _ mi] by blast
qed

lemma mb_free: "mb_inv b \<Longrightarrow> 0 < chMBGetFreeCountI b \<longleftrightarrow> length (mb_view b) < chMBGetSizeI b"
  by (auto simp: chMBGetFreeCountI_def chMBGetUsedCountI_def mb_view_def)

lemma post_ok:
  assumes run: "runs kd k" and b: "mb_ok kd b"
  shows "\<exists>r b' k'. chMBPostTimeoutS mbp msg timeout now b k = Inr (r, b', k') \<and> kernel_ok kd k' \<and> mb_ok kd b' \<and>
    (if mb_reset b then r = Some MSG_RESET \<and> b' = b
     else if length (mb_view b) < chMBGetSizeI b then r = Some MSG_OK \<and> mb_view b' = mb_view b @ [msg]
     else r = (if timeout = 0 then Some MSG_TIMEOUT else None) \<and> b' = b)"
proof -
  from run obtain A Q M where c: "kcore kd A k Q {}" "timers_ok A k" "top_prio k Q" "ctx k (currp k) = []" "currp k \<noteq> IDLE"
    and mi: "mtx_inv kd k Q M" by (rule runsE)
  have ok: "kernel_ok kd k" using run by (simp add: runs_def)
  have i: "mb_inv b" "kd (mb_qw b) = KQueue" "kd (mb_qr b) = KQueue" using b by (simp_all add: mb_ok_def)
  consider (r) "mb_reset b" | (p) "\<not> mb_reset b" "length (mb_view b) < chMBGetSizeI b" | (f) "\<not> mb_reset b" "\<not> length (mb_view b) < chMBGetSizeI b" by blast
  then show ?thesis
  proof cases
    case r
    then show ?thesis using ok b by (simp add: chMBPostTimeoutS_def)
  next
    case p
    let ?b = "mb_post msg b"
    have q: "mb_qr ?b = mb_qr b" "mb_qw ?b = mb_qw b" by (simp_all add: mb_post_def Let_def)
    obtain k1 k' where n: "chThdDequeueNextI (mb_qr ?b) MSG_OK k = Inr k1" "chSchRescheduleS k1 = Inr k'" "kernel_ok kd k'"
      using notify_ok [OF c(1,2,4) i(3) mi, of MSG_OK] q(1) by auto
    have "mb_ok kd ?b" "mb_view ?b = mb_view b @ [msg]"
      using mbq.put_inv [OF i(1) p(2), of msg] mbq.put_view [OF i(1) p(2), of msg] i q by (simp_all add: mb_ok_def)
    moreover have "chMBPostTimeoutS mbp msg timeout now b k = Inr (Some MSG_OK, ?b, k')"
      using p mb_free [OF i(1)] mb_wr(1) [OF i(1)] n by (simp add: chMBPostTimeoutS_def in_buffer_def)
    ultimately show ?thesis using p n(3) by simp
  next
    case f
    obtain m k' where e: "chThdEnqueueTimeoutS [F_post mbp msg timeout] (mb_qw b) timeout now k = Inr (m, k')" "after_S kd k Q k'"
        "m \<noteq> None \<longrightarrow> m = Some MSG_TIMEOUT"
      using chThdEnqueueTimeoutS_ok [OF c(1,2,4,5,3) i(2) round_frame_simps(2), of mbp msg timeout timeout now] by blast
    have "m = (if timeout = 0 then Some MSG_TIMEOUT else None)"
      using e(1) by (auto simp: chThdEnqueueTimeoutS_def TIME_IMMEDIATE_def rbind_Inr split: if_splits)
    moreover have "chMBPostTimeoutS mbp msg timeout now b k = Inr (m, b, k')"
      using f mb_free [OF i(1)] e(1) by (simp add: chMBPostTimeoutS_def)
    ultimately show ?thesis using f b after_S_kernel_ok [OF e(2) mi] by simp
  qed
qed

lemma post_ahead_ok:
  assumes run: "runs kd k" and b: "mb_ok kd b"
  shows "\<exists>r b' k'. chMBPostAheadTimeoutS mbp msg timeout now b k = Inr (r, b', k') \<and> kernel_ok kd k' \<and> mb_ok kd b' \<and>
    (if mb_reset b then r = Some MSG_RESET \<and> b' = b
     else if length (mb_view b) < chMBGetSizeI b then r = Some MSG_OK \<and> mb_view b' = msg # mb_view b
     else r = (if timeout = 0 then Some MSG_TIMEOUT else None) \<and> b' = b)"
proof -
  from run obtain A Q M where c: "kcore kd A k Q {}" "timers_ok A k" "top_prio k Q" "ctx k (currp k) = []" "currp k \<noteq> IDLE"
    and mi: "mtx_inv kd k Q M" by (rule runsE)
  have ok: "kernel_ok kd k" using run by (simp add: runs_def)
  have i: "mb_inv b" "kd (mb_qw b) = KQueue" "kd (mb_qr b) = KQueue" using b by (simp_all add: mb_ok_def)
  consider (r) "mb_reset b" | (p) "\<not> mb_reset b" "length (mb_view b) < chMBGetSizeI b" | (f) "\<not> mb_reset b" "\<not> length (mb_view b) < chMBGetSizeI b" by blast
  then show ?thesis
  proof cases
    case r
    then show ?thesis using ok b by (simp add: chMBPostAheadTimeoutS_def)
  next
    case p
    let ?b = "mb_post_ahead msg b"
    have q: "mb_qr ?b = mb_qr b" "mb_qw ?b = mb_qw b" "length (mb_buffer ?b) = length (mb_buffer b)" by (simp_all add: mb_post_ahead_def Let_def)
    have cn: "mb_cnt b < chMBGetSizeI b" using p(2) by (simp add: mb_view_def)
    note a = mb_ahead_inv [OF i(1) cn, of msg]
    obtain k1 k' where n: "chThdDequeueNextI (mb_qr ?b) MSG_OK k = Inr k1" "chSchRescheduleS k1 = Inr k'" "kernel_ok kd k'"
      using notify_ok [OF c(1,2,4) i(3) mi, of MSG_OK] q(1) by auto
    have "mb_ok kd ?b" using a(1) i q by (simp add: mb_ok_def)
    moreover have "chMBPostAheadTimeoutS mbp msg timeout now b k = Inr (Some MSG_OK, ?b, k')"
      using p mb_free [OF i(1)] a(3) q(3) n by (simp add: chMBPostAheadTimeoutS_def in_buffer_def)
    ultimately show ?thesis using p n(3) a(2) by simp
  next
    case f
    obtain m k' where e: "chThdEnqueueTimeoutS [F_post_ahead mbp msg timeout] (mb_qw b) timeout now k = Inr (m, k')" "after_S kd k Q k'"
      using chThdEnqueueTimeoutS_ok [OF c(1,2,4,5,3) i(2) round_frame_simps(3), of mbp msg timeout timeout now] by blast
    have "m = (if timeout = 0 then Some MSG_TIMEOUT else None)"
      using e(1) by (auto simp: chThdEnqueueTimeoutS_def TIME_IMMEDIATE_def rbind_Inr split: if_splits)
    moreover have "chMBPostAheadTimeoutS mbp msg timeout now b k = Inr (m, b, k')"
      using f mb_free [OF i(1)] e(1) by (simp add: chMBPostAheadTimeoutS_def)
    ultimately show ?thesis using f b after_S_kernel_ok [OF e(2) mi] by simp
  qed
qed

lemma fetch_ok:
  assumes run: "runs kd k" and b: "mb_ok kd b"
  shows "\<exists>r x b' k'. chMBFetchTimeoutS mbp timeout now b k = Inr (r, x, b', k') \<and> kernel_ok kd k' \<and> mb_ok kd b' \<and>
    (if mb_reset b then r = Some MSG_RESET \<and> x = None \<and> b' = b
     else if mb_view b \<noteq> [] then r = Some MSG_OK \<and> x = Some (hd (mb_view b)) \<and> mb_view b' = tl (mb_view b)
     else r = (if timeout = 0 then Some MSG_TIMEOUT else None) \<and> x = None \<and> b' = b)"
proof -
  from run obtain A Q M where c: "kcore kd A k Q {}" "timers_ok A k" "top_prio k Q" "ctx k (currp k) = []" "currp k \<noteq> IDLE"
    and mi: "mtx_inv kd k Q M" by (rule runsE)
  have ok: "kernel_ok kd k" using run by (simp add: runs_def)
  have i: "mb_inv b" "kd (mb_qw b) = KQueue" "kd (mb_qr b) = KQueue" using b by (simp_all add: mb_ok_def)
  have us: "0 < chMBGetUsedCountI b \<longleftrightarrow> mb_view b \<noteq> []" by (auto simp: chMBGetUsedCountI_def mb_view_def)
  consider (r) "mb_reset b" | (p) "\<not> mb_reset b" "mb_view b \<noteq> []" | (f) "\<not> mb_reset b" "mb_view b = []" by blast
  then show ?thesis
  proof cases
    case r
    then show ?thesis using ok b by (simp add: chMBFetchTimeoutS_def)
  next
    case p
    obtain x b' where f: "mb_fetch b = (x, b')" by (cases "mb_fetch b")
    have q: "mb_qr b' = mb_qr b" "mb_qw b' = mb_qw b" using f by (auto simp: mb_fetch_def Let_def)
    obtain k1 k' where n: "chThdDequeueNextI (mb_qw b') MSG_OK k = Inr k1" "chSchRescheduleS k1 = Inr k'" "kernel_ok kd k'"
      using notify_ok [OF c(1,2,4) i(2) mi, of MSG_OK] q(2) by auto
    have "mb_ok kd b'" "mb_view b = x # mb_view b'"
      using mbq.get_inv [OF i(1) p(2)] mbq.get_view [OF i(1) p(2)] i q f by (simp_all add: mb_ok_def)
    moreover have "chMBFetchTimeoutS mbp timeout now b k = Inr (Some MSG_OK, Some x, b', k')"
      using p us mb_wr(2) [OF i(1)] n f by (simp add: chMBFetchTimeoutS_def in_buffer_def)
    ultimately show ?thesis using p n(3) by simp
  next
    case f
    obtain m k' where e: "chThdEnqueueTimeoutS [F_fetch mbp timeout] (mb_qr b) timeout now k = Inr (m, k')" "after_S kd k Q k'"
      using chThdEnqueueTimeoutS_ok [OF c(1,2,4,5,3) i(3) round_frame_simps(4), of mbp timeout timeout now] by blast
    have "m = (if timeout = 0 then Some MSG_TIMEOUT else None)"
      using e(1) by (auto simp: chThdEnqueueTimeoutS_def TIME_IMMEDIATE_def rbind_Inr split: if_splits)
    moreover have "chMBFetchTimeoutS mbp timeout now b k = Inr (m, None, b, k')"
      using f us e(1) by (simp add: chMBFetchTimeoutS_def)
    ultimately show ?thesis using f b after_S_kernel_ok [OF e(2) mi] by simp
  qed
qed

text \<open>A reset empties the mailbox and wakes every waiting thread; the mailbox then refuses all operations until it is resumed.\<close>

lemma chMBReset_ok:
  assumes run: "runs kd k" and b: "mb_ok kd b"
  shows "\<exists>b' k'. chMBReset b k = Inr (b', k') \<and> kernel_ok kd k' \<and> mb_ok kd b' \<and> mb_view b' = [] \<and> mb_reset b'"
proof -
  from run obtain A Q M where c: "kcore kd A k Q {}" "timers_ok A k" "top_prio k Q" "ctx k (currp k) = []" "currp k \<noteq> IDLE"
    and mi: "mtx_inv kd k Q M" by (rule runsE)
  have i: "mb_inv b" "kd (mb_qw b) = KQueue" "kd (mb_qr b) = KQueue" using b by (simp_all add: mb_ok_def)
  obtain k1 Q1 where d1: "chThdDequeueAllI (mb_qw b) MSG_RESET k = Inr k1" "after_I kd A k Q k1 Q1"
    using chThdDequeueAllI_ok [OF c(1) i(2)] by blast
  then have c1: "kcore kd A k1 Q1 {}" by (simp add: after_I_def)
  obtain k2 Q2 where d2: "chThdDequeueAllI (mb_qr b) MSG_RESET k1 = Inr k2" "after_I kd A k1 Q1 k2 Q2"
    using chThdDequeueAllI_ok [OF c1 i(3)] by blast
  obtain k' where r: "chSchRescheduleS k2 = Inr k'" "after_S kd k Q k'"
    using resched_after [OF after_I_trans [OF d1(2) d2(2)] c(2,4)] by blast
  have "mb_ok kd (b\<lparr>mb_wrptr := 0, mb_rdptr := 0, mb_cnt := 0, mb_reset := True\<rparr>)"
    using i mb_size_pos [OF i(1)] by (simp add: mb_ok_def mb_inv_def chMBGetSizeI_def)
  then show ?thesis using d1(1) d2(1) r(1) after_S_kernel_ok [OF r(2) mi] by (simp add: chMBReset_def chMBResetI_def mb_view_def)
qed

section \<open>The properties\<close>


definition ex_mailbox :: mailbox where
  "ex_mailbox = \<lparr>mb_buffer = [10, 20], mb_wrptr = 0, mb_rdptr = 1, mb_cnt = 1, mb_reset = False, mb_qw = 3, mb_qr = 4\<rparr>"

lemma ex_mb_ok: "mb_ok ex_kd ex_mailbox"
  by (simp add: mb_ok_def ex_mailbox_def mb_inv_def chMBGetSizeI_def ex_kd_def)


end
