(* ===== verification/KMtx.thy ===== *)
theory KMtx
  imports KSystem
begin

text \<open>
  Mutexes (\<^verbatim>\<open>os/rt/src/chmtx.c\<close>, \<^verbatim>\<open>chmtx.h\<close>) with priority inheritance. A thread that locks an owned mutex raises the
  priority of the owner to its own, and further along the chain of mutexes for which owners wait; unlocking restores the
  priority that the remaining mutexes demand. The invariant \<open>mtx_inv\<close> of a consistent kernel says that every thread runs with the highest of its
  own priority and those of the threads that wait for its mutexes.
\<close>

section \<open>Operations\<close>

definition chMtxObjectInit :: "node \<Rightarrow> kernel \<Rightarrow> kernel" where
  "chMtxObjectInit mp k = k\<lparr>ql := queue_init mp (ql k), m_owner := (m_owner k)(mp := None)\<rparr>"

definition chMtxQueueNotEmptyS :: "node \<Rightarrow> kernel \<Rightarrow> bool" where
  "chMtxQueueNotEmptyS mp k = queue_notempty mp (ql k)"

definition chMtxGetNextMutexS :: "kernel \<Rightarrow> node option" where
  "chMtxGetNextMutexS k = mtxlist k (chThdGetSelfX k)"

text \<open>A thread is enqueued again, behind the threads of its new priority.\<close>

definition requeue :: "node \<Rightarrow> node \<Rightarrow> kernel \<Rightarrow> kernel result" where
  "requeue tp tqp k =
     rbind (or_fault Diverge (queue_prio_insert (prio k) tp tqp (queue_dequeue tp (ql k)))) (\<lambda>l. Inr (k\<lparr>ql := l\<rparr>))"

text \<open>The loop of \<open>chMtxLockS\<close> that follows the chain of owners.\<close>

partial_function (option) boost :: "node \<Rightarrow> node option \<Rightarrow> kernel \<Rightarrow> kernel result option" where
  "boost ctp otp k =
     (case otp of
        None \<Rightarrow> Some (Inl NullDeref)
      | Some tp \<Rightarrow>
          if prio k tp < prio k ctp then
            let k = k\<lparr>prio := (prio k)(tp := prio k ctp)\<rparr> in
            if kstate k tp = CH_STATE_WTMTX then
              (case tu k tp of
                 U_obj m \<Rightarrow> (case requeue tp m k of Inl e \<Rightarrow> Some (Inl e) | Inr k \<Rightarrow> boost ctp (m_owner k m) k)
               | _ \<Rightarrow> Some (Inl Garbage))
            else if kstate k tp = CH_STATE_WTCOND then
              Some (case tu k tp of U_obj c \<Rightarrow> requeue tp c k | _ \<Rightarrow> Inl Garbage)
            else if kstate k tp = CH_STATE_READY then
              Some (let k = set_state tp CH_STATE_CURRENT k in chSchReadyI tp (k\<lparr>ql := queue_dequeue tp (ql k)\<rparr>))
            else Some (Inr k)
          else Some (Inr k))"

definition chMtxLockS :: "node \<Rightarrow> kernel \<Rightarrow> kernel result" where
  "chMtxLockS mp k =
     (let ctp = currp k in
      case m_owner k mp of
        Some tp \<Rightarrow>
          rbind (rbind (or_fault Diverge (boost ctp (Some tp) k)) (\<lambda>r. r)) (\<lambda>k.
          rbind (or_fault Diverge (queue_prio_insert (prio k) ctp mp (ql k))) (\<lambda>l.
            Inr (chSchGoSleepS [F_mtx mp] CH_STATE_WTMTX (set_u ctp (U_obj mp) (k\<lparr>ql := l\<rparr>)))))
      | None \<Rightarrow>
          Inr (k\<lparr>m_owner := (m_owner k)(mp := Some ctp), m_next := (m_next k)(mp := mtxlist k ctp), mtxlist := (mtxlist k)(ctp := Some mp)\<rparr>))"

definition chMtxLock :: "node \<Rightarrow> kernel \<Rightarrow> kernel result" where
  "chMtxLock mp k = chMtxLockS mp k"

text \<open>The assertions at the end of \<open>chMtxLockS\<close>, when the thread runs again.\<close>

definition resume_mtx :: "node \<Rightarrow> kernel \<Rightarrow> kernel result" where
  "resume_mtx mp k =
     rbind (assert_or_halt (m_owner k mp = Some (currp k))) (\<lambda>_.
     rbind (assert_or_halt (mtxlist k (currp k) = Some mp)) (\<lambda>_. Inr k))"

definition chMtxTryLockS :: "node \<Rightarrow> kernel \<Rightarrow> bool \<times> kernel" where
  "chMtxTryLockS mp k =
     (if m_owner k mp \<noteq> None then (False, k)
      else (True, k\<lparr>m_owner := (m_owner k)(mp := Some (currp k)), m_next := (m_next k)(mp := mtxlist k (currp k)),
                    mtxlist := (mtxlist k)(currp k := Some mp)\<rparr>))"

definition chMtxTryLock :: "node \<Rightarrow> kernel \<Rightarrow> bool \<times> kernel" where
  "chMtxTryLock mp k = chMtxTryLockS mp k"

text \<open>The highest priority among \<open>newprio\<close> and the first threads in the queues of the mutexes that follow \<open>lmp\<close>.\<close>

partial_function (option) scan_owned :: "kernel \<Rightarrow> node option \<Rightarrow> nat \<Rightarrow> nat option" where
  "scan_owned k lmp newprio =
     (case lmp of
        None \<Rightarrow> Some newprio
      | Some m \<Rightarrow>
          scan_owned k (m_next k m)
            (if chMtxQueueNotEmptyS m k \<and> prio k (qnext (ql k) m) > newprio then prio k (qnext (ql k) m) else newprio))"

text \<open>The first waiting thread becomes the owner and is made ready.\<close>

definition hand_over :: "node \<Rightarrow> kernel \<Rightarrow> kernel result" where
  "hand_over mp k =
     (let (tp, l) = queue_fifo_remove mp (ql k) in
      chSchReadyI tp (k\<lparr>ql := l, m_owner := (m_owner k)(mp := Some tp), m_next := (m_next k)(mp := mtxlist k tp),
                        mtxlist := (mtxlist k)(tp := Some mp)\<rparr>))"

definition chMtxUnlock :: "node \<Rightarrow> kernel \<Rightarrow> kernel result" where
  "chMtxUnlock mp k =
     (let ctp = currp k in
      case mtxlist k ctp of
        None \<Rightarrow> Inl Halt
      | Some m0 \<Rightarrow>
          rbind (assert_or_halt (m_owner k m0 = Some ctp)) (\<lambda>_.
          rbind (assert_or_halt (m0 = mp)) (\<lambda>_.
            let k = k\<lparr>mtxlist := (mtxlist k)(ctp := m_next k mp)\<rparr> in
            if chMtxQueueNotEmptyS mp k then
              rbind (or_fault Diverge (scan_owned k (mtxlist k ctp) (realprio k ctp))) (\<lambda>newprio.
              rbind (hand_over mp (k\<lparr>prio := (prio k)(ctp := newprio)\<rparr>)) (\<lambda>k. chSchRescheduleS k))
            else Inr (k\<lparr>m_owner := (m_owner k)(mp := None)\<rparr>))))"

definition chMtxUnlockS :: "node \<Rightarrow> kernel \<Rightarrow> kernel result" where
  "chMtxUnlockS mp k =
     (let ctp = currp k in
      case mtxlist k ctp of
        None \<Rightarrow> Inl Halt
      | Some m0 \<Rightarrow>
          rbind (assert_or_halt (m_owner k m0 = Some ctp)) (\<lambda>_.
          rbind (assert_or_halt (m0 = mp)) (\<lambda>_.
            let k = k\<lparr>mtxlist := (mtxlist k)(ctp := m_next k mp)\<rparr> in
            if chMtxQueueNotEmptyS mp k then
              rbind (or_fault Diverge (scan_owned k (mtxlist k ctp) (realprio k ctp))) (\<lambda>newprio.
                hand_over mp (k\<lparr>prio := (prio k)(ctp := newprio)\<rparr>))
            else Inr (k\<lparr>m_owner := (m_owner k)(mp := None)\<rparr>))))"

text \<open>The loop that releases all mutexes.\<close>

partial_function (option) release_loop :: "node \<Rightarrow> kernel \<Rightarrow> kernel result option" where
  "release_loop ctp k =
     (case mtxlist k ctp of
        None \<Rightarrow> Some (Inr k)
      | Some mp \<Rightarrow>
          let k = k\<lparr>mtxlist := (mtxlist k)(ctp := m_next k mp)\<rparr> in
          (case (if chMtxQueueNotEmptyS mp k then hand_over mp k else Inr (k\<lparr>m_owner := (m_owner k)(mp := None)\<rparr>)) of
             Inl e \<Rightarrow> Some (Inl e)
           | Inr k \<Rightarrow> release_loop ctp k))"

definition chMtxUnlockAllS :: "kernel \<Rightarrow> kernel result" where
  "chMtxUnlockAllS k =
     (let ctp = currp k in
      rbind (rbind (or_fault Diverge (release_loop ctp k)) (\<lambda>r. r)) (\<lambda>k. Inr (k\<lparr>prio := (prio k)(ctp := realprio k ctp)\<rparr>)))"

definition chMtxUnlockAll :: "kernel \<Rightarrow> kernel result" where
  "chMtxUnlockAll k =
     (let ctp = currp k in
      if mtxlist k ctp \<noteq> None then
        rbind (rbind (or_fault Diverge (release_loop ctp k)) (\<lambda>r. r)) (\<lambda>k.
          chSchRescheduleS (k\<lparr>prio := (prio k)(ctp := realprio k ctp)\<rparr>))
      else Inr k)"

section \<open>Changes of priority\<close>

lemma by_prio_cong: "(\<And>x. x \<in> set q \<Longrightarrow> p' x = p x) \<Longrightarrow> by_prio p' q = by_prio p q"
  unfolding by_prio_def by (rule iffI; erule sorted_wrt_mono_rel [rotated]) auto

lemma by_prio_upd [simp]: "t \<notin> set q \<Longrightarrow> by_prio (p(t := n)) q = by_prio p q"
  by (rule by_prio_cong) auto

lemma insert_after_cong: "(\<And>x. x \<in> set q \<Longrightarrow> c' x = c x) \<Longrightarrow> insert_after c' t q = insert_after c t q"
  unfolding insert_after_def by (metis takeWhile_cong dropWhile_cong)

lemma kcore_prio:
  assumes core: "kcore kd A k Q X" and t: "thread kd t" "t \<notin> set (Q RL)" "0 < p"
  shows "kcore kd A (k\<lparr>prio := (prio k)(t := p)\<rparr>) Q X"
proof (rule kcoreI)
  note glob = kcore_glob [OF core] note g = kglobD [OF glob]
  have "t \<noteq> RL" using thread_not_hdr [OF t(1)] hdr_RL [OF glob] by auto
  moreover have "by_prio ((prio k)(t := p)) (Q RL)" using g(6) t(2) by simp
  ultimately show "kglob kd A (k\<lparr>prio := (prio k)(t := p)\<rparr>) Q" using glob t(3) unfolding kglob_def by simp
  show "tok kd A (k\<lparr>prio := (prio k)(t := p)\<rparr>) Q s" if "thread kd s" "s \<notin> X" for s
    using that by (intro tok_frame [OF kcore_tok [OF core that]]) auto
qed

text \<open>A queue in which the elements are arranged differently.\<close>

lemma kcore_arrange:
  assumes core: "kcore kd A k Q X" and h: "h \<noteq> RL" "hdr kd h" "kd h \<noteq> KSem" and q: "queues l {h. hdr kd h} (Q(h := xs))" "set xs = set (Q h)"
  shows "kcore kd A (k\<lparr>ql := l\<rparr>) (Q(h := xs)) X"
proof (rule kcoreI)
  note glob = kcore_glob [OF core] note g = kglobD [OF glob]
  show "kglob kd A (k\<lparr>ql := l\<rparr>) (Q(h := xs))"
    using q h g(2,5,9) by (intro kglob_queue [OF glob]) auto
  fix s assume s: "thread kd s" "s \<notin> X"
  have "s \<in> set ((Q(h := xs)) i) \<longleftrightarrow> s \<in> set (Q i)" for i using q(2) by auto
  then show "tok kd A (k\<lparr>ql := l\<rparr>) (Q(h := xs)) s" using s by (intro tok_frame [OF kcore_tok [OF core]]) auto
qed

lemma requeue_ok:
  assumes core: "kcore kd A k Q X" and h: "hdr kd h" "h \<noteq> RL" "kd h \<noteq> KSem" and t: "t \<in> set (Q h)"
  shows "\<exists>l xs. requeue t h k = Inr (k\<lparr>ql := l\<rparr>) \<and> kcore kd A (k\<lparr>ql := l\<rparr>) (Q(h := xs)) X \<and> set xs = set (Q h) \<and>
    xs = insert_after (\<lambda>x. prio k t \<le> prio k x) t (remove1 t (Q h))"
proof -
  note g = kglobD [OF kcore_glob [OF core]]
  let ?xs = "remove1 t (Q h)" let ?c = "\<lambda>x. x \<noteq> h \<and> prio k t \<le> prio k x"
  have H: "h \<in> {h. hdr kd h}" using h(1) by simp
  note dq = queues_dequeue [OF g(1) H t] and lo = loose_after [OF g(1) H t]
  obtain cp where cp: "queue_scan ?c (queue_dequeue t (ql k)) h = Some cp"
      "queues (insert_on_prev t cp (queue_dequeue t (ql k))) {h. hdr kd h} ((Q(h := ?xs))(h := insert_after ?c t ((Q(h := ?xs)) h)))"
    using queues_scan_insert [OF dq H lo, of ?c] by auto
  let ?l = "insert_on_prev t cp (queue_dequeue t (ql k))"
  have ne: "x \<noteq> h" if "x \<in> set ?xs" for x using queues_distinct [OF g(1) H] that set_remove1_subset [of t "Q h"] by auto
  have xs: "insert_after ?c t ?xs = insert_after (\<lambda>x. prio k t \<le> prio k x) t ?xs" using ne by (intro insert_after_cong) simp
  have set: "set (insert_after ?c t ?xs) = set (Q h)" using t queues_distinct [OF g(1) H] by auto
  have "kcore kd A (k\<lparr>ql := ?l\<rparr>) (Q(h := insert_after ?c t ?xs)) X"
    by (rule kcore_arrange [OF core h(2,1,3)]) (use cp(2) set in simp_all)
  moreover have "requeue t h k = Inr (k\<lparr>ql := ?l\<rparr>)" using cp(1) by (simp add: requeue_def queue_prio_insert_def)
  ultimately show ?thesis using set unfolding xs by (intro exI [of _ ?l] exI [of _ "insert_after (\<lambda>x. prio k t \<le> prio k x) t ?xs"]) simp
qed

lemma by_prio_requeue:
  assumes "by_prio p q" "distinct q" "p' = p(t := n)"
  shows "by_prio p' (insert_after (\<lambda>x. p' t \<le> p' x) t (remove1 t q))"
proof -
  have "by_prio p' (remove1 t q)" using by_prio_remove [OF assms(1), of t] assms(2,3) by simp
  then show ?thesis by (intro by_prio_insert) auto
qed

section \<open>Priority inheritance\<close>

lemma mtx_structD:
  assumes "mtx_struct kd k Q M"
  shows "finite {t. thread kd t}" "thread kd t \<Longrightarrow> mlinked (m_next k) (mtxlist k t) (M t)" "thread kd t \<Longrightarrow> distinct (M t)"
    "thread kd t \<Longrightarrow> mframe kd k Q t" "thread kd t \<Longrightarrow> realprio k t \<le> prio k t" "thread kd t \<Longrightarrow> 0 < realprio k t"
    "thread kd t \<Longrightarrow> m \<in> set (M t) \<longleftrightarrow> kd m = KMtx \<and> m_owner k m = Some t" "kd m = KMtx \<Longrightarrow> by_prio (prio k) (Q m)"
    "kd m = KMtx \<Longrightarrow> m_owner k m = None \<Longrightarrow> Q m = []" "kd m = KMtx \<Longrightarrow> m_owner k m = Some t \<Longrightarrow> thread kd t"
    "kd m = KMtx \<Longrightarrow> t \<in> set (Q m) \<Longrightarrow> ctx k t = [F_mtx m]" "ctx k IDLE = []"
  using assms by (simp_all add: mtx_struct_def)

lemma struct_boost:
  assumes st: "mtx_struct kd k Q M" and t: "prio k t \<le> p" and k': "k' = k\<lparr>prio := (prio k)(t := p), ql := l\<rparr>"
    and Q': "\<And>h. set (Q' h) = set (Q h)" "\<And>m. kd m = KMtx \<Longrightarrow> by_prio (prio k') (Q' m)"
  shows "mtx_struct kd k' Q' M"
proof -
  have e: "Q' m = [] \<longleftrightarrow> Q m = []" for m using arg_cong [OF Q'(1) [of m], of "\<lambda>S. S = {}"] by simp
  have f: "mframe kd k' Q' s = mframe kd k Q s" for s by (simp add: mframe_def k' Q'(1))
  have r: "realprio k' s \<le> prio k' s" if "thread kd s" for s using mtx_structD(5) [OF st that] t by (auto simp: k')
  have same: "m_next k' = m_next k" "mtxlist k' = mtxlist k" "m_owner k' = m_owner k" "realprio k' = realprio k" "ctx k' = ctx k" by (simp_all add: k')
  show ?thesis unfolding mtx_struct_def same(1,2,3,5) e f Q'(1) using r mtx_structD [OF st] Q'(2) same(4) by auto
qed

text \<open>The mutex for which a thread waits.\<close>

lemma waits_for:
  assumes core: "kcore kd A k Q {}" and t: "thread kd t"
  shows "kd m = KMtx \<Longrightarrow> t \<in> set (Q m) \<Longrightarrow> kstate k t = CH_STATE_WTMTX \<and> tu k t = U_obj m"
    "kstate k t = CH_STATE_WTMTX \<Longrightarrow> \<exists>m. tu k t = U_obj m \<and> kd m = KMtx \<and> t \<in> set (Q m)"
    "kstate k t = CH_STATE_WTCOND \<Longrightarrow> \<exists>m. tu k t = U_obj m \<and> kd m = KCond \<and> t \<in> set (Q m)"
    "kstate k t = CH_STATE_READY \<longleftrightarrow> t \<in> set (Q RL)"
proof -
  note g = kglobD [OF kcore_glob [OF core]]
  have tk: "tok kd A k Q t" by (rule kcore_tok [OF core t]) simp
  have li: "lives (kd h) k h t" if "hdr kd h" "t \<in> set (Q h)" for h using tk that by (simp add: tok_def)
  have ex: "\<exists>h. hdr kd h \<and> t \<in> set (Q h)" if "in_queue (kstate k t)" using tk that by (simp add: tok_def)
  show "kstate k t = CH_STATE_WTMTX \<and> tu k t = U_obj m" if "kd m = KMtx" "t \<in> set (Q m)"
    using li [of m] that by (simp add: hdr_def)
  show "\<exists>m. tu k t = U_obj m \<and> kd m = KMtx \<and> t \<in> set (Q m)" if st: "kstate k t = CH_STATE_WTMTX"
  proof -
    obtain h where h: "hdr kd h" "t \<in> set (Q h)" using ex st by (auto simp: in_queue_def)
    then show ?thesis using li [OF h] st by (cases "kd h") auto
  qed
  show "\<exists>m. tu k t = U_obj m \<and> kd m = KCond \<and> t \<in> set (Q m)" if st: "kstate k t = CH_STATE_WTCOND"
  proof -
    obtain h where h: "hdr kd h" "t \<in> set (Q h)" using ex st by (auto simp: in_queue_def)
    then show ?thesis using li [OF h] st by (cases "kd h") auto
  qed
  show "kstate k t = CH_STATE_READY \<longleftrightarrow> t \<in> set (Q RL)"
  proof
    assume st: "kstate k t = CH_STATE_READY"
    obtain h where h: "hdr kd h" "t \<in> set (Q h)" using ex st by (auto simp: in_queue_def)
    then have "h = RL" using li [OF h] st g(3) [of h] by (cases "kd h") auto
    then show "t \<in> set (Q RL)" using h by simp
  qed (use li [of RL] g(3) [of RL] in \<open>simp add: hdr_def\<close>)
qed

text \<open>Waiting for a mutex, in terms of the fields of a thread.\<close>

definition waiting :: "kernel \<Rightarrow> node \<Rightarrow> node \<Rightarrow> bool" where
  "waiting k mp t \<longleftrightarrow> kstate k t = CH_STATE_WTMTX \<and> tu k t = U_obj mp"

lemma waiting_iff:
  assumes "kcore kd A k Q {}" "kd mp = KMtx"
  shows "t \<in> set (Q mp) \<longleftrightarrow> thread kd t \<and> waiting k mp t"
proof
  assume q: "t \<in> set (Q mp)"
  have th: "thread kd t" using kglobD(2) [OF kcore_glob [OF assms(1)] _ q] assms(2) by (simp add: hdr_def)
  then show "thread kd t \<and> waiting k mp t" using waits_for(1) [OF assms(1) th assms(2) q] by (simp add: waiting_def)
next
  assume w: "thread kd t \<and> waiting k mp t"
  then obtain m where "tu k t = U_obj m" "t \<in> set (Q m)" using waits_for(2) [OF assms(1), of t] by (auto simp: waiting_def)
  then show "t \<in> set (Q mp)" using w by (simp add: waiting_def)
qed

lemma boost_ready:
  assumes core: "kcore kd A k Q {}" and t: "thread kd t" "t \<noteq> currp k" "kstate k t = CH_STATE_READY" "0 < p"
    and k1: "k1 = set_state t CH_STATE_CURRENT (k\<lparr>prio := (prio k)(t := p)\<rparr>)"
  shows "\<exists>l xs. chSchReadyI t (k1\<lparr>ql := queue_dequeue t (ql k1)\<rparr>) = Inr (k\<lparr>prio := (prio k)(t := p), ql := l\<rparr>) \<and>
    kcore kd A (k\<lparr>prio := (prio k)(t := p), ql := l\<rparr>) (Q(RL := xs)) {} \<and> set xs = set (Q RL)"
proof -
  note glob = kcore_glob [OF core] note g = kglobD [OF glob]
  have rl: "t \<in> set (Q RL)" "kd RL = KReady" "hdr kd RL" using waits_for(4) [OF core t(1)] t(3) g(3) [of RL] hdr_RL [OF glob] by auto
  let ?Q = "Q(RL := remove1 t (Q RL))" let ?k = "k1\<lparr>ql := queue_dequeue t (ql k1)\<rparr>"
  have sem: "sem_ok (cnt k s) (?Q s)" if "kd s = KSem" for s using g(9) [OF that] that rl(2) by auto
  note dq = kcore_dequeue [OF core rl(3,1), of "cnt k", OF sem]
  have nr: "t \<notin> set (?Q RL)" using queues_distinct [OF g(1), of RL] rl(3) by simp
  have tk: "tok kd A k Q t" by (rule kcore_tok [OF core t(1)]) simp
  have c: "kcore kd A ?k ?Q {t}"
    by (rule kcore_local [OF kcore_prio [OF dq(1) t(1) nr t(4)], of t]) (simp_all add: k1)
  have ri: "ready_inv kd A ?k ?Q t" using dq(2) t tk by (auto simp: ready_inv_def k1 tok_def runnable_def)
  have st: "kstate ?k t \<notin> {CH_STATE_READY, CH_STATE_FINAL}" by (simp add: k1)
  obtain l where l: "chSchReadyI t ?k = Inr ((set_state t CH_STATE_READY ?k)\<lparr>ql := l\<rparr>)"
      "kcore kd A ((set_state t CH_STATE_READY ?k)\<lparr>ql := l\<rparr>) (?Q(RL := insert_after (\<lambda>x. prio ?k t \<le> prio ?k x) t (?Q RL))) ({t} - {t})"
    using ready_ok [OF c ri st] by blast
  have eq: "(set_state t CH_STATE_READY ?k)\<lparr>ql := l\<rparr> = k\<lparr>prio := (prio k)(t := p), ql := l\<rparr>"
    using t(3) by (simp add: k1 set_state_def fun_upd_idem)
  have "set (insert_after (\<lambda>x. prio ?k t \<le> prio ?k x) t (?Q RL)) = set (Q RL)"
    using rl(1) queues_distinct [OF g(1), of RL] rl(3) by auto
  then show ?thesis using l unfolding eq
    by (intro exI [of _ l] exI [of _ "insert_after (\<lambda>x. prio ?k t \<le> prio ?k x) t (?Q RL)"]) simp
qed

text \<open>
  One round of the loop: the priority is raised and the queue in which the thread waits, if it is kept by priority, stays in
  order. Either the loop ends there or it goes on with the owner of the mutex for which the thread waits.
\<close>

lemma boost_struct:
  assumes st: "mtx_struct kd k Q M" and t: "prio k t < p" and xs: "set xs = set (Q h)" "kd h = KMtx \<Longrightarrow> by_prio ((prio k)(t := p)) xs"
    and ot: "\<And>m. kd m = KMtx \<Longrightarrow> m \<noteq> h \<Longrightarrow> t \<notin> set (Q m)"
  shows "mtx_struct kd (k\<lparr>prio := (prio k)(t := p), ql := l\<rparr>) (Q(h := xs)) M"
proof (rule struct_boost [OF st _ refl])
  show "by_prio (prio (k\<lparr>prio := (prio k)(t := p), ql := l\<rparr>)) ((Q(h := xs)) m)" if "kd m = KMtx" for m
    using xs(2) that mtx_structD(8) [OF st that] ot [OF that] by (cases "m = h") auto
qed (use t xs(1) in simp_all)

lemma boost_queue:
  assumes core: "kcore kd A k Q {}" and st: "mtx_struct kd k Q M" and t: "thread kd t" "prio k t < p"
    and m: "kstate k t \<in> {CH_STATE_WTMTX, CH_STATE_WTCOND}" "kd m \<in> {KMtx, KCond}" "t \<in> set (Q m)"
  shows "\<exists>l xs. requeue t m (k\<lparr>prio := (prio k)(t := p)\<rparr>) = Inr (k\<lparr>prio := (prio k)(t := p), ql := l\<rparr>) \<and>
    kcore kd A (k\<lparr>prio := (prio k)(t := p), ql := l\<rparr>) (Q(m := xs)) {} \<and> mtx_struct kd (k\<lparr>prio := (prio k)(t := p), ql := l\<rparr>) (Q(m := xs)) M \<and>
    set xs = set (Q m)"
proof -
  note g = kglobD [OF kcore_glob [OF core]]
  let ?k1 = "k\<lparr>prio := (prio k)(t := p)\<rparr>"
  have h: "hdr kd m" "m \<noteq> RL" "kd m \<noteq> KSem" using m(2) g(3) [of RL] by (auto simp: hdr_def)
  have c1: "kcore kd A ?k1 Q {}" using kcore_prio [OF core t(1)] waits_for(4) [OF core t(1)] m(1) t(2) by auto
  obtain l xs where r: "requeue t m ?k1 = Inr (?k1\<lparr>ql := l\<rparr>)" "kcore kd A (?k1\<lparr>ql := l\<rparr>) (Q(m := xs)) {}" "set xs = set (Q m)"
      "xs = insert_after (\<lambda>x. prio ?k1 t \<le> prio ?k1 x) t (remove1 t (Q m))" using requeue_ok [OF c1 h m(3)] by blast
  have "tok kd A k Q t" by (rule kcore_tok [OF core t(1)]) simp
  then have li: "lives (kd i) k i t" if "hdr kd i" "t \<in> set (Q i)" for i using that by (simp add: tok_def)
  have u: "tu k t = U_obj m" using li [OF h(1) m(3)] m(2) by auto
  have ot: "t \<notin> set (Q i)" if "kd i = KMtx" "i \<noteq> m" for i using waits_for(1) [OF core t(1) that(1)] u that(2) by auto
  have bp: "by_prio ((prio k)(t := p)) xs" if "kd m = KMtx"
    using by_prio_requeue [OF mtx_structD(8) [OF st that], of "(prio k)(t := p)" t p] queues_distinct [OF g(1), of m] h(1) r(4) by simp
  have "mtx_struct kd (?k1\<lparr>ql := l\<rparr>) (Q(m := xs)) M" using boost_struct [OF st t(2) r(3) bp ot] by simp
  then show ?thesis using r(1-3) by (intro exI [of _ l] exI [of _ xs]) simp
qed

lemma boost_round:
  assumes "prio k t < prio k c"
  shows "boost c (Some t) k =
    (let k = k\<lparr>prio := (prio k)(t := prio k c)\<rparr> in
     if kstate k t = CH_STATE_WTMTX then
       (case tu k t of U_obj m \<Rightarrow> (case requeue t m k of Inl e \<Rightarrow> Some (Inl e) | Inr k \<Rightarrow> boost c (m_owner k m) k) | _ \<Rightarrow> Some (Inl Garbage))
     else if kstate k t = CH_STATE_WTCOND then Some (case tu k t of U_obj c \<Rightarrow> requeue t c k | _ \<Rightarrow> Inl Garbage)
     else if kstate k t = CH_STATE_READY then
       Some (let k = set_state t CH_STATE_CURRENT k in chSchReadyI t (k\<lparr>ql := queue_dequeue t (ql k)\<rparr>))
     else Some (Inr k))"
  using assms by (subst boost.simps) simp

lemma boost_next:
  assumes core: "kcore kd A k Q {}" and st: "mtx_struct kd k Q M" and t: "thread kd t" "prio k t < prio k c" "kstate k t = CH_STATE_WTMTX"
    and k': "\<And>l. k' l = k\<lparr>prio := (prio k)(t := prio k c), ql := l\<rparr>"
  shows "\<exists>m t1 l Q'. boost c (Some t) k = boost c (Some t1) (k' l) \<and> kd m = KMtx \<and> tu k t = U_obj m \<and> t \<in> set (Q m) \<and> m_owner k m = Some t1 \<and>
    thread kd t1 \<and> kcore kd A (k' l) Q' {} \<and> mtx_struct kd (k' l) Q' M \<and> (\<forall>h. set (Q' h) = set (Q h))"
proof -
  obtain m where m: "tu k t = U_obj m" "kd m = KMtx" "t \<in> set (Q m)" using waits_for(2) [OF core t(1,3)] by blast
  obtain l xs where r: "requeue t m (k\<lparr>prio := (prio k)(t := prio k c)\<rparr>) = Inr (k' l)" "kcore kd A (k' l) (Q(m := xs)) {}"
      "mtx_struct kd (k' l) (Q(m := xs)) M" "set xs = set (Q m)"
    using boost_queue [OF core st t(1,2), of m] t(3) m unfolding k' by auto
  obtain t1 where t1: "m_owner k m = Some t1" "thread kd t1"
    using mtx_structD(9,10) [OF st m(2)] m(3) by (cases "m_owner k m") auto
  have "boost c (Some t) k = boost c (Some t1) (k' l)" using boost_round [OF t(2)] t(3) m(1) r(1) t1(1) by (simp add: k')
  then show ?thesis using m t1 r by (intro exI [of _ m] exI [of _ t1] exI [of _ l] exI [of _ "Q(m := xs)"]) simp
qed

lemma boost_last:
  assumes core: "kcore kd A k Q {}" and st: "mtx_struct kd k Q M" and t: "thread kd t" "prio k t < prio k c" "kstate k t \<noteq> CH_STATE_WTMTX"
    and c: "currp k = c" and k': "\<And>l. k' l = k\<lparr>prio := (prio k)(t := prio k c), ql := l\<rparr>"
  shows "\<exists>l Q'. boost c (Some t) k = Some (Inr (k' l)) \<and> kcore kd A (k' l) Q' {} \<and> mtx_struct kd (k' l) Q' M \<and> (\<forall>h. set (Q' h) = set (Q h))"
proof -
  note g = kglobD [OF kcore_glob [OF core]]
  let ?k1 = "k\<lparr>prio := (prio k)(t := prio k c)\<rparr>"
  have ne: "t \<noteq> currp k" using t(2) c by auto
  have nq: "t \<notin> set (Q m)" if "kd m = KMtx" for m using waits_for(1) [OF core t(1) that] t(3) by auto
  consider (c) "kstate k t = CH_STATE_WTCOND" | (r) "kstate k t = CH_STATE_READY" | (o) "kstate k t \<notin> {CH_STATE_WTCOND, CH_STATE_READY}" by blast
  then show ?thesis
  proof cases
    case c
    obtain d where d: "tu k t = U_obj d" "kd d = KCond" "t \<in> set (Q d)" using waits_for(3) [OF core t(1) c] by blast
    obtain l xs where r: "requeue t d ?k1 = Inr (k' l)" "kcore kd A (k' l) (Q(d := xs)) {}" "mtx_struct kd (k' l) (Q(d := xs)) M" "set xs = set (Q d)"
      using boost_queue [OF core st t(1,2), of d] c d unfolding k' by auto
    have "boost c (Some t) k = Some (Inr (k' l))" using boost_round [OF t(2)] c d(1) r(1) by simp
    then show ?thesis using r by (intro exI [of _ l] exI [of _ "Q(d := xs)"]) simp
  next
    case r
    obtain l xs where q: "chSchReadyI t ((set_state t CH_STATE_CURRENT ?k1)\<lparr>ql := queue_dequeue t (ql (set_state t CH_STATE_CURRENT ?k1))\<rparr>) = Inr (k' l)"
        "kcore kd A (k' l) (Q(RL := xs)) {}" "set xs = set (Q RL)"
      using boost_ready [OF core t(1) ne r, of "prio k c"] t(2) unfolding k' by auto
    have "mtx_struct kd (k' l) (Q(RL := xs)) M" unfolding k' using boost_struct [OF st t(2) q(3)] nq g(3) [of RL] by simp
    moreover have "boost c (Some t) k = Some (Inr (k' l))" using boost_round [OF t(2)] r q(1) by simp
    ultimately show ?thesis using q by (intro exI [of _ l] exI [of _ "Q(RL := xs)"]) simp
  next
    case o
    have eq: "k' (ql k) = ?k1" by (simp add: k')
    have "kcore kd A ?k1 Q {}" using kcore_prio [OF core t(1)] waits_for(4) [OF core t(1)] o t(2) by auto
    moreover have "mtx_struct kd (k' (ql k)) (Q(RL := Q RL)) M" unfolding k'
      using boost_struct [where l = "ql k" and h = RL and xs = "Q RL", OF st t(2)] nq g(3) [of RL] by simp
    moreover have "boost c (Some t) k = Some (Inr ?k1)" using boost_round [OF t(2)] o t(3) by simp
    ultimately show ?thesis by (intro exI [of _ "ql k"] exI [of _ Q]) (simp add: eq)
  qed
qed

text \<open>
  During the loop one thread may have a priority that is too low: one of the threads waiting for its mutexes has the priority
  \<open>p\<close>.
\<close>

definition almost :: "kernel \<Rightarrow> (node \<Rightarrow> node list) \<Rightarrow> node list \<Rightarrow> nat \<Rightarrow> node \<Rightarrow> bool" where
  "almost k Q ms p t \<longleftrightarrow>
     (\<forall>m \<in> set ms. \<forall>w \<in> set (Q m). prio k w \<le> max (prio k t) p) \<and> (\<exists>m \<in> set ms. \<exists>w \<in> set (Q m). prio k w = p) \<and>
     (p \<le> prio k t \<longrightarrow> prio k t = realprio k t \<or> (\<exists>m \<in> set ms. \<exists>w \<in> set (Q m). prio k w = prio k t))"

lemma almost_done: "almost k Q ms p t \<Longrightarrow> p \<le> prio k t \<Longrightarrow> inherits k Q ms t"
  by (auto simp: almost_def inherits_def max_def)

lemma almost_self: "inherits k Q ms t \<Longrightarrow> m \<in> set ms \<Longrightarrow> t \<in> set (Q m) \<Longrightarrow> prio k t = p \<Longrightarrow> almost k Q ms p t"
  unfolding almost_def inherits_def by auto

lemma inherits_frame:
  assumes "inherits k Q ms t" "prio k' = prio k" "realprio k' = realprio k" "\<And>m. m \<in> set ms \<Longrightarrow> set (Q' m) = set (Q m)"
  shows "inherits k' Q' ms t"
  using assms by (simp add: inherits_def)

lemma raised:
  assumes k': "prio k' = (prio k)(t := p)" "realprio k' = realprio k" and Q': "\<And>h. set (Q' h) = set (Q h)" and t: "prio k t < p"
  shows "almost k Q ms p t \<Longrightarrow> inherits k' Q' ms t"
    "inherits k Q ms s \<Longrightarrow> s \<noteq> t \<Longrightarrow> (\<And>m. m \<in> set ms \<Longrightarrow> t \<notin> set (Q m)) \<Longrightarrow> inherits k' Q' ms s"
    "inherits k Q ms s \<Longrightarrow> s \<noteq> t \<Longrightarrow> m \<in> set ms \<Longrightarrow> t \<in> set (Q m) \<Longrightarrow> almost k' Q' ms p s"
proof -
  assume a: "almost k Q ms p t"
  then obtain m w where w: "m \<in> set ms" "w \<in> set (Q m)" "prio k w = p" by (auto simp: almost_def)
  have "prio k' w = prio k' t" using w(3) t by (auto simp: k')
  moreover have "prio k' v \<le> prio k' t" if "n \<in> set ms" "v \<in> set (Q n)" for n v
    using a that t by (auto simp: almost_def k' max_def split: if_splits)
  ultimately show "inherits k' Q' ms t" using w by (auto simp: inherits_def Q')
next
  assume a: "inherits k Q ms s" "s \<noteq> t" "\<And>m. m \<in> set ms \<Longrightarrow> t \<notin> set (Q m)"
  have "prio k' w = prio k w" if "m \<in> set ms" "w \<in> set (Q m)" for m w using a(3) [OF that(1)] that(2) by (auto simp: k')
  then show "inherits k' Q' ms s" using a(1,2) unfolding inherits_def Q' by (simp add: k')
next
  assume a: "inherits k Q ms s" "s \<noteq> t" "m \<in> set ms" "t \<in> set (Q m)"
  have ps: "prio k' s = prio k s" using a(2) by (simp add: k')
  have "\<exists>m \<in> set ms. \<exists>w \<in> set (Q m). prio k' w = prio k' s" if "p \<le> prio k s" "prio k s \<noteq> realprio k s"
  proof -
    obtain n w where w: "n \<in> set ms" "w \<in> set (Q n)" "prio k w = prio k s" using a(1) \<open>prio k s \<noteq> realprio k s\<close> by (auto simp: inherits_def)
    have "w \<noteq> t" using w(3) that t by auto
    then show ?thesis using w ps by (auto simp: k')
  qed
  moreover have "prio k' w \<le> max (prio k' s) p" if "n \<in> set ms" "w \<in> set (Q n)" for n w
  proof -
    have "prio k w \<le> prio k s" using a(1) that by (auto simp: inherits_def)
    then show ?thesis using ps by (auto simp: k')
  qed
  moreover have "prio k' t = p" by (simp add: k')
  ultimately show "almost k' Q' ms p s" using a(3,4) ps unfolding almost_def Q' by (auto simp: k'(2))
qed

text \<open>
  The loop ends, since every round raises the priority of another thread. \<open>Q(mp := c # Q mp)\<close> are the queues as they
  are going to be, with the running thread among the waiting ones.
\<close>

lemma boost_ok:
  assumes "kcore kd A k Q {}" "mtx_struct kd k Q M" "thread kd t" "currp k = c" "prio k c = p"
    and "\<And>s. thread kd s \<Longrightarrow> s \<noteq> t \<Longrightarrow> inherits k (Q(mp := c # Q mp)) (M s) s" "almost k (Q(mp := c # Q mp)) (M t) p t"
  shows "\<exists>pr l Q'. boost c (Some t) k = Some (Inr (k\<lparr>prio := pr, ql := l\<rparr>)) \<and> kcore kd A (k\<lparr>prio := pr, ql := l\<rparr>) Q' {} \<and>
    mtx_struct kd (k\<lparr>prio := pr, ql := l\<rparr>) Q' M \<and> (\<forall>s. thread kd s \<longrightarrow> inherits (k\<lparr>prio := pr, ql := l\<rparr>) (Q'(mp := c # Q' mp)) (M s) s) \<and>
    (\<forall>h. set (Q' h) = set (Q h)) \<and> pr c = p"
  using assms
proof (induction "card {s. thread kd s \<and> prio k s < p}" arbitrary: k Q t rule: less_induct)
  case less
  note core = less.prems(1) and st = less.prems(2) and t = less.prems(3)
  show ?case
  proof (cases "prio k t < p")
    case False
    have "thread kd s \<Longrightarrow> inherits k (Q(mp := c # Q mp)) (M s) s" for s
      using less.prems(6) [of s] almost_done [OF less.prems(7)] False by (cases "s = t") simp_all
    moreover have "boost c (Some t) k = Some (Inr k)" using False less.prems(5) by (simp add: boost.simps [of c])
    ultimately show ?thesis using less.prems(1-5) by (intro exI [of _ "prio k"] exI [of _ "ql k"] exI [of _ Q]) simp
  next
    case True
    define k1 where "k1 = (\<lambda>l. k\<lparr>prio := (prio k)(t := p), ql := l\<rparr>)"
    have k1: "k1 l = k\<lparr>prio := (prio k)(t := prio k c), ql := l\<rparr>" for l using less.prems(5) by (simp add: k1_def)
    have tc: "t \<noteq> c" and lt: "prio k t < prio k c" using True less.prems(5) by auto
    note rs = raised [where k = k and t = t and p = p, OF _ _ _ True]
    have step: "inherits (k1 l) (Q2(mp := c # Q2 mp)) (M s) s"
      if "\<And>h. set (Q2 h) = set (Q h)" "thread kd s" "s \<noteq> t \<Longrightarrow> \<forall>m \<in> set (M s). t \<notin> set (Q m)" for l Q2 s
    proof (cases "s = t")
      case True
      show ?thesis unfolding True by (rule rs(1) [OF _ _ _ less.prems(7)]) (use that(1) in \<open>simp_all add: k1_def\<close>)
    next
      case False
      show ?thesis
        by (rule rs(2) [OF _ _ _ less.prems(6) [OF that(2) False] False])
          (use that(1) that(3) [OF False] tc in \<open>auto simp: k1_def split: if_splits\<close>)
    qed
    show ?thesis
    proof (cases "kstate k t = CH_STATE_WTMTX")
      case w: True
      obtain m t1 l Q1 where r: "boost c (Some t) k = boost c (Some t1) (k1 l)" "kd m = KMtx" "tu k t = U_obj m" "t \<in> set (Q m)"
          "m_owner k m = Some t1" "thread kd t1" "kcore kd A (k1 l) Q1 {}" "mtx_struct kd (k1 l) Q1 M" "\<And>h. set (Q1 h) = set (Q h)"
        using boost_next [OF core st t lt w k1] by blast
      have own: "m \<in> set (M t1)" using mtx_structD(7) [OF st r(6)] r(2,5) by simp
      have less': "card {s. thread kd s \<and> prio (k1 l) s < p} < card {s. thread kd s \<and> prio k s < p}"
        by (rule psubset_card_mono) (use mtx_structD(1) [OF st] True t in \<open>auto simp: k1_def split: if_splits\<close>)
      have oth: "inherits (k1 l) (Q1(mp := c # Q1 mp)) (M s) s" if "thread kd s" "s \<noteq> t1" for s
        by (rule step [OF r(9) that(1)])
          (use waits_for(1) [OF core t] mtx_structD(7) [OF st that(1)] r(3,5) that(2) in fastforce)
      have al: "almost (k1 l) (Q1(mp := c # Q1 mp)) (M t1) p t1"
      proof (cases "t1 = t")
        case True
        have "inherits (k1 l) (Q1(mp := c # Q1 mp)) (M t) t" by (rule step [OF r(9) t]) simp
        then show ?thesis using own r(4,9) unfolding True by (intro almost_self [where m = m]) (auto simp: k1_def)
      next
        case False
        show ?thesis
          by (rule rs(3) [OF _ _ _ less.prems(6) [OF r(6) False] False own]) (use r(4,9) in \<open>auto simp: k1_def\<close>)
      qed
      have "\<exists>pr l' Q'. boost c (Some t1) (k1 l) = Some (Inr (k1 l\<lparr>prio := pr, ql := l'\<rparr>)) \<and> kcore kd A (k1 l\<lparr>prio := pr, ql := l'\<rparr>) Q' {} \<and>
          mtx_struct kd (k1 l\<lparr>prio := pr, ql := l'\<rparr>) Q' M \<and>
          (\<forall>s. thread kd s \<longrightarrow> inherits (k1 l\<lparr>prio := pr, ql := l'\<rparr>) (Q'(mp := c # Q' mp)) (M s) s) \<and>
          (\<forall>h. set (Q' h) = set (Q1 h)) \<and> pr c = p"
        by (rule less.hyps [OF less' r(7,8,6)]) (use less.prems(4,5) tc oth al in \<open>simp_all add: k1_def\<close>)
      then show ?thesis using r(1,9) by (simp add: k1_def)
    next
      case False
      obtain l Q1 where r: "boost c (Some t) k = Some (Inr (k1 l))" "kcore kd A (k1 l) Q1 {}" "mtx_struct kd (k1 l) Q1 M" "\<And>h. set (Q1 h) = set (Q h)"
        using boost_last [OF core st t lt False less.prems(4) k1] by blast
      have "inherits (k1 l) (Q1(mp := c # Q1 mp)) (M s) s" if "thread kd s" for s
        by (rule step [OF r(4) that]) (use waits_for(1) [OF core t] mtx_structD(7) [OF st that] False in blast)
      then show ?thesis using r tc less.prems(5) by (intro exI [of _ "(prio k)(t := p)"] exI [of _ l] exI [of _ Q1]) (simp add: k1_def)
    qed
  qed
qed

section \<open>Locking\<close>

lemma kcore_owner [simp]: "kcore kd A (k\<lparr>m_owner := a, m_next := b, mtxlist := d\<rparr>) Q X = kcore kd A k Q X" (is "?l = ?r")
proof -
  have "lives e (k\<lparr>m_owner := a, m_next := b, mtxlist := d\<rparr>) h t = lives e k h t" for e h t by (cases e) simp_all
  then show ?thesis by (simp add: kcore_def kglob_def tok_def)
qed

lemma kcore_realprio [simp]: "kcore kd A (k\<lparr>realprio := x\<rparr>) Q X = kcore kd A k Q X"
proof -
  have "lives e (k\<lparr>realprio := x\<rparr>) h t = lives e k h t" for e h t by (cases e) simp_all
  then show ?thesis by (simp add: kcore_def kglob_def tok_def)
qed

lemma mlinked_upd [simp]: "m \<notin> set ms \<Longrightarrow> mlinked (nx(m := x)) p ms = mlinked nx p ms"
  by (induction ms arbitrary: p) auto

lemma acquire_ok:
  assumes st: "mtx_struct kd k Q M" and inh: "\<And>t. thread kd t \<Longrightarrow> inherits k Q (M t) t" and c: "thread kd c" "ctx k c = []" and mp: "kd mp = KMtx" "m_owner k mp = None"
    and k': "k' = k\<lparr>m_owner := (m_owner k)(mp := Some c), m_next := (m_next k)(mp := mtxlist k c), mtxlist := (mtxlist k)(c := Some mp)\<rparr>"
  shows "mtx_inv kd k' Q (M(c := mp # M c))"
proof -
  note d = mtx_structD [OF st]
  have nm: "mp \<notin> set (M t)" if "thread kd t" for t using d(7) [OF that] mp(2) by simp
  have e: "Q mp = []" using d(9) mp by blast
  have "inherits k' Q ((M(c := mp # M c)) t) t" if "thread kd t" for t
    using inh [OF that] e by (auto simp: inherits_def k')
  moreover have "mframe kd k' Q t" if "thread kd t" for t
    using d(4) [OF that] c(2) mp(2) by (auto simp: mframe_def k')
  moreover have "mlinked (m_next k') (mtxlist k' t) ((M(c := mp # M c)) t)" "distinct ((M(c := mp # M c)) t)" if "thread kd t" for t
    using d(2,3) [OF that] nm [OF that] by (auto simp: k')
  moreover have "m \<in> set ((M(c := mp # M c)) t) \<longleftrightarrow> kd m = KMtx \<and> m_owner k' m = Some t" if "thread kd t" for t m
    using d(7) [OF that, of m] mp nm by (auto simp: k')
  moreover have "prio k' = prio k" "realprio k' = realprio k" "ctx k' = ctx k" by (simp_all add: k')
  ultimately show ?thesis using d c(1) e unfolding mtx_inv_def mtx_struct_def by (auto simp: k')
qed

lemma almost_start:
  assumes a: "inherits k Q ms t" and m: "mp \<in> set ms"
  shows "almost k (Q(mp := c # Q mp)) ms (prio k c) t"
proof -
  let ?Q = "Q(mp := c # Q mp)"
  have sub: "w \<in> set (Q n) \<Longrightarrow> w \<in> set (?Q n)" and new: "w \<in> set (?Q n) \<Longrightarrow> w = c \<or> w \<in> set (Q n)" for n w by (auto split: if_splits)
  show ?thesis unfolding almost_def
  proof (intro conjI ballI impI)
    show "prio k w \<le> max (prio k t) (prio k c)" if "n \<in> set ms" "w \<in> set (?Q n)" for n w
      using new [OF that(2)] a that(1) by (auto simp: inherits_def le_max_iff_disj)
    show "\<exists>n \<in> set ms. \<exists>w \<in> set (?Q n). prio k w = prio k c" using m by (intro bexI [of _ mp] bexI [of _ c]) auto
    show "prio k t = realprio k t \<or> (\<exists>n \<in> set ms. \<exists>w \<in> set (?Q n). prio k w = prio k t)" using a sub unfolding inherits_def by blast
  qed
qed

text \<open>The running thread joins the queue of the mutex and sleeps.\<close>

lemma wait_mtx_core:
  assumes core: "kcore kd A k Q {}" and c: "currp k = c" "ctx k c = []" "c \<noteq> IDLE" and mp: "kd mp = KMtx"
  shows "\<exists>l xs qs k'. queue_prio_insert (prio k) c mp (ql k) = Some l \<and>
    k' = chSchGoSleepS [F_mtx mp] CH_STATE_WTMTX (set_u c (U_obj mp) (k\<lparr>ql := l\<rparr>)) \<and> kcore kd A k' (Q(mp := xs, RL := qs)) {} \<and>
    top_prio k' (Q(mp := xs, RL := qs)) \<and> same_objects k k' \<and> ctx k' = (ctx k)(c := [F_mtx mp]) \<and>
    xs = insert_after (\<lambda>x. prio k c \<le> prio k x) c (Q mp) \<and> waiting k' mp c"
proof -
  note glob = kcore_glob [OF core] note g = kglobD [OF glob]
  let ?c = "\<lambda>x. x \<noteq> mp \<and> prio k c \<le> prio k x"
  have h: "mp \<noteq> RL" "hdr kd mp" using mp g(3) [of mp] by (auto simp: hdr_def)
  have lo: "loose {h. hdr kd h} Q c" using curr_loose(1) [OF core] c(1) by simp
  obtain cp where cp: "queue_scan ?c (ql k) mp = Some cp" "queues (insert_on_prev c cp (ql k)) {h. hdr kd h} (Q(mp := insert_after ?c c (Q mp)))"
    using queues_scan_insert [OF g(1) _ lo, of mp ?c] h by auto
  let ?l = "insert_on_prev c cp (ql k)" let ?xs = "insert_after (\<lambda>x. prio k c \<le> prio k x) c (Q mp)" let ?Q = "Q(mp := ?xs)"
  have ne: "x \<noteq> mp" if "x \<in> set (Q mp)" for x using queues_distinct [OF g(1), of mp] h(2) that by auto
  have xs: "insert_after ?c c (Q mp) = ?xs" using ne by (intro insert_after_cong) simp
  let ?k1 = "set_u c (U_obj mp) (k\<lparr>ql := ?l\<rparr>)"
  have "kcore kd A (k\<lparr>ql := ?l, cnt := cnt k\<rparr>) ?Q (insert c {})"
    by (rule kcore_insert [OF core h]) (use cp(2) xs g(5,9) c(1) mp in auto)
  then have "kcore kd A ?k1 ?Q {c}" by (rule kcore_local [where t = c]) auto
  then have c1: "kcore kd A ?k1 ?Q {currp ?k1}" using c(1) by simp
  have nq: "c \<notin> set (Q i)" if "hdr kd i" for i using lo that by (simp add: loose_def members_def)
  have nt: "tref k r \<noteq> Some c" "c \<notin> A" for r using curr_idle [OF core] c(1,2) by auto
  let ?k = "chSchGoSleepS [F_mtx mp] CH_STATE_WTMTX ?k1"
  have "\<exists>tp qs. ?Q RL = tp # qs \<and> kcore kd A ?k (?Q(RL := qs)) {} \<and> top_prio ?k (?Q(RL := qs)) \<and> currp ?k = tp \<and> same_objects ?k1 ?k \<and> tu ?k = tu ?k1"
  proof (rule go_sleep_ok [OF c1])
    show "lives (kd i) (set_state (currp ?k1) CH_STATE_WTMTX ?k1) i (currp ?k1)" if "hdr kd i" "currp ?k1 \<in> set (?Q i)" for i
      using that nq [OF that(1)] mp c(1) by (cases "i = mp") auto
    show "\<exists>i. hdr kd i \<and> currp ?k1 \<in> set (?Q i)" using h(2) c(1) by (intro exI [of _ mp]) simp
  qed (use c nt in \<open>simp_all add: state_defs\<close>)
  then obtain qs where s: "kcore kd A ?k (?Q(RL := qs)) {}" "top_prio ?k (?Q(RL := qs))" "same_objects ?k1 ?k" "currp ?k \<in> set (?Q RL)"
    "tu ?k = tu ?k1" by auto
  have "c \<noteq> currp ?k" using s(4) nq [OF hdr_RL [OF glob]] h(1) by auto
  then have "waiting ?k mp c" using c(1) s(5) by (auto simp: waiting_def chSchGoSleepS_def Let_def take_first_def split_beta)
  moreover have "queue_prio_insert (prio k) c mp (ql k) = Some ?l" using cp(1) by (simp add: queue_prio_insert_def)
  moreover have "same_objects k ?k" using s(3) by (simp add: same_objects_def)
  ultimately show ?thesis using s(1,2) c(1)
    by (intro exI [of _ ?l] exI [of _ ?xs] exI [of _ qs] exI [of _ ?k]) simp
qed

lemma wait_mtx_inv:
  assumes st: "mtx_struct kd k Q M" and inh: "\<And>s. thread kd s \<Longrightarrow> inherits k (Q(mp := c # Q mp)) (M s) s"
    and c: "\<And>m. kd m = KMtx \<Longrightarrow> c \<notin> set (Q m)" "c \<noteq> IDLE" and mp: "kd mp = KMtx" "m_owner k mp \<noteq> None" "kd RL \<noteq> KMtx"
    and k': "same_objects k k'" "ctx k' = (ctx k)(c := [F_mtx mp])" and xs: "xs = insert_after (\<lambda>x. prio k c \<le> prio k x) c (Q mp)"
  shows "mtx_inv kd k' (Q(mp := xs, RL := qs)) M"
proof -
  note d = mtx_structD [OF st]
  let ?Q = "Q(mp := xs, RL := qs)"
  have same: "prio k' = prio k" "realprio k' = realprio k" "mtxlist k' = mtxlist k" "m_owner k' = m_owner k" "m_next k' = m_next k"
    using k'(1) by (simp_all add: same_objects_def)
  have Q: "set (?Q m) = set ((Q(mp := c # Q mp)) m)" if "kd m = KMtx" for m using that mp(3) by (auto simp: xs)
  have "inherits k' ?Q (M s) s" if "thread kd s" for s
    using inh [OF that] by (rule inherits_frame) (use same Q d(7) [OF that] in auto)
  moreover have "mframe kd k' ?Q s" if "thread kd s" for s
  proof (cases "s = c")
    case True
    then show ?thesis using Q [OF mp(1)] mp(1) by (auto simp: mframe_def k'(2))
  next
    case False
    then have cs: "ctx k' s = ctx k s" by (simp add: k'(2))
    have "s \<in> set (?Q m)" if "kd m = KMtx" "s \<in> set (Q m)" for m using Q [OF that(1)] that(2) by (auto split: if_splits)
    then show ?thesis using d(4) [OF that] unfolding mframe_def same cs by blast
  qed
  moreover have "by_prio (prio k') (?Q m)" "m_owner k' m = None \<Longrightarrow> ?Q m = []" "\<forall>t \<in> set (?Q m). ctx k' t = [F_mtx m]" if "kd m = KMtx" for m
  proof -
    have rl: "m \<noteq> RL" using that mp(3) by auto
    have "by_prio (prio k) xs" unfolding xs by (rule by_prio_insert [OF d(8) [OF mp(1)]]) auto
    then show "by_prio (prio k') (?Q m)" using d(8) [OF that] rl by (simp add: same)
    show "m_owner k' m = None \<Longrightarrow> ?Q m = []" using d(9) [OF that] mp(2) rl by (auto simp: same)
    show "\<forall>t \<in> set (?Q m). ctx k' t = [F_mtx m]" using d(11) [OF that] rl c(1) [OF that] by (auto simp: k'(2) xs)
  qed
  moreover have "ctx k' IDLE = []" using d(12) c(2) by (simp add: k'(2))
  ultimately show ?thesis using d unfolding mtx_inv_def mtx_struct_def same by simp
qed

lemma chMtxLockS_ok:
  assumes run: "runs kd k" and mp: "kd mp = KMtx"
  shows "\<exists>k'. chMtxLockS mp k = Inr k' \<and> kernel_ok kd k' \<and>
    (if m_owner k mp = None then m_owner k' mp = Some (currp k) \<and> mtxlist k' (currp k) = Some mp \<and> currp k' = currp k
     else waiting k' mp (currp k) \<and> ctx k' (currp k) = [F_mtx mp] \<and> m_owner k' = m_owner k \<and> prio k' (currp k) = prio k (currp k))"
proof -
  obtain A Q M where r: "kcore kd A k Q {}" "timers_ok A k" "top_prio k Q" "ctx k (currp k) = []" "currp k \<noteq> IDLE" "mtx_inv kd k Q M"
    using run by (rule runsE)
  note g = kglobD [OF kcore_glob [OF r(1)]]
  have st: "mtx_struct kd k Q M" and inh: "\<And>t. thread kd t \<Longrightarrow> inherits k Q (M t) t" using r(6) by (simp_all add: mtx_inv_def)
  show ?thesis
  proof (cases "m_owner k mp")
    case None
    let ?k = "k\<lparr>m_owner := (m_owner k)(mp := Some (currp k)), m_next := (m_next k)(mp := mtxlist k (currp k)), mtxlist := (mtxlist k)(currp k := Some mp)\<rparr>"
    have "mtx_inv kd ?k Q (M(currp k := mp # M (currp k)))" by (rule acquire_ok [OF st inh g(5) r(4) mp None refl])
    moreover have "kcore kd A ?k Q {}" "timers_ok A ?k" "top_prio ?k Q" using r(1-3) by (simp_all add: timers_ok_def top_prio_def)
    ultimately have "kernel_ok kd ?k" unfolding kernel_ok_def by blast
    then show ?thesis using None by (simp add: chMtxLockS_def Let_def)
  next
    case (Some t)
    let ?c = "currp k"
    have t: "thread kd t" "mp \<in> set (M t)" using mtx_structD(10) [OF st mp Some] mtx_structD(7) [OF st] mp Some by auto
    have "inherits k (Q(mp := ?c # Q mp)) (M s) s" if "thread kd s" "s \<noteq> t" for s
      using inh [OF that(1)] by (rule inherits_frame) (use mtx_structD(7) [OF st that(1)] Some that(2) in auto)
    then obtain pr l Q1 where b: "boost ?c (Some t) k = Some (Inr (k\<lparr>prio := pr, ql := l\<rparr>))" "kcore kd A (k\<lparr>prio := pr, ql := l\<rparr>) Q1 {}"
        "mtx_struct kd (k\<lparr>prio := pr, ql := l\<rparr>) Q1 M" "\<And>s. thread kd s \<Longrightarrow> inherits (k\<lparr>prio := pr, ql := l\<rparr>) (Q1(mp := ?c # Q1 mp)) (M s) s"
        "pr ?c = prio k ?c"
      using boost_ok [OF r(1) st t(1) refl refl _ almost_start [OF inh [OF t(1)] t(2)]] by blast
    let ?k = "k\<lparr>prio := pr, ql := l\<rparr>"
    obtain l' xs qs k' where w: "queue_prio_insert (prio ?k) ?c mp (ql ?k) = Some l'"
        "k' = chSchGoSleepS [F_mtx mp] CH_STATE_WTMTX (set_u ?c (U_obj mp) (?k\<lparr>ql := l'\<rparr>))" "kcore kd A k' (Q1(mp := xs, RL := qs)) {}"
        "top_prio k' (Q1(mp := xs, RL := qs))" "same_objects ?k k'" "ctx k' = (ctx ?k)(?c := [F_mtx mp])"
        "xs = insert_after (\<lambda>x. prio ?k ?c \<le> prio ?k x) ?c (Q1 mp)" "waiting k' mp ?c"
      using wait_mtx_core [OF b(2) _ _ r(5) mp] r(4) by auto
    have nq: "?c \<notin> set (Q1 m)" if "kd m = KMtx" for m using curr_not_queued [OF b(2), of m] that by (simp add: hdr_def)
    have "mtx_inv kd k' (Q1(mp := xs, RL := qs)) M"
      by (rule wait_mtx_inv [OF b(3,4) nq r(5) mp _ _ w(5,6,7)]) (use Some g(3) [of RL] in simp_all)
    moreover have "timers_ok A k'" using r(2) same_objectsD(2) [OF w(5)] by (simp add: timers_ok_def)
    ultimately have "kernel_ok kd k'" using w(3,4) unfolding kernel_ok_def by blast
    moreover have "chMtxLockS mp k = Inr k'" using Some b(1) w(1) unfolding w(2) by (simp add: chMtxLockS_def Let_def)
    moreover have "m_owner k' = m_owner k" "ctx k' ?c = [F_mtx mp]" "prio k' ?c = prio k ?c" using w(5,6) b(5) by (simp_all add: same_objects_def)
    ultimately show ?thesis using Some w(8) by simp
  qed
qed

lemma chMtxTryLockS_ok:
  assumes run: "runs kd k" and mp: "kd mp = KMtx"
  shows "runs kd (snd (chMtxTryLockS mp k)) \<and> (fst (chMtxTryLockS mp k) \<longleftrightarrow> m_owner k mp = None) \<and>
    (m_owner k mp = None \<longrightarrow> m_owner (snd (chMtxTryLockS mp k)) mp = Some (currp k))"
proof (cases "m_owner k mp")
  case None
  then have "chMtxLockS mp k = Inr (snd (chMtxTryLockS mp k))" by (simp add: chMtxLockS_def chMtxTryLockS_def Let_def)
  then show ?thesis using chMtxLockS_ok [OF run mp] None run by (auto simp: runs_def chMtxTryLockS_def)
next
  case (Some t)
  then show ?thesis using run by (simp add: chMtxTryLockS_def)
qed

section \<open>Unlocking\<close>

lemma scan_owned_ok:
  assumes "mlinked (m_next k) p ms" "\<And>m. m \<in> set ms \<Longrightarrow> is_queue (ql k) m (Q m) \<and> by_prio (prio k) (Q m)"
  shows "\<exists>n'. scan_owned k p n = Some n' \<and> n \<le> n' \<and> (\<forall>m \<in> set ms. \<forall>w \<in> set (Q m). prio k w \<le> n') \<and>
    (n' = n \<or> (\<exists>m \<in> set ms. \<exists>w \<in> set (Q m). prio k w = n'))"
  using assms
proof (induction ms arbitrary: p n)
  case Nil
  then show ?case by (simp add: scan_owned.simps)
next
  case (Cons m ms)
  let ?n = "if chMtxQueueNotEmptyS m k \<and> prio k (qnext (ql k) m) > n then prio k (qnext (ql k) m) else n"
  obtain n' where n': "scan_owned k (m_next k m) ?n = Some n'" "?n \<le> n'" "\<forall>m \<in> set ms. \<forall>w \<in> set (Q m). prio k w \<le> n'"
      "n' = ?n \<or> (\<exists>m \<in> set ms. \<exists>w \<in> set (Q m). prio k w = n')"
    using Cons.IH [of "m_next k m" ?n] Cons.prems by auto
  have q: "is_queue (ql k) m (Q m)" "by_prio (prio k) (Q m)" using Cons.prems(2) by simp_all
  have "n \<le> ?n \<and> (\<forall>w \<in> set (Q m). prio k w \<le> ?n) \<and> (?n = n \<or> (\<exists>w \<in> set (Q m). prio k w = ?n))"
  proof (cases "Q m")
    case Nil
    then show ?thesis using queue_notempty_iff [OF q(1)] by (simp add: chMtxQueueNotEmptyS_def)
  next
    case (Cons w ws)
    then show ?thesis using queue_notempty_iff [OF q(1)] is_queue_ends(1) [OF q(1)] q(2) by (auto simp: chMtxQueueNotEmptyS_def by_prio_def)
  qed
  moreover have "scan_owned k p n = Some n'" using n'(1) Cons.prems(1) by (simp add: scan_owned.simps [of k "Some m"])
  ultimately show ?case using n'(2-4) by (intro exI [of _ n'] conjI) (simp, linarith, auto)
qed

lemma hand_over_core:
  assumes core: "kcore kd A k Q {}" and mp: "kd mp = KMtx" "Q mp = w # ws" and w: "ctx k w = [F_mtx mp]"
  shows "\<exists>l qs. hand_over mp k = Inr ((set_state w CH_STATE_READY k)\<lparr>ql := l, m_owner := (m_owner k)(mp := Some w),
        m_next := (m_next k)(mp := mtxlist k w), mtxlist := (mtxlist k)(w := Some mp)\<rparr>) \<and>
      kcore kd A ((set_state w CH_STATE_READY k)\<lparr>ql := l\<rparr>) (Q(mp := ws, RL := qs)) {} \<and> w \<noteq> currp k \<and> thread kd w"
proof -
  note glob = kcore_glob [OF core] note g = kglobD [OF glob]
  have h: "hdr kd mp" "mp \<noteq> RL" "w \<in> set (Q mp)" using mp g(3) [of mp] by (auto simp: hdr_def)
  have sem: "sem_ok (cnt k s) ((Q(mp := remove1 w (Q mp))) s)" if "kd s = KSem" for s using g(9) [OF that] that mp(1) by auto
  have eq: "k\<lparr>ql := queue_dequeue w (ql k), cnt := cnt k\<rparr> = k\<lparr>ql := queue_dequeue w (ql k)\<rparr>" by simp
  note lq = leave_queue [OF core h, of "cnt k", OF sem, unfolded eq]
  let ?k1 = "k\<lparr>ql := queue_dequeue w (ql k)\<rparr>" let ?Q = "Q(mp := ws)"
  let ?k2 = "?k1\<lparr>m_owner := (m_owner k)(mp := Some w), m_next := (m_next k)(mp := mtxlist k w), mtxlist := (mtxlist k)(w := Some mp)\<rparr>"
  have c: "kcore kd A ?k2 ?Q {w}" using lq(1) mp(2) by simp
  have ri: "ready_inv kd A ?k2 ?Q w" using lq(2) mp(2) w by (simp add: ready_inv_def)
  have st: "kstate ?k2 w \<notin> {CH_STATE_READY, CH_STATE_FINAL}" using lq(3) by simp
  obtain l where l: "chSchReadyI w ?k2 = Inr ((set_state w CH_STATE_READY ?k2)\<lparr>ql := l\<rparr>)"
      "kcore kd A ((set_state w CH_STATE_READY ?k2)\<lparr>ql := l\<rparr>) (?Q(RL := insert_after (\<lambda>x. prio ?k2 w \<le> prio ?k2 x) w (?Q RL))) ({w} - {w})"
    using ready_ok [OF c ri st] by blast
  let ?k = "(set_state w CH_STATE_READY k)\<lparr>ql := l\<rparr>"
  have eq: "(set_state w CH_STATE_READY ?k2)\<lparr>ql := l\<rparr> =
      ?k\<lparr>m_owner := (m_owner k)(mp := Some w), m_next := (m_next k)(mp := mtxlist k w), mtxlist := (mtxlist k)(w := Some mp)\<rparr>"
    by (simp add: set_state_def)
  have "queue_fifo_remove mp (ql k) = (w, queue_dequeue w (ql k))" using queues_fifo(1) [OF g(1) _ mp(2)] h(1) by simp
  then have "hand_over mp k = chSchReadyI w ?k2" by (simp add: hand_over_def)
  moreover have "kcore kd A ?k (?Q(RL := insert_after (\<lambda>x. prio k w \<le> prio k x) w (?Q RL))) {}" using l(2) unfolding eq kcore_owner by simp
  ultimately show ?thesis using l(1) lq(4) lq(2) unfolding eq
    by (intro exI [of _ l] exI [of _ "insert_after (\<lambda>x. prio k w \<le> prio k x) w (?Q RL)"]) (simp add: ready_inv_def)
qed

text \<open>The running thread \<open>c\<close> gives up its first mutex, which becomes free or goes to the first waiting thread.\<close>

lemma struct_prio:
  assumes "mtx_struct kd k Q M" "\<And>m. kd m = KMtx \<Longrightarrow> c \<notin> set (Q m)" "realprio k c \<le> n"
  shows "mtx_struct kd (k\<lparr>prio := (prio k)(c := n)\<rparr>) Q M"
  using assms unfolding mtx_struct_def mframe_def by simp

lemma release_free:
  assumes st: "mtx_struct kd k Q M" and c: "thread kd c" "M c = mp # ms" "ctx k c = []" and e: "Q mp = []"
    and k': "k' = k\<lparr>mtxlist := (mtxlist k)(c := m_next k mp), m_owner := (m_owner k)(mp := None)\<rparr>"
  shows "mtx_struct kd k' Q (M(c := ms))" "inherits k Q (M t) t \<Longrightarrow> inherits k' Q ((M(c := ms)) t) t"
proof -
  note d = mtx_structD [OF st]
  have own: "kd mp = KMtx" "m_owner k mp = Some c" using d(7) [OF c(1), of mp] c(2) by simp_all
  have ms: "mp \<notin> set ms" "distinct ms" "mlinked (m_next k) (m_next k mp) ms" using d(2,3) [OF c(1)] c(2) by simp_all
  have "mlinked (m_next k') (mtxlist k' t) ((M(c := ms)) t)" "distinct ((M(c := ms)) t)" if "thread kd t" for t
    using d(2,3) [OF that] ms by (auto simp: k')
  moreover have "m \<in> set ((M(c := ms)) t) \<longleftrightarrow> kd m = KMtx \<and> m_owner k' m = Some t" if "thread kd t" for t m
    using d(7) [OF that, of m] own ms(1) c(2) by (cases "t = c") (auto simp: k')
  moreover have "mframe kd k' Q t" if "thread kd t" for t
  proof (cases "t = c")
    case False
    then show ?thesis using d(4) [OF that] own(2) unfolding mframe_def by (auto simp: k')
  qed (simp add: mframe_def k' c(3))
  moreover have "prio k' = prio k" "realprio k' = realprio k" "ctx k' = ctx k" by (simp_all add: k')
  ultimately show "mtx_struct kd k' Q (M(c := ms))" using d e unfolding mtx_struct_def by (auto simp: k')
  show "inherits k Q (M t) t \<Longrightarrow> inherits k' Q ((M(c := ms)) t) t" using e c(2) by (auto simp: inherits_def k')
qed

lemma inherits_add: "inherits k Q ms t \<Longrightarrow> (\<And>v. v \<in> set (Q m) \<Longrightarrow> prio k v \<le> prio k t) \<Longrightarrow> inherits k Q (m # ms) t"
  unfolding inherits_def by auto

lemma release_hand:
  assumes st: "mtx_struct kd k Q M" and c: "thread kd c" "M c = mp # ms" "ctx k c = []" and Q: "Q mp = w # ws" "kd RL \<noteq> KMtx"
    and w: "w \<noteq> c" "thread kd w"
    and k': "mtxlist k' = (mtxlist k)(c := m_next k mp, w := Some mp)" "m_owner k' = (m_owner k)(mp := Some w)"
      "m_next k' = (m_next k)(mp := mtxlist k w)" "prio k' = prio k" "realprio k' = realprio k" "ctx k' = ctx k"
  shows "mtx_struct kd k' (Q(mp := ws, RL := qs)) (M(c := ms, w := mp # M w))"
    "thread kd t \<Longrightarrow> t \<noteq> c \<Longrightarrow> inherits k Q (M t) t \<Longrightarrow> inherits k' (Q(mp := ws, RL := qs)) ((M(c := ms, w := mp # M w)) t) t"
proof -
  note d = mtx_structD [OF st]
  let ?Q = "Q(mp := ws, RL := qs)" let ?M = "M(c := ms, w := mp # M w)"
  have own: "kd mp = KMtx" "m_owner k mp = Some c" using d(7) [OF c(1), of mp] c(2) by simp_all
  have ms: "mp \<notin> set ms" "distinct ms" "mlinked (m_next k) (m_next k mp) ms" using d(2,3) [OF c(1)] c(2) by simp_all
  have nm: "mp \<notin> set (M t)" if "thread kd t" "t \<noteq> c" for t using d(7) [OF that(1)] own(2) that(2) by simp
  have rl: "m \<noteq> RL" if "kd m = KMtx" for m using that Q(2) by auto
  have qm: "?Q m = (if m = mp then ws else Q m)" if "kd m = KMtx" for m using rl [OF that] by simp
  have cw: "ctx k w = [F_mtx mp]" using d(11) [OF own(1)] Q(1) by simp
  have "mlinked (m_next k') (mtxlist k' t) (?M t)" "distinct (?M t)" if "thread kd t" for t
    using d(2,3) [OF that] ms nm [OF that] w(1) by (auto simp: k')
  moreover have "m \<in> set (?M t) \<longleftrightarrow> kd m = KMtx \<and> m_owner k' m = Some t" if "thread kd t" for t m
    using d(7) [OF that, of m] own ms(1) c(2) w(1) by (auto simp: k')
  moreover have "mframe kd k' ?Q t" if "thread kd t" for t
  proof -
    consider "t = c" | "t = w" | "t \<noteq> c" "t \<noteq> w" by blast
    then show ?thesis
    proof cases
      case 1
      then show ?thesis by (simp add: mframe_def k' c(3))
    next
      case 2
      then show ?thesis using own(1) cw w(1) by (auto simp: mframe_def k')
    next
      case 3
      have "t \<in> set (?Q m) \<longleftrightarrow> t \<in> set (Q m)" if "kd m = KMtx" for m using qm [OF that] Q(1) 3(2) by auto
      moreover have "m_owner k' m = Some t \<longleftrightarrow> m_owner k m = Some t" "mtxlist k' t = mtxlist k t" for m using 3 own(2) by (auto simp: k')
      ultimately show ?thesis using d(4) [OF that] unfolding mframe_def k'(6) by metis
    qed
  qed
  moreover have "by_prio (prio k) (?Q m)" "m_owner k' m = None \<longrightarrow> ?Q m = []" "\<forall>t. m_owner k' m = Some t \<longrightarrow> thread kd t"
    "\<forall>t \<in> set (?Q m). ctx k t = [F_mtx m]" if "kd m = KMtx" for m
    using d(8-11) [OF that] d(8,11) [OF own(1)] Q(1) w(2) unfolding qm [OF that] by (auto simp: k' by_prio_def)
  ultimately show "mtx_struct kd k' ?Q ?M" using d unfolding mtx_struct_def k'(4-6) by simp
  assume t: "thread kd t" "t \<noteq> c" and i: "inherits k Q (M t) t"
  have "set (?Q m) = set (Q m)" if "m \<in> set (M t)" for m using qm nm [OF t] that d(7) [OF t(1), of m] by auto
  then have "inherits k' ?Q (M t) t" by (intro inherits_frame [OF i k'(4,5)])
  moreover have "prio k' v \<le> prio k' w" if "v \<in> set (?Q mp)" for v using d(8) [OF own(1)] Q(1) qm [OF own(1)] that by (simp add: by_prio_def k'(4))
  ultimately show "inherits k' ?Q (?M t) t" using t(2) inherits_add [of k' ?Q "M t" t mp] by (cases "t = w") simp_all
qed

lemma inherits_prio:
  assumes "inherits k Q ms t" "t \<noteq> c" "\<And>m. m \<in> set ms \<Longrightarrow> c \<notin> set (Q m)"
  shows "inherits (k\<lparr>prio := (prio k)(c := n)\<rparr>) Q ms t"
proof -
  have "((prio k)(c := n)) w = prio k w" if "m \<in> set ms" "w \<in> set (Q m)" for m w using assms(3) [OF that(1)] that(2) by auto
  then show ?thesis using assms(1,2) unfolding inherits_def by simp
qed

text \<open>What a release leaves: all threads but the running one have their priorities.\<close>

definition released :: "(node \<Rightarrow> kind) \<Rightarrow> node set \<Rightarrow> kernel \<Rightarrow> node list \<Rightarrow> kernel \<Rightarrow> bool" where
  "released kd A k ms k' \<longleftrightarrow>
     (\<exists>Q' M'. kcore kd A k' Q' {} \<and> mtx_struct kd k' Q' M' \<and> M' (currp k) = ms \<and> (\<forall>t. thread kd t \<longrightarrow> t \<noteq> currp k \<longrightarrow> inherits k' Q' (M' t) t)) \<and>
     realprio k' = realprio k \<and> vtl k' = vtl k \<and> currp k' = currp k \<and> ctx k' = ctx k"

lemma release_ok:
  assumes core: "kcore kd A k Q {}" and st: "mtx_struct kd k Q M" and run: "ctx k (currp k) = []" and M: "M (currp k) = mp # ms"
    and ot: "\<forall>t. thread kd t \<longrightarrow> t \<noteq> currp k \<longrightarrow> inherits k Q (M t) t"
    and k0: "k0 = k\<lparr>mtxlist := (mtxlist k)(currp k := m_next k mp)\<rparr>" and n: "realprio k (currp k) \<le> n"
  shows "chMtxQueueNotEmptyS mp k0 \<longleftrightarrow> Q mp \<noteq> []"
    "Q mp = [] \<Longrightarrow> released kd A k ms (k0\<lparr>m_owner := (m_owner k0)(mp := None)\<rparr>)"
    "Q mp = w # ws \<Longrightarrow> \<exists>k' Q' M'. hand_over mp (k0\<lparr>prio := (prio k0)(currp k := n)\<rparr>) = Inr k' \<and> released kd A k ms k' \<and>
      prio k' = (prio k)(currp k := n) \<and> m_owner k' = (m_owner k)(mp := Some w) \<and>
      kcore kd A k' Q' {} \<and> mtx_struct kd k' Q' M' \<and> M' (currp k) = ms \<and> (\<forall>t. thread kd t \<longrightarrow> t \<noteq> currp k \<longrightarrow> inherits k' Q' (M' t) t) \<and>
      (\<forall>m \<in> set ms. Q' m = Q m)"
proof -
  note glob = kcore_glob [OF core] note g = kglobD [OF glob] note d = mtx_structD [OF st]
  let ?c = "currp k"
  have inh: "\<And>t. thread kd t \<Longrightarrow> t \<noteq> ?c \<Longrightarrow> inherits k Q (M t) t" using ot by blast
  have own: "kd mp = KMtx" "hdr kd mp" using d(7) [OF g(5), of mp] M by (simp_all add: hdr_def)
  have rl: "kd RL \<noteq> KMtx" using g(3) [of RL] by simp
  have nq: "?c \<notin> set (Q m)" if "kd m = KMtx" for m using curr_not_queued [OF core, of m] that by (simp add: hdr_def)
  have "is_queue (ql k) mp (Q mp)" using queuesD [OF g(1)] own(2) by simp
  then show "chMtxQueueNotEmptyS mp k0 \<longleftrightarrow> Q mp \<noteq> []" using queue_notempty_iff by (simp add: chMtxQueueNotEmptyS_def k0)
  have eq: "k\<lparr>mtxlist := x, m_owner := y\<rparr> = k\<lparr>m_owner := y, m_next := m_next k, mtxlist := x\<rparr>" for x y by simp
  show "released kd A k ms (k0\<lparr>m_owner := (m_owner k0)(mp := None)\<rparr>)" if e: "Q mp = []"
  proof -
    let ?k = "k0\<lparr>m_owner := (m_owner k0)(mp := None)\<rparr>"
    have kk: "?k = k\<lparr>mtxlist := (mtxlist k)(?c := m_next k mp), m_owner := (m_owner k)(mp := None)\<rparr>" by (simp add: k0)
    note rf = release_free [OF st g(5) M run e kk]
    have "kcore kd A ?k Q {}" unfolding kk eq kcore_owner by (rule core)
    moreover have "inherits ?k Q ((M(?c := ms)) t) t" if "thread kd t" "t \<noteq> ?c" for t using rf(2) inh [OF that] by blast
    ultimately have "\<exists>Q' M'. kcore kd A ?k Q' {} \<and> mtx_struct kd ?k Q' M' \<and> M' ?c = ms \<and> (\<forall>t. thread kd t \<longrightarrow> t \<noteq> ?c \<longrightarrow> inherits ?k Q' (M' t) t)"
      using rf(1) by (rule_tac exI [of _ Q], rule_tac exI [of _ "M(?c := ms)"]) simp
    then show ?thesis unfolding released_def by (simp add: k0)
  qed
  assume Q: "Q mp = w # ws"
  let ?k1 = "k\<lparr>prio := (prio k)(?c := n)\<rparr>" let ?k2 = "k0\<lparr>prio := (prio k0)(?c := n)\<rparr>"
  have "?c \<notin> set (Q RL)" "0 < n" using curr_not_queued [OF core hdr_RL [OF glob]] d(6) [OF g(5)] n by auto
  then have c1: "kcore kd A ?k1 Q {}" by (intro kcore_prio [OF core g(5)])
  have s1: "mtx_struct kd ?k1 Q M" by (rule struct_prio [OF st nq n])
  have k2: "?k2 = ?k1\<lparr>m_owner := m_owner k, m_next := m_next k, mtxlist := (mtxlist k)(?c := m_next k mp)\<rparr>" by (simp add: k0)
  have c2: "kcore kd A ?k2 Q {}" unfolding k2 kcore_owner by (rule c1)
  have "ctx ?k2 w = [F_mtx mp]" using d(11) [OF own(1)] Q by (simp add: k0)
  then obtain l qs where h: "hand_over mp ?k2 = Inr ((set_state w CH_STATE_READY ?k2)\<lparr>ql := l, m_owner := (m_owner ?k2)(mp := Some w),
        m_next := (m_next ?k2)(mp := mtxlist ?k2 w), mtxlist := (mtxlist ?k2)(w := Some mp)\<rparr>)"
      "kcore kd A ((set_state w CH_STATE_READY ?k2)\<lparr>ql := l\<rparr>) (Q(mp := ws, RL := qs)) {}" "w \<noteq> currp ?k2" "thread kd w"
    using hand_over_core [OF c2 own(1) Q] by blast
  let ?k = "(set_state w CH_STATE_READY ?k2)\<lparr>ql := l, m_owner := (m_owner ?k2)(mp := Some w), m_next := (m_next ?k2)(mp := mtxlist ?k2 w),
    mtxlist := (mtxlist ?k2)(w := Some mp)\<rparr>"
  have wc: "w \<noteq> ?c" using h(3) by (simp add: k0)
  have M1: "M (currp ?k1) = mp # ms" "ctx ?k1 ?c = []" using M run by simp_all
  have fld: "mtxlist ?k = (mtxlist ?k1)(?c := m_next ?k1 mp, w := Some mp)" "m_owner ?k = (m_owner ?k1)(mp := Some w)"
      "m_next ?k = (m_next ?k1)(mp := mtxlist ?k1 w)" "prio ?k = prio ?k1" "realprio ?k = realprio ?k1" "ctx ?k = ctx ?k1"
    using wc by (simp_all add: k0)
  note rh = release_hand [where qs = qs, OF s1 g(5) M M1(2) Q rl wc h(4) fld]
  have ik: "inherits ?k1 Q (M t) t" if "thread kd t" "t \<noteq> ?c" for t
    by (rule inherits_prio [OF inh [OF that] that(2)]) (use nq d(7) [OF that(1)] in auto)
  have Qm: "(Q(mp := ws, RL := qs)) m = Q m" if "m \<in> set ms" for m
    using that d(3,7) [OF g(5)] M rl by (metis distinct.simps(2) fun_upd_other list.set_intros(2))
  have kc: "kcore kd A ?k (Q(mp := ws, RL := qs)) {}" using h(2) kcore_owner by metis
  have f2: "realprio ?k = realprio k" "vtl ?k = vtl k" "currp ?k = ?c" "ctx ?k = ctx k" "prio ?k = (prio k)(?c := n)" "m_owner ?k = (m_owner k)(mp := Some w)"
    by (simp_all add: k0)
  have mc: "(M(?c := ms, w := mp # M w)) ?c = ms" using wc by simp
  have ot: "inherits ?k (Q(mp := ws, RL := qs)) ((M(?c := ms, w := mp # M w)) t) t" if "thread kd t" "t \<noteq> ?c" for t
    by (rule rh(2) [OF that ik [OF that]])
  have "released kd A k ms ?k" unfolding released_def using kc rh(1) mc ot f2(1-4) by blast
  then show "\<exists>k' Q' M'. hand_over mp ?k2 = Inr k' \<and> released kd A k ms k' \<and>
      prio k' = (prio k)(currp k := n) \<and> m_owner k' = (m_owner k)(mp := Some w) \<and>
      kcore kd A k' Q' {} \<and> mtx_struct kd k' Q' M' \<and> M' (currp k) = ms \<and> (\<forall>t. thread kd t \<longrightarrow> t \<noteq> currp k \<longrightarrow> inherits k' Q' (M' t) t) \<and>
      (\<forall>m \<in> set ms. Q' m = Q m)"
    using h(1) f2(5,6) kc rh(1) mc ot Qm by blast
qed

text \<open>What becomes of an unlocked mutex: it goes to a waiting thread of the highest priority.\<close>

definition passed_on :: "(node \<Rightarrow> kind) \<Rightarrow> node \<Rightarrow> kernel \<Rightarrow> kernel \<Rightarrow> bool" where
  "passed_on kd mp k k' \<longleftrightarrow>
     (case m_owner k' mp of
        None \<Rightarrow> \<forall>t. thread kd t \<longrightarrow> \<not> waiting k mp t
      | Some w \<Rightarrow> thread kd w \<and> waiting k mp w \<and> (\<forall>t. thread kd t \<longrightarrow> waiting k mp t \<longrightarrow> prio k t \<le> prio k w))"

lemma unlock_ok:
  assumes run: "runs kd k" and mp: "mtxlist k (currp k) = Some mp"
  shows "\<exists>k'. chMtxUnlockS mp k = Inr k' \<and> unscheduled kd k' \<and> currp k' = currp k \<and> passed_on kd mp k k' \<and>
    (m_owner k' mp = None \<longrightarrow> chMtxUnlock mp k = Inr k' \<and> runs kd k') \<and> (m_owner k' mp \<noteq> None \<longrightarrow> chMtxUnlock mp k = chSchRescheduleS k')"
proof -
  obtain A Q M where r: "kcore kd A k Q {}" "timers_ok A k" "top_prio k Q" "ctx k (currp k) = []" "currp k \<noteq> IDLE" "mtx_inv kd k Q M"
    using run by (rule runsE)
  let ?c = "currp k" let ?k0 = "k\<lparr>mtxlist := (mtxlist k)(?c := m_next k mp)\<rparr>"
  note g = kglobD [OF kcore_glob [OF r(1)]]
  have st: "mtx_struct kd k Q M" and inh: "\<And>t. thread kd t \<Longrightarrow> inherits k Q (M t) t" using r(6) by (simp_all add: mtx_inv_def)
  note d = mtx_structD [OF st]
  obtain ms where M: "M ?c = mp # ms" using d(2) [OF g(5)] mp by (cases "M ?c") auto
  have own: "kd mp = KMtx" "m_owner k mp = Some ?c" "mp \<notin> set ms" using d(3,7) [OF g(5)] M by auto
  have ot: "\<forall>t. thread kd t \<longrightarrow> t \<noteq> ?c \<longrightarrow> inherits k Q (M t) t" using inh by blast
  show ?thesis
  proof (cases "Q mp")
    case Nil
    note ro = release_ok(1,2) [OF r(1) st r(4) M ot refl d(5) [OF g(5)]]
    let ?k = "?k0\<lparr>m_owner := (m_owner ?k0)(mp := None)\<rparr>"
    have kk: "?k = k\<lparr>mtxlist := (mtxlist k)(?c := m_next k mp), m_owner := (m_owner k)(mp := None)\<rparr>" by simp
    note rf = release_free [OF st g(5) M r(4) Nil kk]
    have "mtx_inv kd ?k Q (M(?c := ms))" unfolding mtx_inv_def using rf inh by blast
    moreover have "?k = k\<lparr>m_owner := (m_owner k)(mp := None), m_next := m_next k, mtxlist := (mtxlist k)(?c := m_next k mp)\<rparr>" by simp
    then have "kcore kd A ?k Q {}" using r(1) kcore_owner by metis
    moreover have "timers_ok A ?k" "top_prio ?k Q" using r(2,3) by (simp_all add: timers_ok_def top_prio_def)
    ultimately have "kernel_ok kd ?k" unfolding kernel_ok_def by blast
    then have rn: "runs kd ?k" using r(4,5) by (simp add: runs_def)
    have op: "chMtxUnlockS mp k = Inr ?k" "chMtxUnlock mp k = Inr ?k"
      using ro(1) Nil mp own by (simp_all add: chMtxUnlockS_def chMtxUnlock_def Let_def)
    have po: "passed_on kd mp k ?k" using waiting_iff [OF r(1) own(1)] Nil by (simp add: passed_on_def)
    show ?thesis using op rn runs_unscheduled [OF rn] po by (intro exI [of _ ?k]) simp
  next
    case (Cons w ws)
    have q: "is_queue (ql ?k0) m (Q m) \<and> by_prio (prio ?k0) (Q m)" if "m \<in> set ms" for m
      using queuesD [OF g(1), of m] d(7) [OF g(5), of m] d(8) [of m] M that by (auto simp: hdr_def)
    have ml: "mlinked (m_next ?k0) (mtxlist ?k0 ?c) ms" using d(2) [OF g(5)] M by simp
    obtain n where n: "scan_owned ?k0 (mtxlist ?k0 ?c) (realprio ?k0 ?c) = Some n" "realprio k ?c \<le> n" "\<forall>m \<in> set ms. \<forall>w \<in> set (Q m). prio k w \<le> n"
        "n = realprio k ?c \<or> (\<exists>m \<in> set ms. \<exists>w \<in> set (Q m). prio k w = n)"
      using scan_owned_ok [OF ml q, of "realprio ?k0 ?c"] by auto
    note ro = release_ok(1,3) [OF r(1) st r(4) M ot refl n(2)]
    obtain k' Q' M' where k': "hand_over mp (?k0\<lparr>prio := (prio ?k0)(?c := n)\<rparr>) = Inr k'" "released kd A k ms k'" "prio k' = (prio k)(?c := n)"
        "m_owner k' = (m_owner k)(mp := Some w)" "kcore kd A k' Q' {}" "mtx_struct kd k' Q' M'" "M' ?c = ms"
        "\<And>t. thread kd t \<Longrightarrow> t \<noteq> ?c \<Longrightarrow> inherits k' Q' (M' t) t" "\<And>m. m \<in> set ms \<Longrightarrow> Q' m = Q m"
      using ro(2) [OF Cons] by blast
    have f: "realprio k' = realprio k" "vtl k' = vtl k" "currp k' = ?c" "ctx k' = ctx k" using k'(2) by (simp_all add: released_def)
    have nq: "?c \<notin> set (Q m)" if "m \<in> set ms" for m using curr_not_queued [OF r(1), of m] d(7) [OF g(5), of m] M that by (simp add: hdr_def)
    have pw: "prio k' v = prio k v" if "m \<in> set ms" "v \<in> set (Q m)" for m v using nq [OF that(1)] that(2) by (auto simp: k'(3))
    have "prio k' ?c = n" by (simp add: k'(3))
    then have "inherits k' Q' ms ?c" unfolding inherits_def f(1) using n(3,4) k'(9) pw by simp
    then have "mtx_inv kd k' Q' M'" unfolding mtx_inv_def using k'(6,7,8) by metis
    moreover have "timers_ok A k'" using r(2) f(2) by (simp add: timers_ok_def)
    ultimately have u: "unscheduled kd k'" unfolding unscheduled_def using k'(5) f(3,4) r(4) by auto
    have op: "chMtxUnlockS mp k = Inr k'" "chMtxUnlock mp k = chSchRescheduleS k'"
      using ro(1) Cons mp own n(1) k'(1) by (simp_all add: chMtxUnlockS_def chMtxUnlock_def Let_def)
    have "prio k t \<le> prio k w" if "t \<in> set (Q mp)" for t using d(8) [OF own(1)] Cons that by (auto simp: by_prio_def)
    moreover have "w \<in> set (Q mp)" using Cons by simp
    ultimately have "passed_on kd mp k k'" unfolding passed_on_def k'(4) using waiting_iff [OF r(1) own(1)] by simp
    then show ?thesis using op u f(3) k'(4) by (intro exI [of _ k']) simp
  qed
qed

lemma chMtxUnlock_ok:
  assumes run: "runs kd k" and mp: "mtxlist k (currp k) = Some mp"
  shows "\<exists>k'. chMtxUnlock mp k = Inr k' \<and> kernel_ok kd k' \<and> passed_on kd mp k k'"
proof -
  obtain k1 where k1: "unscheduled kd k1" "passed_on kd mp k k1" "m_owner k1 mp = None \<longrightarrow> chMtxUnlock mp k = Inr k1 \<and> runs kd k1"
      "m_owner k1 mp \<noteq> None \<longrightarrow> chMtxUnlock mp k = chSchRescheduleS k1"
    using unlock_ok [OF run mp] by (elim exE conjE) (rule that)
  show ?thesis
  proof (cases "m_owner k1 mp = None")
    case True
    then have "chMtxUnlock mp k = Inr k1" "kernel_ok kd k1" using k1(3) by (simp_all add: runs_def)
    then show ?thesis using k1(2) by (intro exI [of _ k1]) simp
  next
    case False
    obtain k' where k': "chSchRescheduleS k1 = Inr k'" "kernel_ok kd k'" "same_objects k1 k'" using reschedule_unscheduled [OF k1(1)] by blast
    have "passed_on kd mp k k'" using k1(2) k'(3) by (simp add: passed_on_def same_objects_def)
    then show ?thesis using k'(1,2) k1(4) False by (intro exI [of _ k']) simp
  qed
qed

lemma release_all:
  assumes "kcore kd A k Q {}" "mtx_struct kd k Q M" "ctx k c = []" "currp k = c" "\<forall>t. thread kd t \<longrightarrow> t \<noteq> c \<longrightarrow> inherits k Q (M t) t"
  shows "\<exists>k'. release_loop c k = Some (Inr k') \<and> released kd A k [] k'"
  using assms
proof (induction "M c" arbitrary: k Q M)
  case Nil
  have "thread kd c" using kglobD(5) [OF kcore_glob [OF Nil(2)]] Nil(5) by simp
  then have "mtxlist k c = None" using mtx_structD(2) [OF Nil(3), of c] Nil(1) [symmetric] by simp
  then have "release_loop c k = Some (Inr k)" by (simp add: release_loop.simps [of c k])
  moreover have "released kd A k [] k" unfolding released_def using Nil(1,2,3,5,6) by metis
  ultimately show ?case by blast
next
  case (Cons mp ms)
  note core = Cons(3) and st = Cons(4) and c = Cons(6)
  have th: "thread kd c" using kglobD(5) [OF kcore_glob [OF core]] c by simp
  have M: "M (currp k) = mp # ms" "ctx k (currp k) = []" using Cons(2,5) c by simp_all
  have ml: "mtxlist k c = Some mp" using mtx_structD(2) [OF st th] Cons(2) [symmetric] by simp
  let ?k0 = "k\<lparr>mtxlist := (mtxlist k)(currp k := m_next k mp)\<rparr>"
  have ot: "\<forall>t. thread kd t \<longrightarrow> t \<noteq> currp k \<longrightarrow> inherits k Q (M t) t" using Cons(7) c by simp
  have rp: "realprio k (currp k) \<le> prio k (currp k)" using mtx_structD(5) [OF st] th c by simp
  note ro = release_ok [OF core st M(2,1) ot refl rp]
  have same: "?k0\<lparr>prio := (prio ?k0)(currp k := prio k (currp k))\<rparr> = ?k0" by simp
  define r where "r = (if chMtxQueueNotEmptyS mp ?k0 then hand_over mp ?k0 else Inr (?k0\<lparr>m_owner := (m_owner ?k0)(mp := None)\<rparr>))"
  have "\<exists>k1. r = Inr k1 \<and> released kd A k ms k1"
    using ro unfolding same by (cases "Q mp") (auto simp: r_def)
  then obtain k1 where k1: "r = Inr k1" "released kd A k ms k1" by blast
  then obtain Q1 M1 where q: "kcore kd A k1 Q1 {}" "mtx_struct kd k1 Q1 M1" "M1 (currp k) = ms"
      "\<forall>t. thread kd t \<longrightarrow> t \<noteq> currp k \<longrightarrow> inherits k1 Q1 (M1 t) t"
    and f: "realprio k1 = realprio k" "vtl k1 = vtl k" "currp k1 = currp k" "ctx k1 = ctx k" by (auto simp: released_def)
  have "\<exists>k'. release_loop c k1 = Some (Inr k') \<and> released kd A k1 [] k'"
    by (rule Cons.hyps(1)) (use q f c Cons(5) in simp_all)
  then obtain k' where k': "release_loop c k1 = Some (Inr k')" "released kd A k1 [] k'" by blast
  have "release_loop c k = release_loop c k1" using ml k1(1) [unfolded r_def c]
    by (subst release_loop.simps) (auto simp: Let_def split: if_splits)
  moreover have "released kd A k [] k'" using k'(2) f unfolding released_def by simp
  ultimately show ?case using k'(1) by simp
qed

lemma unlock_all_ok:
  assumes run: "runs kd k"
  shows "\<exists>k'. chMtxUnlockAllS k = Inr k' \<and> unscheduled kd k' \<and> currp k' = currp k \<and> prio k' (currp k) = realprio k (currp k) \<and> mtxlist k' (currp k) = None"
    "\<exists>k'. chMtxUnlockAll k = Inr k' \<and> kernel_ok kd k' \<and> mtxlist k' (currp k) = None"
proof -
  obtain A Q M where r: "kcore kd A k Q {}" "timers_ok A k" "top_prio k Q" "ctx k (currp k) = []" "currp k \<noteq> IDLE" "mtx_inv kd k Q M"
    using run by (rule runsE)
  let ?c = "currp k"
  have st: "mtx_struct kd k Q M" and inh: "\<forall>t. thread kd t \<longrightarrow> t \<noteq> ?c \<longrightarrow> inherits k Q (M t) t" using r(6) by (simp_all add: mtx_inv_def)
  obtain k1 where k1: "release_loop ?c k = Some (Inr k1)" "released kd A k [] k1" using release_all [OF r(1) st r(4) refl inh] by blast
  then obtain Q1 M1 where q: "kcore kd A k1 Q1 {}" "mtx_struct kd k1 Q1 M1" "M1 ?c = []" "\<And>t. thread kd t \<Longrightarrow> t \<noteq> ?c \<Longrightarrow> inherits k1 Q1 (M1 t) t"
    and f: "realprio k1 = realprio k" "vtl k1 = vtl k" "currp k1 = ?c" "ctx k1 = ctx k" by (auto simp: released_def)
  note g = kglobD [OF kcore_glob [OF q(1)]] note d = mtx_structD [OF q(2)]
  have th: "thread kd ?c" using g(5) f(3) by simp
  have nq: "?c \<notin> set (Q1 m)" if "hdr kd m" for m using curr_not_queued [OF q(1) that] f(3) by simp
  let ?k = "k1\<lparr>prio := (prio k1)(?c := realprio k1 ?c)\<rparr>"
  have c: "kcore kd A ?k Q1 {}" by (rule kcore_prio [OF q(1) th nq [OF hdr_RL [OF kcore_glob [OF q(1)]]] d(6) [OF th]])
  have s: "mtx_struct kd ?k Q1 M1" by (rule struct_prio [OF q(2)]) (use nq in \<open>simp_all add: hdr_def\<close>)
  have "inherits ?k Q1 (M1 t) t" if "thread kd t" for t
  proof (cases "t = ?c")
    case True
    then show ?thesis using q(3) by (simp add: inherits_def)
  next
    case False
    then show ?thesis using d(7) [OF that] nq by (intro inherits_prio [OF q(4) [OF that]]) (auto simp: hdr_def)
  qed
  then have "mtx_inv kd ?k Q1 M1" using s by (simp add: mtx_inv_def)
  moreover have "timers_ok A ?k" using r(2) f(2) by (simp add: timers_ok_def)
  ultimately have u: "unscheduled kd ?k" unfolding unscheduled_def using c f(3,4) r(4) by auto
  have nl: "mtxlist ?k ?c = None" using d(2) [OF th] q(3) by simp
  have "chMtxUnlockAllS k = Inr ?k" using k1(1) by (simp add: chMtxUnlockAllS_def Let_def)
  then show "\<exists>k'. chMtxUnlockAllS k = Inr k' \<and> unscheduled kd k' \<and> currp k' = ?c \<and> prio k' ?c = realprio k ?c \<and> mtxlist k' ?c = None"
    using u f(1,3) nl by (intro exI [of _ ?k]) simp
  obtain k' where k': "chSchRescheduleS ?k = Inr k'" "kernel_ok kd k'" "same_objects ?k k'" using reschedule_unscheduled [OF u] by blast
  have "mtxlist k' ?c = None" using k'(3) nl by (simp add: same_objects_def)
  moreover have "chMtxUnlockAll k = (if mtxlist k ?c \<noteq> None then Inr k' else Inr k)" using k1(1) k'(1) by (simp add: chMtxUnlockAll_def Let_def)
  ultimately show "\<exists>k'. chMtxUnlockAll k = Inr k' \<and> kernel_ok kd k' \<and> mtxlist k' ?c = None" using k'(2) run by (auto simp: runs_def)
qed

section \<open>Changing the priority of the running thread\<close>

lemma struct_realprio:
  assumes "mtx_struct kd k Q M" "\<And>m. kd m = KMtx \<Longrightarrow> c \<notin> set (Q m)" "r \<le> n" "0 < r"
  shows "mtx_struct kd (k\<lparr>prio := (prio k)(c := n), realprio := (realprio k)(c := r)\<rparr>) Q M"
  using assms unfolding mtx_struct_def mframe_def by simp

lemma chThdSetPriority_ok:
  assumes run: "runs kd k" and n: "0 < n" "n \<le> HIGHPRIO"
    and w: "\<And>m w. prio k (currp k) = realprio k (currp k) \<Longrightarrow> kd m = KMtx \<Longrightarrow> m_owner k m = Some (currp k) \<Longrightarrow> thread kd w \<Longrightarrow> waiting k m w \<Longrightarrow>
      prio k w \<le> n"
  shows "\<exists>k'. chThdSetPriority n k = Inr (realprio k (currp k), k') \<and> kernel_ok kd k'"
proof -
  obtain A Q M where r: "kcore kd A k Q {}" "timers_ok A k" "top_prio k Q" "ctx k (currp k) = []" "currp k \<noteq> IDLE" "mtx_inv kd k Q M"
    using run by (rule runsE)
  let ?c = "currp k"
  note glob = kcore_glob [OF r(1)] note g = kglobD [OF glob]
  have st: "mtx_struct kd k Q M" and inh: "\<And>t. thread kd t \<Longrightarrow> inherits k Q (M t) t" using r(6) by (simp_all add: mtx_inv_def)
  note d = mtx_structD [OF st]
  have nq: "?c \<notin> set (Q m)" if "hdr kd m" for m using curr_not_queued [OF r(1) that] .
  define p where "p = (if prio k ?c = realprio k ?c \<or> n > prio k ?c then n else prio k ?c)"
  let ?k = "k\<lparr>prio := (prio k)(?c := p), realprio := (realprio k)(?c := n)\<rparr>"
  have pn: "n \<le> p" "0 < p" using n(1) by (auto simp: p_def)
  have "kcore kd A (k\<lparr>prio := (prio k)(?c := p)\<rparr>) Q {}" by (rule kcore_prio [OF r(1) g(5) nq [OF hdr_RL [OF glob]] pn(2)])
  then have c: "kcore kd A ?k Q {}" by simp
  have s: "mtx_struct kd ?k Q M" by (rule struct_realprio [OF st]) (use nq pn n in \<open>auto simp: hdr_def\<close>)
  have wq: "prio k v \<le> prio k ?c" "m_owner k m = Some ?c" "kd m = KMtx" "thread kd v \<and> waiting k m v" "v \<noteq> ?c" if "m \<in> set (M ?c)" "v \<in> set (Q m)" for m v
  proof -
    show "m_owner k m = Some ?c" and km: "kd m = KMtx" using d(7) [OF g(5)] that(1) by auto
    show "prio k v \<le> prio k ?c" using inh [OF g(5)] that by (simp add: inherits_def)
    show "thread kd v \<and> waiting k m v" using waiting_iff [OF r(1) km] that(2) by blast
    show "v \<noteq> ?c" using nq [of m] km that(2) by (auto simp: hdr_def)
  qed
  have "inherits ?k Q (M t) t" if "thread kd t" for t
  proof (cases "t = ?c")
    case True
    show ?thesis
    proof (cases "prio k ?c = realprio k ?c \<or> n > prio k ?c")
      case a: True
      have "prio k v \<le> n" if "m \<in> set (M ?c)" "v \<in> set (Q m)" for m v using w [of m v] wq [OF that] a by fastforce
      then show ?thesis using a wq(5) unfolding True by (simp add: inherits_def p_def)
    next
      case False
      then show ?thesis using inh [OF g(5)] wq(1,5) unfolding True by (auto simp: inherits_def p_def)
    qed
  next
    case False
    then have "inherits (k\<lparr>prio := (prio k)(?c := p)\<rparr>) Q (M t) t" using d(7) [OF that] nq by (intro inherits_prio [OF inh [OF that]]) (auto simp: hdr_def)
    then show ?thesis using False by (simp add: inherits_def)
  qed
  then have "mtx_inv kd ?k Q M" using s by (simp add: mtx_inv_def)
  moreover have "timers_ok A ?k" using r(2) by (simp add: timers_ok_def)
  ultimately have "unscheduled kd ?k" unfolding unscheduled_def using c r(4) by auto
  then obtain k' where k': "chSchRescheduleS ?k = Inr k'" "kernel_ok kd k'" using reschedule_unscheduled by blast
  have "chThdSetPriority n k = rbind (chSchRescheduleS ?k) (\<lambda>k'. Inr (realprio k ?c, k'))"
    using n(2) by (auto simp: chThdSetPriority_def Let_def p_def)
  then show ?thesis using k' by simp
qed

section \<open>Going on after a wait\<close>

text \<open>
  A thread that runs again finishes its sleep; if it waited for a mutex, the assertions of \<open>chMtxLockS\<close> hold.
\<close>

lemma resume_kernel_ok:
  assumes "kernel_ok kd k"
  shows "\<exists>m fs k'. resume now k = Inr (m, fs, k') \<and> kernel_ok kd k' \<and> ctx k' (currp k') = [] \<and> currp k' = currp k \<and>
    (round_frame fs \<or> (\<exists>mp. fs = [F_mtx mp] \<and> resume_mtx mp k' = Inr k'))"
proof -
  obtain A Q M where r: "kcore kd A k Q {}" "timers_ok A k" "top_prio k Q" "mtx_inv kd k Q M" using assms by (auto simp: kernel_ok_def)
  let ?c = "currp k" let ?fs = "dropWhile (\<lambda>f. f \<in> {F_reset, F_msg}) (ctx k ?c)"
  obtain m k' A' where k': "resume now k = Inr (m, ?fs, k')" "kcore kd A' k' Q {}" "timers_ok A' k'"
      "k' = k\<lparr>ctx := (ctx k)(?c := []), vtl := vtl k'\<rparr>"
    using resume_ok [OF r(1,2)] by blast
  have fld: "prio k' = prio k" "realprio k' = realprio k" "mtxlist k' = mtxlist k" "m_owner k' = m_owner k" "m_next k' = m_next k"
      "ctx k' = (ctx k)(?c := [])" "currp k' = ?c" by (subst k'(4), simp)+
  note g = kglobD [OF kcore_glob [OF r(1)]]
  have st: "mtx_struct kd k Q M" and inh: "\<And>t. thread kd t \<Longrightarrow> inherits k Q (M t) t" using r(4) by (simp_all add: mtx_inv_def)
  note d = mtx_structD [OF st]
  have nq: "?c \<notin> set (Q m)" if "kd m = KMtx" for m using curr_not_queued [OF r(1), of m] that by (simp add: hdr_def)
  have "mframe kd k' Q t" if "thread kd t" for t
    using d(4) [OF that] unfolding mframe_def fld by (cases "t = ?c") simp_all
  moreover have "ctx k' t = [F_mtx m]" if "kd m = KMtx" "t \<in> set (Q m)" for m t using d(11) [OF that] nq [OF that(1)] that(2) by (auto simp: fld(6))
  moreover have "ctx k' IDLE = []" using d(12) by (simp add: fld(6))
  ultimately have "mtx_struct kd k' Q M" using d unfolding mtx_struct_def fld(1-5) by simp
  then have "mtx_inv kd k' Q M" using inh by (simp add: mtx_inv_def inherits_def fld(1,2))
  moreover have "top_prio k' Q" using r(3) fld(1,7) by (simp add: top_prio_def)
  ultimately have ok: "kernel_ok kd k'" using k'(2,3) unfolding kernel_ok_def by blast
  have "round_frame ?fs \<or> (\<exists>mp. ?fs = [F_mtx mp] \<and> resume_mtx mp k' = Inr k')"
  proof (cases "plain (ctx k ?c)")
    case True
    then show ?thesis by (auto simp: plain_def round_frame_def)
  next
    case False
    then obtain mp where "ctx k ?c = [F_mtx mp]" "m_owner k mp = Some ?c" "mtxlist k ?c = Some mp"
      using d(4) [OF g(5)] nq by (auto simp: mframe_def)
    then show ?thesis using fld(3,4,7) by (simp add: resume_mtx_def)
  qed
  then show ?thesis using k'(1) ok fld(6,7) by (intro exI [of _ m] exI [of _ ?fs] exI [of _ k']) simp
qed

text \<open>The priorities in a consistent kernel.\<close>

definition inherits_prio_of :: "(node \<Rightarrow> kind) \<Rightarrow> kernel \<Rightarrow> node \<Rightarrow> bool" where
  "inherits_prio_of kd k t \<longleftrightarrow>
     (let ws = {w. thread kd w \<and> (\<exists>m. kd m = KMtx \<and> m_owner k m = Some t \<and> waiting k m w)}
      in prio k t = Max (insert (realprio k t) (prio k ` ws)))"

lemma kernel_inherits:
  assumes "kernel_ok kd k" "thread kd t"
  shows "inherits_prio_of kd k t"
proof -
  obtain A Q M where r: "kcore kd A k Q {}" "mtx_struct kd k Q M" "inherits k Q (M t) t"
    using assms by (auto simp: kernel_ok_def mtx_inv_def)
  note d = mtx_structD [OF r(2)]
  let ?ws = "{w. thread kd w \<and> (\<exists>m. kd m = KMtx \<and> m_owner k m = Some t \<and> waiting k m w)}"
  have ws: "w \<in> ?ws \<longleftrightarrow> (\<exists>m \<in> set (M t). w \<in> set (Q m))" for w
    using d(7) [OF assms(2)] waiting_iff [OF r(1)] by blast
  have fin: "finite ?ws" using d(1) by (rule rev_finite_subset) auto
  have "prio k t = Max (insert (realprio k t) (prio k ` ?ws))"
  proof (rule Max_eqI [symmetric])
    show "finite (insert (realprio k t) (prio k ` ?ws))" using fin by simp
    show "y \<le> prio k t" if "y \<in> insert (realprio k t) (prio k ` ?ws)" for y
      using that d(5) [OF assms(2)] r(3) ws unfolding inherits_def by blast
    show "prio k t \<in> insert (realprio k t) (prio k ` ?ws)"
    proof (cases "prio k t = realprio k t")
      case False
      then obtain m w where "m \<in> set (M t)" "w \<in> set (Q m)" "prio k w = prio k t" using r(3) by (auto simp: inherits_def)
      then show ?thesis using ws [of w] by (intro insertI2 image_eqI [of _ _ w]) auto
    qed simp
  qed
  then show ?thesis by (simp add: inherits_prio_of_def)
qed

section \<open>Properties\<close>

text \<open>A system in which the running thread 2 owns the mutex 6 and thread 8, of the same priority, waits for it.\<close>

definition mx_Q :: "node \<Rightarrow> node list" where
  "mx_Q = (\<lambda>_. [])(0 := [7, 1], 6 := [8])"

definition mx_kernel :: kernel where
  "mx_kernel =
     \<lparr>ql = \<lparr>qnext = id(0 := 7, 7 := 1, 1 := 0, 6 := 8, 8 := 6), qprev = id(0 := 1, 1 := 7, 7 := 0, 6 := 8, 8 := 6)\<rparr>,
      prio = (\<lambda>_. 0)(1 := 1, 2 := 200, 7 := 64, 8 := 200), realprio = (\<lambda>_. 0)(1 := 1, 2 := 200, 7 := 64, 8 := 200),
      kstate = (\<lambda>_. CH_STATE_WTSTART)(1 := CH_STATE_READY, 2 := CH_STATE_CURRENT, 7 := CH_STATE_READY, 8 := CH_STATE_WTMTX),
      tu = (\<lambda>_. U_msg 0)(8 := U_obj 6), ctx = (\<lambda>_. [])(8 := [F_mtx 6]), currp = 2, cnt = (\<lambda>_. 0),
      tref = (\<lambda>_. None), mtxlist = (\<lambda>_. None)(2 := Some 6), m_owner = (\<lambda>_. None)(6 := Some 2), m_next = (\<lambda>_. None),
      vtl = \<lparr>vlinks = \<lparr>qnext = id, qprev = id\<rparr>, delta = (\<lambda>_. 0)(0 := -1), vfunc = (\<lambda>_. None), lasttime = 0, alarm = None\<rparr>\<rparr>"

lemma mx_queues: "queues (ql mx_kernel) {h. hdr ex_kd h} mx_Q"
  unfolding queues_def ex_hdr by (simp add: mx_Q_def mx_kernel_def is_queue_def members_def)

lemma mx_core: "kcore ex_kd {} mx_kernel mx_Q {}"
proof (rule kcoreI)
  have kr: "ex_kd h = KReady \<longleftrightarrow> h = RL" "ex_kd h = KSem \<longleftrightarrow> h = 5" for h by (auto simp: ex_kd_def RL_def)
  show "kglob ex_kd {} mx_kernel mx_Q"
    unfolding kglob_def kr
    by (intro conjI mx_queues) (auto simp: ex_thread ex_hdr IDLE_def RL_def mx_Q_def by_prio_def sem_ok_def mx_kernel_def split: if_splits)
  show "tok ex_kd {} mx_kernel mx_Q t" if "thread ex_kd t" "t \<notin> {}" for t
    using that unfolding tok_def ex_thread ex_hdr
    by (auto simp: mx_kernel_def mx_Q_def ex_kd_def IDLE_def state_defs intro: exI [of _ 0] exI [of _ 6])
qed

lemma mx_runs: "runs ex_kd mx_kernel"
proof -
  have "mtx_inv ex_kd mx_kernel mx_Q ((\<lambda>_. [])(2 := [6]))"
    unfolding mtx_inv_def mtx_struct_def ex_thread
    by (auto simp: ex_kd_def mx_kernel_def mx_Q_def by_prio_def inherits_def mframe_def IDLE_def split: if_splits)
  moreover have "timers_ok {} mx_kernel" by (auto simp: timers_ok_def mx_kernel_def vt_ok_def is_queue_def VTL_def)
  moreover have "top_prio mx_kernel mx_Q" by (simp add: top_prio_def mx_kernel_def mx_Q_def RL_def)
  ultimately have "kernel_ok ex_kd mx_kernel" using mx_core unfolding kernel_ok_def by blast
  then show ?thesis by (simp add: runs_def mx_kernel_def IDLE_def)
qed

text \<open>C37. Mutexes with priority inheritance. In a consistent kernel, locking a free mutex makes the running thread its owner; locking an
  owned one makes the thread wait. Unlocking the mutex locked last passes it to a waiting thread of the highest
  priority, or frees it. Unlocking all mutexes leaves none. None of the assertions fails, the loop along the chain of owners ends, and
  afterwards every thread runs with exactly the highest of its own priority and the priorities of the threads
  that wait for its mutexes.\<close>

theorem mutex_inheritance:
  assumes run: "runs kd k" and mp: "kd mp = KMtx"
  shows "(\<exists>k'. chMtxLock mp k = Inr k' \<and> kernel_ok kd k' \<and> (\<forall>t. thread kd t \<longrightarrow> inherits_prio_of kd k' t) \<and>
        (if m_owner k mp = None then m_owner k' mp = Some (currp k) \<and> currp k' = currp k
         else waiting k' mp (currp k) \<and> m_owner k' = m_owner k)) \<and>
     (mtxlist k (currp k) = Some mp \<longrightarrow>
        (\<exists>k'. chMtxUnlock mp k = Inr k' \<and> kernel_ok kd k' \<and> (\<forall>t. thread kd t \<longrightarrow> inherits_prio_of kd k' t) \<and> passed_on kd mp k k')) \<and>
     (\<exists>k'. chMtxUnlockAll k = Inr k' \<and> kernel_ok kd k' \<and> (\<forall>t. thread kd t \<longrightarrow> inherits_prio_of kd k' t) \<and> mtxlist k' (currp k) = None)"
proof (intro conjI impI)
  show "\<exists>k'. chMtxLock mp k = Inr k' \<and> kernel_ok kd k' \<and> (\<forall>t. thread kd t \<longrightarrow> inherits_prio_of kd k' t) \<and>
        (if m_owner k mp = None then m_owner k' mp = Some (currp k) \<and> currp k' = currp k
         else waiting k' mp (currp k) \<and> m_owner k' = m_owner k)"
    using chMtxLockS_ok [OF run mp] kernel_inherits [of kd] unfolding chMtxLock_def by (elim exE conjE) (auto split: if_splits)
  show "\<exists>k'. chMtxUnlock mp k = Inr k' \<and> kernel_ok kd k' \<and> (\<forall>t. thread kd t \<longrightarrow> inherits_prio_of kd k' t) \<and> passed_on kd mp k k'"
    if "mtxlist k (currp k) = Some mp"
    using chMtxUnlock_ok [OF run that] kernel_inherits [of kd] by blast
  show "\<exists>k'. chMtxUnlockAll k = Inr k' \<and> kernel_ok kd k' \<and> (\<forall>t. thread kd t \<longrightarrow> inherits_prio_of kd k' t) \<and> mtxlist k' (currp k) = None"
    using unlock_all_ok(2) [OF run] kernel_inherits [of kd] by blast
qed

theorem mutex_inheritance_witness:
  "(\<exists>k'. chMtxLock 6 ex_kernel = Inr k' \<and> m_owner k' 6 = Some 2) \<and>
   (\<exists>k'. chMtxUnlock 6 mx_kernel = Inr k' \<and> kernel_ok ex_kd k' \<and> passed_on ex_kd 6 mx_kernel k')"
proof
  have kd: "ex_kd 6 = KMtx" by (simp add: ex_kd_def)
  show "\<exists>k'. chMtxLock 6 ex_kernel = Inr k' \<and> m_owner k' 6 = Some 2"
    using mutex_inheritance [OF ex_runs kd] by (auto simp: ex_kernel_def)
  have "mtxlist mx_kernel (currp mx_kernel) = Some 6" by (simp add: mx_kernel_def)
  then show "\<exists>k'. chMtxUnlock 6 mx_kernel = Inr k' \<and> kernel_ok ex_kd k' \<and> passed_on ex_kd 6 mx_kernel k'"
    using mutex_inheritance [OF mx_runs kd] by blast
qed

text \<open>C38. Lowering a priority can lose inheritance. If the running thread owns a mutex for which a thread of the same
  priority waits, and its priority is its own, then \<open>chThdSetPriority\<close> with a lower priority takes effect
  at once: the owner runs below the waiting thread, although the mutex is still locked.\<close>

theorem set_priority_loses_inheritance:
  assumes run: "runs kd k" and c: "prio k (currp k) = realprio k (currp k)" and m: "kd m = KMtx" "m_owner k m = Some (currp k)"
    and w: "thread kd w" "waiting k m w" "prio k w = prio k (currp k)" and n: "0 < n" "n < prio k (currp k)" "n \<le> HIGHPRIO"
  shows "\<exists>k'. chThdSetPriority n k = Inr (realprio k (currp k), k') \<and> m_owner k' m = Some (currp k) \<and> waiting k' m w \<and>
    prio k' (currp k) = n \<and> n < prio k' w \<and> \<not> inherits_prio_of kd k' (currp k)"
proof -
  obtain A Q M where r: "kcore kd A k Q {}" "ctx k (currp k) = []" "mtx_inv kd k Q M" using run by (rule runsE)
  let ?c = "currp k" let ?k = "k\<lparr>prio := (prio k)(?c := n), realprio := (realprio k)(?c := n)\<rparr>"
  note glob = kcore_glob [OF r(1)] note g = kglobD [OF glob]
  have c1: "kcore kd A (k\<lparr>prio := (prio k)(?c := n)\<rparr>) Q {}" by (rule kcore_prio [OF r(1) g(5) curr_not_queued [OF r(1) hdr_RL [OF glob]] n(1)])
  have "kcore kd A ?k Q {}" using c1 by simp
  then obtain k' Q' where k': "chSchRescheduleS ?k = Inr k'" "kcore kd A k' Q' {}" "same_objects ?k k'" "\<forall>h. h \<noteq> RL \<longrightarrow> Q' h = Q h"
    using chSchRescheduleS_ok [of kd A ?k Q] r(2) by auto
  have "m \<noteq> RL" using m(1) g(3) [of RL] by auto
  then have wt: "waiting k' m w" using waiting_iff [OF r(1) m(1), of w] waiting_iff [OF k'(2) m(1), of w] k'(4) w(1,2) by simp
  have wc: "w \<noteq> ?c" using w(2) curr_loose(2) [OF r(1)] by (auto simp: waiting_def)
  have f: "prio k' = (prio k)(?c := n)" "m_owner k' = m_owner k" using k'(3) by (simp_all add: same_objects_def)
  have "\<not> inherits_prio_of kd k' ?c"
  proof
    let ?ws = "{w. thread kd w \<and> (\<exists>m. kd m = KMtx \<and> m_owner k' m = Some ?c \<and> waiting k' m w)}"
    assume "inherits_prio_of kd k' ?c"
    then have mx: "prio k' ?c = Max (insert (realprio k' ?c) (prio k' ` ?ws))" by (simp add: inherits_prio_of_def)
    have "finite {t. thread kd t}" using r(3) by (simp add: mtx_inv_def mtx_struct_def)
    then have "finite ?ws" by (rule rev_finite_subset) auto
    moreover have "w \<in> ?ws" using w(1) m wt f(2) by auto
    ultimately have "prio k' w \<le> prio k' ?c" unfolding mx by (intro Max_ge) auto
    then show False using w(3) n(2) wc by (simp add: f)
  qed
  moreover have "chThdSetPriority n k = Inr (realprio k ?c, k')" using n(3) c k'(1) by (simp add: chThdSetPriority_def Let_def)
  ultimately show ?thesis using wt f m(2) w(3) n(2) wc by (intro exI [of _ k']) simp
qed

theorem set_priority_loses_inheritance_witness:
  "\<exists>k'. chThdSetPriority 100 mx_kernel = Inr (200, k') \<and> waiting k' 6 8 \<and> prio k' 2 = 100 \<and> 100 < prio k' 8"
  using set_priority_loses_inheritance [OF mx_runs, of 6 8 100]
  by (simp add: mx_kernel_def ex_kd_def thread_def waiting_def HIGHPRIO_def) blast

end
