(* ===== verification/KRun.thy ===== *)
theory KRun
  imports KMbox KMtx
begin

text \<open>
  The kernel as a whole: the running thread calls an operation, a thread that was switched to finishes the operation in which it
  slept, and interrupt handlers, among them that of the timer, run between the operations and end with the check for
  preemption. The invariant of the components holds in every state that such steps lead to.
\<close>

section \<open>Steps\<close>

text \<open>The state of the kernel and the mailboxes, which are named by numbers.\<close>

type_synonym ksys = "kernel \<times> (node \<Rightarrow> mailbox)"

text \<open>The operations that a thread may call.\<close>

datatype syscall =
    Sleep sysinterval | SleepUntil systime | Yield | SetPriority nat | Start node | Suspend node | SuspendTimeout node sysinterval | Resume node msg
  | SemWait node | SemWaitTimeout node sysinterval | SemSignal node | SemReset node int | SemSignalWait node node
  | MtxLock node | MtxTryLock node | MtxUnlock node | MtxUnlockAll
  | MbPost node msg sysinterval | MbPostAhead node msg sysinterval | MbFetch node sysinterval | MbReset node

definition with_boxes :: "(node \<Rightarrow> mailbox) \<Rightarrow> kernel result \<Rightarrow> ksys result" where
  "with_boxes b r = rbind r (\<lambda>k. Inr (k, b))"

definition box_result :: "node \<Rightarrow> (node \<Rightarrow> mailbox) \<Rightarrow> ('r \<times> mailbox \<times> kernel) result \<Rightarrow> ksys result" where
  "box_result i b r = rbind r (\<lambda>(_, x, k). Inr (k, b(i := x)))"

fun perform :: "systime \<Rightarrow> systime \<Rightarrow> syscall \<Rightarrow> ksys \<Rightarrow> ksys result" where
  "perform now now' (Sleep n) (k, b) = with_boxes b (chThdSleep n now k)"
| "perform now now' (SleepUntil t) (k, b) = with_boxes b (chThdSleepUntil t now now' k)"
| "perform now now' Yield (k, b) = with_boxes b (chThdYield k)"
| "perform now now' (SetPriority n) (k, b) = with_boxes b (rbind (chThdSetPriority n k) (\<lambda>(_, k). Inr k))"
| "perform now now' (Start t) (k, b) = with_boxes b (chThdStart t k)"
| "perform now now' (Suspend r) (k, b) = with_boxes b (chThdSuspendS r k)"
| "perform now now' (SuspendTimeout r n) (k, b) = with_boxes b (rbind (chThdSuspendTimeoutS r n now k) (\<lambda>(_, k). Inr k))"
| "perform now now' (Resume r m) (k, b) = with_boxes b (chThdResume r m k)"
| "perform now now' (SemWait s) (k, b) = with_boxes b (rbind (chSemWait s k) (\<lambda>(_, k). Inr k))"
| "perform now now' (SemWaitTimeout s n) (k, b) = with_boxes b (rbind (chSemWaitTimeout s n now k) (\<lambda>(_, k). Inr k))"
| "perform now now' (SemSignal s) (k, b) = with_boxes b (chSemSignal s k)"
| "perform now now' (SemReset s n) (k, b) = with_boxes b (chSemReset s n k)"
| "perform now now' (SemSignalWait s w) (k, b) = with_boxes b (rbind (chSemSignalWait s w k) (\<lambda>(_, k). Inr k))"
| "perform now now' (MtxLock m) (k, b) = with_boxes b (chMtxLock m k)"
| "perform now now' (MtxTryLock m) (k, b) = with_boxes b (Inr (snd (chMtxTryLock m k)))"
| "perform now now' (MtxUnlock m) (k, b) = with_boxes b (chMtxUnlock m k)"
| "perform now now' MtxUnlockAll (k, b) = with_boxes b (chMtxUnlockAll k)"
| "perform now now' (MbPost i m n) (k, b) = box_result i b (chMBPostTimeout i m n now (b i) k)"
| "perform now now' (MbPostAhead i m n) (k, b) = box_result i b (chMBPostAheadTimeout i m n now (b i) k)"
| "perform now now' (MbFetch i n) (k, b) = box_result i b (rbind (chMBFetchTimeout i n now (b i) k) (\<lambda>(r, _, x, k). Inr (r, x, k)))"
| "perform now now' (MbReset i) (k, b) = box_result i b (rbind (chMBReset (b i) k) (\<lambda>(x, k). Inr ((), x, k)))"

text \<open>
  How the operations are meant to be used: on objects of their kind, with the arguments that the checks ask for. A thread
  unlocks the mutex it has locked last, and does not lower its priority below that of a thread waiting for one of its mutexes.
\<close>

fun allowed :: "(node \<Rightarrow> kind) \<Rightarrow> kernel \<Rightarrow> syscall \<Rightarrow> bool" where
  "allowed kd k (Sleep n) \<longleftrightarrow> n \<noteq> 0"
| "allowed kd k (SetPriority n) \<longleftrightarrow> 0 < n \<and> n \<le> HIGHPRIO \<and>
     (\<forall>m w. kd m = KMtx \<longrightarrow> m_owner k m = Some (currp k) \<longrightarrow> thread kd w \<longrightarrow> waiting k m w \<longrightarrow> prio k w \<le> n)"
| "allowed kd k (Start t) \<longleftrightarrow> thread kd t \<and> kstate k t = CH_STATE_WTSTART"
| "allowed kd k (Suspend r) \<longleftrightarrow> tref k r = None"
| "allowed kd k (SuspendTimeout r n) \<longleftrightarrow> tref k r = None"
| "allowed kd k (SemWait s) \<longleftrightarrow> kd s = KSem"
| "allowed kd k (SemWaitTimeout s n) \<longleftrightarrow> kd s = KSem"
| "allowed kd k (SemSignal s) \<longleftrightarrow> kd s = KSem"
| "allowed kd k (SemReset s n) \<longleftrightarrow> kd s = KSem \<and> 0 \<le> n \<and> n < 2 ^ 31"
| "allowed kd k (SemSignalWait s w) \<longleftrightarrow> kd s = KSem \<and> kd w = KSem"
| "allowed kd k (MtxLock m) \<longleftrightarrow> kd m = KMtx"
| "allowed kd k (MtxTryLock m) \<longleftrightarrow> kd m = KMtx"
| "allowed kd k (MtxUnlock m) \<longleftrightarrow> mtxlist k (currp k) = Some m"
| "allowed kd k _ \<longleftrightarrow> True"

text \<open>A thread that is running again goes on with the operation in which it was switched off.\<close>

definition go_on :: "systime \<Rightarrow> systime \<Rightarrow> ksys \<Rightarrow> ksys result" where
  "go_on now now' s =
     (case s of (k, b) \<Rightarrow>
        rbind (resume now k) (\<lambda>(m, fs, k).
          case fs of
            F_mtx mp # _ \<Rightarrow> with_boxes b (resume_mtx mp k)
          | F_post i msg timeout # _ \<Rightarrow> if m = MSG_OK then box_result i b (chMBPostTimeoutS i msg timeout now' (b i) k) else Inr (k, b)
          | F_post_ahead i msg timeout # _ \<Rightarrow>
              if m = MSG_OK then box_result i b (chMBPostAheadTimeoutS i msg timeout now' (b i) k) else Inr (k, b)
          | F_fetch i timeout # _ \<Rightarrow>
              if m = MSG_OK then box_result i b (rbind (chMBFetchTimeoutS i timeout now' (b i) k) (\<lambda>(r, _, x, k). Inr (r, x, k)))
              else Inr (k, b)
          | _ \<Rightarrow> Inr (k, b)))"

text \<open>The operations of interrupt handlers.\<close>

datatype icall =
    SemSignalI node | SemAddCounterI node nat | SemResetI node int | ResumeI node msg | DequeueNextI node msg | DequeueAllI node msg
  | MbPostI node msg | MbPostAheadI node msg | MbFetchI node | MbResetI node

fun performI :: "icall \<Rightarrow> ksys \<Rightarrow> ksys result" where
  "performI (SemSignalI s) (k, b) = with_boxes b (chSemSignalI s k)"
| "performI (SemAddCounterI s n) (k, b) = with_boxes b (chSemAddCounterI s (int n) k)"
| "performI (SemResetI s n) (k, b) = with_boxes b (chSemResetI s n k)"
| "performI (ResumeI r m) (k, b) = with_boxes b (chThdResumeI r m k)"
| "performI (DequeueNextI q m) (k, b) = with_boxes b (chThdDequeueNextI q m k)"
| "performI (DequeueAllI q m) (k, b) = with_boxes b (chThdDequeueAllI q m k)"
| "performI (MbPostI i m) (k, b) = box_result i b (chMBPostI m (b i) k)"
| "performI (MbPostAheadI i m) (k, b) = box_result i b (chMBPostAheadI m (b i) k)"
| "performI (MbFetchI i) (k, b) = box_result i b (rbind (chMBFetchI (b i) k) (\<lambda>(r, _, x, k). Inr (r, x, k)))"
| "performI (MbResetI i) (k, b) = box_result i b (rbind (chMBResetI (b i) k) (\<lambda>(x, k). Inr ((), x, k)))"

fun allowedI :: "(node \<Rightarrow> kind) \<Rightarrow> icall \<Rightarrow> bool" where
  "allowedI kd (SemSignalI s) \<longleftrightarrow> kd s = KSem"
| "allowedI kd (SemAddCounterI s n) \<longleftrightarrow> kd s = KSem \<and> 0 < n"
| "allowedI kd (SemResetI s n) \<longleftrightarrow> kd s = KSem \<and> 0 \<le> n \<and> n < 2 ^ 31"
| "allowedI kd (DequeueNextI q m) \<longleftrightarrow> kd q = KQueue"
| "allowedI kd (DequeueAllI q m) \<longleftrightarrow> kd q = KQueue"
| "allowedI kd _ \<longleftrightarrow> True"

text \<open>A handler: its operations, and the scheduler at its end.\<close>

fun operations :: "icall list \<Rightarrow> ksys \<Rightarrow> ksys result" where
  "operations [] s = Inr s"
| "operations (c # cs) s = rbind (performI c s) (operations cs)"

definition interrupt :: "icall list \<Rightarrow> ksys \<Rightarrow> ksys result" where
  "interrupt cs s = rbind (operations cs s) (\<lambda>(k, b). with_boxes b (chSchPreemption k))"

definition timer_interrupt :: "(nat \<Rightarrow> node \<Rightarrow> kernel \<Rightarrow> kernel result) \<Rightarrow> (nat \<Rightarrow> systime) \<Rightarrow> ksys \<Rightarrow> ksys result" where
  "timer_interrupt app time s = (case s of (k, b) \<Rightarrow> with_boxes b (rbind (chSysTimerHandlerI app time k) chSchPreemption))"

inductive kstep :: "(node \<Rightarrow> kind) \<Rightarrow> (nat \<Rightarrow> node \<Rightarrow> kernel \<Rightarrow> kernel result) \<Rightarrow> ksys \<Rightarrow> ksys \<Rightarrow> bool" for kd app where
  call: "ctx k (currp k) = [] \<Longrightarrow> currp k \<noteq> IDLE \<Longrightarrow> allowed kd k c \<Longrightarrow> perform now now' c (k, b) = Inr s \<Longrightarrow> kstep kd app (k, b) s"
| resume: "ctx k (currp k) \<noteq> [] \<Longrightarrow> go_on now now' (k, b) = Inr s \<Longrightarrow> kstep kd app (k, b) s"
| tick: "ctx k (currp k) = [] \<Longrightarrow> counter_runs time (lasttime (vtl k)) \<Longrightarrow> timer_interrupt app time (k, b) = Inr s \<Longrightarrow> kstep kd app (k, b) s"
| irq: "ctx k (currp k) = [] \<Longrightarrow> list_all (allowedI kd) cs \<Longrightarrow> interrupt cs (k, b) = Inr s \<Longrightarrow> kstep kd app (k, b) s"

section \<open>Consistent states stay consistent\<close>

fun sys_ok :: "(node \<Rightarrow> kind) \<Rightarrow> ksys \<Rightarrow> bool" where
  "sys_ok kd (k, b) \<longleftrightarrow> kernel_ok kd k \<and> (\<forall>i. mb_ok kd (b i))"

lemma fine_boxes: "fine (kernel_ok kd) r \<Longrightarrow> \<forall>i. mb_ok kd (b i) \<Longrightarrow> fine (sys_ok kd) (with_boxes b r)"
  unfolding with_boxes_def by (erule fine_rbind) simp

lemma fine_box: "fine (\<lambda>(_, x, k). kernel_ok kd k \<and> mb_ok kd x) r \<Longrightarrow> \<forall>i. mb_ok kd (b i) \<Longrightarrow> fine (sys_ok kd) (box_result i b r)"
  unfolding box_result_def by (erule fine_rbind) auto

lemma fine_snd: "fine (\<lambda>(_, k). P k) r \<Longrightarrow> fine P (rbind r (\<lambda>(_, k). Inr k))"
  by (erule fine_rbind) auto

lemma fineI: "\<exists>x. r = Inr x \<and> P x \<Longrightarrow> fine P r"
  by auto

lemma thread_calls:
  assumes run: "runs kd k"
  shows "n \<noteq> 0 \<Longrightarrow> fine (kernel_ok kd) (chThdSleep n now k)" "fine (kernel_ok kd) (chThdSleepUntil t now now' k)" "fine (kernel_ok kd) (chThdYield k)"
    "thread kd u \<Longrightarrow> kstate k u = CH_STATE_WTSTART \<Longrightarrow> fine (kernel_ok kd) (chThdStart u k)"
    "tref k r = None \<Longrightarrow> fine (kernel_ok kd) (chThdSuspendS r k)"
    "tref k r = None \<Longrightarrow> fine (\<lambda>(_, k). kernel_ok kd k) (chThdSuspendTimeoutS r n now k)" "fine (kernel_ok kd) (chThdResume r m k)"
proof -
  obtain A Q M where c: "kcore kd A k Q {}" "timers_ok A k" "top_prio k Q" "ctx k (currp k) = []" "currp k \<noteq> IDLE" "mtx_inv kd k Q M"
    using run by (rule runsE)
  note ok = after_S_kernel_ok [OF _ c(6)]
  show sl: "n \<noteq> 0 \<Longrightarrow> fine (kernel_ok kd) (chThdSleep n now k)" for n now
    using chThdSleepS_ok [OF c(1,2,4,5), of n now] ok unfolding chThdSleep_def by (intro fineI) blast
  have "kernel_ok kd k" using run by (simp add: runs_def)
  then show "fine (kernel_ok kd) (chThdSleepUntil t now now' k)"
    using sl [of "chTimeDiffX now t" now'] by (auto simp: chThdSleepUntil_def Let_def chThdSleep_def word_gt_0)
  show "fine (kernel_ok kd) (chThdYield k)" using chThdYield_ok [OF c(1-4)] ok by (intro fineI) blast
  show "fine (kernel_ok kd) (chThdStart u k)" if "thread kd u" "kstate k u = CH_STATE_WTSTART"
    using chThdStart_ok [OF c(1-4) that] ok by (intro fineI) blast
  show "fine (kernel_ok kd) (chThdSuspendS r k)" if "tref k r = None" using suspend_ok(1) [OF c(1,2,4,5) that] ok by (intro fineI) blast
  show "fine (\<lambda>(_, k). kernel_ok kd k) (chThdSuspendTimeoutS r n now k)" if "tref k r = None"
    using suspend_ok(2) [OF c(1,2,4,5) that c(3), of n now] ok by (intro fineI) fast
  show "fine (kernel_ok kd) (chThdResume r m k)" using chThdResumeS_ok [OF c(1-4)] ok unfolding chThdResume_def by (intro fineI) blast
qed

lemma sem_calls:
  assumes run: "runs kd k" and s: "kd s = KSem"
  shows "fine (\<lambda>(_, k). kernel_ok kd k) (chSemWait s k)" "fine (\<lambda>(_, k). kernel_ok kd k) (chSemWaitTimeout s n now k)" "fine (kernel_ok kd) (chSemSignal s k)"
    "0 \<le> i \<Longrightarrow> i < 2 ^ 31 \<Longrightarrow> fine (kernel_ok kd) (chSemReset s i k)" "kd w = KSem \<Longrightarrow> fine (\<lambda>(_, k). kernel_ok kd k) (chSemSignalWait s w k)"
proof -
  obtain A Q M where c: "kcore kd A k Q {}" "timers_ok A k" "top_prio k Q" "ctx k (currp k) = []" "currp k \<noteq> IDLE" "mtx_inv kd k Q M"
    using run by (rule runsE)
  note ok = after_S_kernel_ok [OF _ c(6)]
  show "fine (\<lambda>(_, k). kernel_ok kd k) (chSemWait s k)" unfolding chSemWait_def
    by (rule fine_mono [OF chSemWaitS_ok [OF c(1-5) s]]) (use ok in auto)
  show "fine (\<lambda>(_, k). kernel_ok kd k) (chSemWaitTimeout s n now k)" unfolding chSemWaitTimeout_def
    by (rule fine_mono [OF chSemWaitTimeoutS_ok [OF c(1-5) s]]) (use ok in auto)
  show "fine (kernel_ok kd) (chSemSignal s k)" by (rule fine_mono [OF chSemSignal_ok [OF c(1-4) s] ok])
  show "fine (kernel_ok kd) (chSemReset s i k)" if "0 \<le> i" "i < 2 ^ 31" unfolding chSemReset_def
  proof (rule fine_rbind [OF chSemResetI_ok [OF c(1) s that]])
    fix k1 assume "\<exists>Q'. after_I kd A k Q k1 Q' \<and> Q' s = [] \<and> cnt k1 s = i"
    then show "fine (kernel_ok kd) (chSchRescheduleS k1)" using resched_after [OF _ c(2,4)] ok by (intro fineI) blast
  qed
  show "fine (\<lambda>(_, k). kernel_ok kd k) (chSemSignalWait s w k)" if "kd w = KSem"
    by (rule fine_mono [OF chSemSignalWait_ok [OF c(1,2,4,5) s that]]) (use ok in auto)
qed

lemma box_calls:
  assumes run: "runs kd k" and b: "mb_ok kd x"
  shows "fine (\<lambda>(_, x, k). kernel_ok kd k \<and> mb_ok kd x) (chMBPostTimeoutS i m n now x k)"
    "fine (\<lambda>(_, x, k). kernel_ok kd k \<and> mb_ok kd x) (chMBPostAheadTimeoutS i m n now x k)"
    "fine (\<lambda>(_, x, k). kernel_ok kd k \<and> mb_ok kd x) (rbind (chMBFetchTimeoutS i n now x k) (\<lambda>(r, _, x, k). Inr (r, x, k)))"
    "fine (\<lambda>(_, x, k). kernel_ok kd k \<and> mb_ok kd x) (rbind (chMBReset x k) (\<lambda>(x, k). Inr ((), x, k)))"
proof -
  show "fine (\<lambda>(_, x, k). kernel_ok kd k \<and> mb_ok kd x) (chMBPostTimeoutS i m n now x k)"
    by (rule fineI) (use post_ok [OF run b, of i m n now] in fast)
  show "fine (\<lambda>(_, x, k). kernel_ok kd k \<and> mb_ok kd x) (chMBPostAheadTimeoutS i m n now x k)"
    by (rule fineI) (use post_ahead_ok [OF run b, of i m n now] in fast)
  show "fine (\<lambda>(_, x, k). kernel_ok kd k \<and> mb_ok kd x) (rbind (chMBFetchTimeoutS i n now x k) (\<lambda>(r, _, x, k). Inr (r, x, k)))"
    using fetch_ok [OF run b, of i n now] by (elim exE conjE) simp
  show "fine (\<lambda>(_, x, k). kernel_ok kd k \<and> mb_ok kd x) (rbind (chMBReset x k) (\<lambda>(x, k). Inr ((), x, k)))"
    using chMBReset_ok [OF run b] by auto
qed

lemma perform_fine:
  assumes run: "runs kd k" and b: "\<forall>i. mb_ok kd (b i)" and c: "allowed kd k c"
  shows "fine (sys_ok kd) (perform now now' c (k, b))"
proof (cases c)
  case (SetPriority n)
  then have "\<exists>k'. chThdSetPriority n k = Inr (realprio k (currp k), k') \<and> kernel_ok kd k'" using c by (intro chThdSetPriority_ok [OF run]) auto
  then show ?thesis using SetPriority b by (auto intro!: fine_boxes)
next
  case (MtxLock m)
  then have "fine (kernel_ok kd) (chMtxLock m k)" unfolding chMtxLock_def using chMtxLockS_ok [OF run, of m] c by (intro fineI) auto
  then show ?thesis using MtxLock b by (simp add: fine_boxes)
next
  case (MtxTryLock m)
  then show ?thesis using chMtxTryLockS_ok [OF run, of m] c b by (auto simp: chMtxTryLock_def runs_def intro!: fine_boxes)
next
  case (MtxUnlock m)
  then have "fine (kernel_ok kd) (chMtxUnlock m k)" using chMtxUnlock_ok [OF run, of m] c by (intro fineI) auto
  then show ?thesis using MtxUnlock b by (simp add: fine_boxes)
next
  case MtxUnlockAll
  then have "fine (kernel_ok kd) (chMtxUnlockAll k)" using unlock_all_ok(2) [OF run] by (intro fineI) auto
  then show ?thesis using MtxUnlockAll b by (simp add: fine_boxes)
qed (use c b thread_calls [OF run] sem_calls [OF run] box_calls [OF run] in
    \<open>simp_all add: fine_boxes fine_snd fine_box chMBPostTimeout_def chMBPostAheadTimeout_def chMBFetchTimeout_def\<close>)

lemma go_on_fine:
  assumes ok: "sys_ok kd (k, b)" and c: "ctx k (currp k) \<noteq> []"
  shows "fine (sys_ok kd) (go_on now now' (k, b))"
proof -
  have k: "kernel_ok kd k" and b: "\<forall>i. mb_ok kd (b i)" using ok by simp_all
  have idle: "currp k \<noteq> IDLE" using k c by (auto simp: kernel_ok_def mtx_inv_def mtx_struct_def)
  obtain m fs k1 where r: "resume now k = Inr (m, fs, k1)" "kernel_ok kd k1" "ctx k1 (currp k1) = []" "currp k1 = currp k"
      "round_frame fs \<or> (\<exists>mp. fs = [F_mtx mp] \<and> resume_mtx mp k1 = Inr k1)"
    using resume_kernel_ok [OF k] by blast
  have run: "runs kd k1" using r(2-4) idle by (simp add: runs_def)
  have ok1: "sys_ok kd (k1, b)" using r(2) b by simp
  show ?thesis using r(1,5) ok1 b unfolding round_frame_def go_on_def
    by (auto simp: with_boxes_def intro!: fine_box box_calls [OF run])
qed

text \<open>Inside a handler a thread of higher priority than the running one may have become ready.\<close>

fun in_handler :: "(node \<Rightarrow> kind) \<Rightarrow> ksys \<Rightarrow> bool" where
  "in_handler kd (k, b) \<longleftrightarrow> unscheduled kd k \<and> (\<forall>i. mb_ok kd (b i))"

lemma fine_handler: "fine (unscheduled kd) r \<Longrightarrow> \<forall>i. mb_ok kd (b i) \<Longrightarrow> fine (in_handler kd) (with_boxes b r)"
  unfolding with_boxes_def by (erule fine_rbind) simp

lemma fine_handler_box:
  "fine (\<lambda>(_, x, k). unscheduled kd k \<and> mb_ok kd x) r \<Longrightarrow> \<forall>i. mb_ok kd (b i) \<Longrightarrow> fine (in_handler kd) (box_result i b r)"
  unfolding box_result_def by (erule fine_rbind) auto

lemma after_I_unscheduled:
  assumes "after_I kd A k Q k' Q'" "timers_ok A k" "mtx_inv kd k Q M" "ctx k (currp k) = []"
  shows "unscheduled kd k'"
proof -
  have a: "kcore kd A k' Q' {}" "same_mtx k k'" "vtl k' = vtl k" "currp k' = currp k" "ctx k' = ctx k" "\<forall>h. kd h = KMtx \<longrightarrow> Q' h = Q h"
    using assms(1) by (simp_all add: after_I_def)
  have "mtx_inv kd k' Q' M" by (rule mtx_inv_same [OF assms(3) a(2,6)])
  then show ?thesis unfolding unscheduled_def using a timers_ok_vtl [OF a(3) assms(2)] assms(4) by auto
qed

lemma handler_calls:
  assumes u: "unscheduled kd k"
  shows "kd s = KSem \<Longrightarrow> fine (unscheduled kd) (chSemSignalI s k)" "kd s = KSem \<Longrightarrow> 0 < i \<Longrightarrow> fine (unscheduled kd) (chSemAddCounterI s i k)"
    "kd s = KSem \<Longrightarrow> 0 \<le> i \<Longrightarrow> i < 2 ^ 31 \<Longrightarrow> fine (unscheduled kd) (chSemResetI s i k)" "fine (unscheduled kd) (chThdResumeI r m k)"
    "kd q = KQueue \<Longrightarrow> fine (unscheduled kd) (chThdDequeueNextI q m k)" "kd q = KQueue \<Longrightarrow> fine (unscheduled kd) (chThdDequeueAllI q m k)"
proof -
  obtain A Q M where c: "kcore kd A k Q {}" "timers_ok A k" "mtx_inv kd k Q M" "ctx k (currp k) = []" using u by (auto simp: unscheduled_def)
  note ok = after_I_unscheduled [OF _ c(2,3,4)]
  show "fine (unscheduled kd) (chSemSignalI s k)" if "kd s = KSem" by (rule fine_mono [OF chSemSignalI_ok [OF c(1) that]]) (use ok in blast)
  show "fine (unscheduled kd) (chSemAddCounterI s i k)" if "kd s = KSem" "0 < i" by (rule fine_mono [OF chSemAddCounterI_ok [OF c(1) that]]) (use ok in blast)
  show "fine (unscheduled kd) (chSemResetI s i k)" if "kd s = KSem" "0 \<le> i" "i < 2 ^ 31" by (rule fine_mono [OF chSemResetI_ok [OF c(1) that]]) (use ok in blast)
  show "fine (unscheduled kd) (chThdResumeI r m k)" by (rule fineI) (use chThdResumeI_ok [OF c(1), of r m] ok in blast)
  show "fine (unscheduled kd) (chThdDequeueNextI q m k)" if "kd q = KQueue" by (rule fineI) (use chThdDequeueNextI_ok [OF c(1) that, of m] ok in blast)
  show "fine (unscheduled kd) (chThdDequeueAllI q m k)" if "kd q = KQueue" by (rule fineI) (use chThdDequeueAllI_ok [OF c(1) that, of m] ok in blast)
qed

lemma handler_boxes:
  assumes u: "unscheduled kd k" and b: "mb_ok kd x"
  shows "fine (\<lambda>(_, x, k). unscheduled kd k \<and> mb_ok kd x) (chMBPostI m x k)" "fine (\<lambda>(_, x, k). unscheduled kd k \<and> mb_ok kd x) (chMBPostAheadI m x k)"
    "fine (\<lambda>(_, x, k). unscheduled kd k \<and> mb_ok kd x) (rbind (chMBFetchI x k) (\<lambda>(r, _, x, k). Inr (r, x, k)))"
    "fine (\<lambda>(_, x, k). unscheduled kd k \<and> mb_ok kd x) (rbind (chMBResetI x k) (\<lambda>(x, k). Inr ((), x, k)))"
proof -
  have i: "mb_inv x" "kd (mb_qw x) = KQueue" "kd (mb_qr x) = KQueue" using b by (simp_all add: mb_ok_def)
  have sz: "0 < chMBGetFreeCountI x \<longleftrightarrow> mb_cnt x < chMBGetSizeI x" by (auto simp: chMBGetFreeCountI_def chMBGetUsedCountI_def)
  have wr: "mb_wrptr x < length (mb_buffer x)" "mb_rdptr x < length (mb_buffer x)" using mb_wr [OF i(1)] by simp_all
  have q: "mb_qw (mb_post m x) = mb_qw x" "mb_qr (mb_post m x) = mb_qr x" "mb_qw (mb_post_ahead m x) = mb_qw x" "mb_qr (mb_post_ahead m x) = mb_qr x"
      "mb_qw (snd (mb_fetch x)) = mb_qw x" "mb_qr (snd (mb_fetch x)) = mb_qr x" "length (mb_buffer (mb_post_ahead m x)) = length (mb_buffer x)"
    by (simp_all add: mb_post_def mb_post_ahead_def mb_fetch_def Let_def)
  have tell: "fine (\<lambda>(_, y, k). unscheduled kd k \<and> mb_ok kd y) (rbind (chThdDequeueNextI p MSG_OK k) (\<lambda>k. Inr (r, y, k)))"
    if "kd p = KQueue" "mb_ok kd y" for p y and r :: msg
    by (rule fine_rbind [OF handler_calls(5) [OF u that(1)]]) (use that(2) in simp)
  have ok: "0 < chMBGetFreeCountI x \<Longrightarrow> mb_ok kd (mb_post m x)" "0 < chMBGetFreeCountI x \<Longrightarrow> mb_ok kd (mb_post_ahead m x)"
      "0 < chMBGetUsedCountI x \<Longrightarrow> mb_ok kd (snd (mb_fetch x))" "0 < chMBGetFreeCountI x \<Longrightarrow> mb_rdptr (mb_post_ahead m x) < length (mb_buffer x)"
    using i q mb_post_inv [OF i(1)] mb_ahead_inv [OF i(1), where x = m] mb_fetch_inv [OF i(1)]
    by (auto simp: sz mb_ok_def chMBGetUsedCountI_def mb_view_def)
  show "fine (\<lambda>(_, x, k). unscheduled kd k \<and> mb_ok kd x) (chMBPostI m x k)"
    using u b wr(1) i(3) ok(1) tell [of _ "mb_post m x"] by (simp add: chMBPostI_def in_buffer_def Let_def q)
  show "fine (\<lambda>(_, x, k). unscheduled kd k \<and> mb_ok kd x) (chMBPostAheadI m x k)"
    using u b i(3) ok(2,4) tell [of _ "mb_post_ahead m x"] by (simp add: chMBPostAheadI_def in_buffer_def Let_def q)
  have "rbind (chMBFetchI x k) (\<lambda>(r, _, x, k). Inr (r, x, k)) =
      (if mb_reset x then Inr (MSG_RESET, x, k) else if chMBGetUsedCountI x > 0 then
         rbind (chThdDequeueNextI (mb_qw x) MSG_OK k) (\<lambda>k. Inr (MSG_OK, snd (mb_fetch x), k)) else Inr (MSG_TIMEOUT, x, k))"
    using wr(2) q(5) by (simp add: chMBFetchI_def in_buffer_def split_beta rbind_def split: sum.splits)
  then show "fine (\<lambda>(_, x, k). unscheduled kd k \<and> mb_ok kd x) (rbind (chMBFetchI x k) (\<lambda>(r, _, x, k). Inr (r, x, k)))"
    using u b i(2) ok(3) tell [of _ "snd (mb_fetch x)"] by simp
  have r: "fine (\<lambda>k. unscheduled kd k) (rbind (chThdDequeueAllI (mb_qw x) MSG_RESET k) (\<lambda>k. chThdDequeueAllI (mb_qr x) MSG_RESET k))"
    by (rule fine_rbind [OF handler_calls(6) [OF u i(2)]]) (rule handler_calls(6) [where kd = kd, OF _ i(3)])
  let ?x = "x\<lparr>mb_wrptr := 0, mb_rdptr := 0, mb_cnt := 0, mb_reset := True\<rparr>"
  have x: "mb_ok kd ?x" using mb_size_pos [OF i(1)] i by (simp add: mb_ok_def mb_inv_def chMBGetSizeI_def)
  have eq: "rbind (chMBResetI x k) (\<lambda>(x, k). Inr ((), x, k)) =
      rbind (rbind (chThdDequeueAllI (mb_qw x) MSG_RESET k) (\<lambda>k. chThdDequeueAllI (mb_qr x) MSG_RESET k)) (\<lambda>k. Inr ((), ?x, k))"
    by (simp add: chMBResetI_def Let_def rbind_def split: sum.splits)
  show "fine (\<lambda>(_, x, k). unscheduled kd k \<and> mb_ok kd x) (rbind (chMBResetI x k) (\<lambda>(x, k). Inr ((), x, k)))"
    unfolding eq by (rule fine_rbind [OF r]) (use x in simp)
qed

lemma performI_fine:
  assumes h: "in_handler kd (k, b)" and c: "allowedI kd c"
  shows "fine (in_handler kd) (performI c (k, b))"
proof -
  have u: "unscheduled kd k" and b: "\<forall>i. mb_ok kd (b i)" using h by simp_all
  show ?thesis using c b handler_calls [OF u] handler_boxes [OF u]
    by (cases c) (simp_all add: fine_handler fine_handler_box)
qed

lemma operations_fine: "in_handler kd s \<Longrightarrow> list_all (allowedI kd) cs \<Longrightarrow> fine (in_handler kd) (operations cs s)"
proof (induction cs arbitrary: s)
  case (Cons c cs)
  then have "fine (in_handler kd) (performI c s)" using performI_fine [of kd "fst s" "snd s" c] by simp
  then show ?case using Cons by (auto intro: fine_rbind)
qed simp

lemma preempt_fine:
  assumes "in_handler kd (k, b)"
  shows "fine (sys_ok kd) (with_boxes b (chSchPreemption k))"
  using reschedule_unscheduled [of kd k] assms unfolding chSchPreemption_eq by (auto intro!: fine_boxes)

lemma interrupt_fine:
  assumes ok: "sys_ok kd (k, b)" and run: "ctx k (currp k) = []" and c: "list_all (allowedI kd) cs"
  shows "fine (sys_ok kd) (interrupt cs (k, b))"
proof -
  have "in_handler kd (k, b)" using ok run by (auto simp: kernel_ok_def unscheduled_def)
  from operations_fine [OF this c] show ?thesis unfolding interrupt_def
    by (rule fine_rbind) (simp add: split_paired_all preempt_fine split: prod.split)
qed

lemma timer_fine:
  assumes ok: "sys_ok kd (k, b)" and run: "ctx k (currp k) = []" and t: "counter_runs time (lasttime (vtl k))"
  shows "fine (sys_ok kd) (timer_interrupt app time (k, b))"
proof -
  obtain A Q M where c: "kcore kd A k Q {}" "timers_ok A k" "mtx_inv kd k Q M" using ok by (auto simp: kernel_ok_def)
  obtain k' A' Q' where r: "chSysTimerHandlerI app time k = Inr k'" "kcore kd A' k' Q' {}" "timers_ok A' k'" "currp k' = currp k" "ctx k' = ctx k"
      "same_mtx k k'" "\<forall>h. kd h = KMtx \<longrightarrow> Q' h = Q h"
    using tick_ok [OF c(1,2) run t] by blast
  have "mtx_inv kd k' Q' M" by (rule mtx_inv_same [OF c(3) r(6,7)])
  then have "unscheduled kd k'" unfolding unscheduled_def using r(2-5) run by auto
  then have "in_handler kd (k', b)" using ok by simp
  from preempt_fine [OF this] show ?thesis using r(1) by (simp add: timer_interrupt_def)
qed

lemma sys_step:
  assumes "kstep kd app s s'" "sys_ok kd s"
  shows "sys_ok kd s'"
  using assms
proof (cases rule: kstep.cases)
  case (call k c now now' b)
  then have "runs kd k" "\<forall>i. mb_ok kd (b i)" using assms(2) by (simp_all add: runs_def)
  then show ?thesis using perform_fine [of kd k b c now now'] call by simp
next
  case (resume k now now' b)
  then show ?thesis using go_on_fine [of kd k b now now'] assms(2) by simp
next
  case (tick k time b)
  then show ?thesis using timer_fine [of kd k b time app] assms(2) by simp
next
  case (irq k cs b)
  then show ?thesis using interrupt_fine [of kd k b cs] assms(2) by simp
qed

lemma sys_reachable: "(kstep kd app)\<^sup>*\<^sup>* s s' \<Longrightarrow> sys_ok kd s \<Longrightarrow> sys_ok kd s'"
  by (induction rule: rtranclp_induct) (blast intro: sys_step)+

section \<open>Properties\<close>

lemma ready_below:
  assumes "kernel_ok kd k" "thread kd t" "kstate k t = CH_STATE_READY"
  shows "prio k t \<le> prio k (currp k)"
proof -
  obtain A Q where "kcore kd A k Q {}" "top_prio k Q" using assms(1) by (auto simp: kernel_ok_def)
  then show ?thesis using waits_for(4) [of kd A k Q t] assms(2,3) by (simp add: top_prio_def)
qed


lemma mx_sys_ok: "sys_ok ex_kd (mx_kernel, \<lambda>_. ex_mailbox)"
  using mx_runs ex_mb_ok by (simp add: runs_def)


end
