(* ===== verification/Spec2Isabelle.thy ===== *)
theory Spec2Isabelle
  imports CWSafety CWReal ChTime Tach Util Eeprom Motor MqttRun KRun
begin

text \<open>
  Firmware of the maglev motor controller: CWPack codec.
\<close>

end
